(* ===== verification/Prelude.thy ===== *)
theory Prelude
  imports Main "HOL-Library.Word" "HOL-Library.Mapping" "HOL-Library.AList_Mapping"
begin

text \<open>
  Shared vocabulary of the TinyKV development: the names of the model's basic types, the
  collections of rewrite rules the component theories fill, machine integers of C++
  (\<^verbatim>\<open>int\<close> and \<^verbatim>\<open>long long\<close>) as integers with the wrap-around written out, and the
  generic facts on lists, association lists and mappings that several components need.
\<close>

section \<open>Names and collections\<close>

type_synonym key = string
type_synonym val = string
type_synonym wire_line = string
type_synonym file_path = string
type_synonym nanos = int

named_theorems text_simps "rewrite rules on characters, tokens and numbers as text"
named_theorems store_simps "behaviour of the store's operations"
named_theorems expiry_simps "behaviour of the expiry manager's operations"
named_theorems disk_simps "behaviour of files and of the append-only file"
named_theorems ring_simps "behaviour of the hash ring's ordered map"
named_theorems topo_simps "behaviour of the shard table"

section \<open>Machine integers\<close>

text \<open>
  A signed C++ integer of width \<open>w\<close> is an \<^typ>\<open>int\<close> in the range of the type; the
  result of an operation is brought back into the range by two's complement wrap-around,
  which is what the compiled code computes (ISO C++ leaves signed overflow undefined, so
  every property that relies on exact arithmetic states the absence of overflow).
\<close>

definition wrap_signed :: "nat \<Rightarrow> int \<Rightarrow> int" where
  "wrap_signed w x = (x + 2 ^ (w - 1)) mod 2 ^ w - 2 ^ (w - 1)"

abbreviation in_int64 :: "int \<Rightarrow> bool" where
  "in_int64 x \<equiv> - 9223372036854775808 \<le> x \<and> x \<le> 9223372036854775807"

abbreviation in_int32 :: "int \<Rightarrow> bool" where
  "in_int32 x \<equiv> - 2147483648 \<le> x \<and> x \<le> 2147483647"

definition wrap64 :: "int \<Rightarrow> int" where
  "wrap64 x = wrap_signed 64 x"

definition wrap32 :: "int \<Rightarrow> int" where
  "wrap32 x = wrap_signed 32 x"

lemma wrap64_exact: "in_int64 x \<Longrightarrow> wrap64 x = x"
  by (simp add: wrap64_def wrap_signed_def)

lemma wrap64_range: "in_int64 (wrap64 x)"
proof -
  have "0 \<le> (x + 2 ^ 63) mod 2 ^ 64" and "(x + 2 ^ 63) mod 2 ^ 64 < (2 ^ 64 :: int)"
    by simp_all
  then show ?thesis
    by (simp add: wrap64_def wrap_signed_def)
qed

lemma wrap32_exact: "in_int32 x \<Longrightarrow> wrap32 x = x"
  by (simp add: wrap32_def wrap_signed_def)

lemma wrap32_range: "in_int32 (wrap32 x)"
proof -
  have "0 \<le> (x + 2 ^ 31) mod 2 ^ 32" and "(x + 2 ^ 31) mod 2 ^ 32 < (2 ^ 32 :: int)"
    by simp_all
  then show ?thesis
    by (simp add: wrap32_def wrap_signed_def)
qed

lemma wrap64_overflow: "wrap64 (9223372036854775807 + 1) = - 9223372036854775808"
  by (simp add: wrap64_def wrap_signed_def)

text \<open>C++ integer division drops the fraction: the quotient of the magnitudes with the sign put back.\<close>

definition cpp_quotient :: "int \<Rightarrow> int \<Rightarrow> int" where
  "cpp_quotient x y =
     (let q = abs x div abs y in if (x < 0) = (y < 0) then q else - q)"

lemma cpp_quotient_nonneg: "0 \<le> x \<Longrightarrow> 0 < y \<Longrightarrow> cpp_quotient x y = x div y"
  by (simp add: cpp_quotient_def)

lemma cpp_quotient_nonpos: "x \<le> 0 \<Longrightarrow> 0 < y \<Longrightarrow> cpp_quotient x y \<le> 0"
  by (cases "x = 0") (simp_all add: cpp_quotient_def pos_imp_zdiv_nonneg_iff)

section \<open>Lists and association lists\<close>

lemma map_of_filter_fst:
  "map_of (filter (\<lambda>e. P (fst e)) xs) k = (if P k then map_of xs k else None)"
  by (induction xs) auto


lemma distinct_fst_filter: "distinct (map fst xs) \<Longrightarrow> distinct (map fst (filter P xs))"
  by (induction xs) auto

lemma filter_fst_singleton:
  "distinct (map fst xs) \<Longrightarrow> map_of xs n = Some e \<Longrightarrow>
    filter (\<lambda>x. fst x = n) xs = [(n, e)]"
proof (induction xs)
  case (Cons x xs)
  show ?case
  proof (cases "fst x = n")
    case True
    moreover from this Cons.prems(1) have "filter (\<lambda>x. fst x = n) xs = []"
      by (auto simp: filter_empty_conv image_iff)
    ultimately show ?thesis using Cons.prems by (cases x) auto
  next
    case False
    with Cons show ?thesis by auto
  qed
qed simp


lemma map_of_butlast:
  "distinct (map fst xs) \<Longrightarrow> xs \<noteq> [] \<Longrightarrow>
    map_of (butlast xs) = (map_of xs)(fst (last xs) := None)"
proof (induction xs rule: rev_induct)
  case (snoc x xs)
  then have "fst x \<notin> fst ` set xs" by simp
  then have "map_of xs (fst x) = None" by (simp add: map_of_eq_None_iff)
  moreover have "map_of (xs @ [x]) = [fst x \<mapsto> snd x] ++ map_of xs" by (cases x) simp
  ultimately show ?case by (auto simp: map_add_def split: option.splits)
qed simp

lemma map_of_rev_distinct:
  "distinct (map fst xs) \<Longrightarrow> map_of (rev xs) = map_of xs"
proof (induction xs)
  case (Cons x xs)
  then have "map_of xs (fst x) = None" by (simp add: map_of_eq_None_iff)
  then have "[fst x \<mapsto> snd x] ++ map_of xs = (map_of xs)(fst x \<mapsto> snd x)"
    by (auto simp: map_add_def split: option.splits)
  with Cons show ?case by (cases x) (simp add: map_of_append)
qed simp

lemma split_at_first_unique:
  "x \<notin> set a \<Longrightarrow> x \<notin> set b \<Longrightarrow> a @ x # c = b @ x # d \<Longrightarrow> a = b \<and> c = d"
proof (induction a arbitrary: b)
  case Nil
  then show ?case by (cases b) auto
next
  case (Cons y ys)
  then show ?case by (cases b) auto
qed

lemma takeWhile_append_stop:
  "\<forall>c \<in> set xs. P c \<Longrightarrow> \<not> P y \<Longrightarrow> takeWhile P (xs @ y # ys) = xs"
  by (induction xs) auto

lemma dropWhile_append_stop:
  "\<forall>c \<in> set xs. P c \<Longrightarrow> \<not> P y \<Longrightarrow> dropWhile P (xs @ y # ys) = y # ys"
  by (induction xs) auto

lemma dropWhile_length_less:
  "xs \<noteq> [] \<Longrightarrow> P (hd xs) \<Longrightarrow> length (dropWhile P xs) < length xs"
  by (cases xs) (auto intro: le_less_trans [OF length_dropWhile_le])


section \<open>Mappings\<close>

lemma lookup_update_if:
  "Mapping.lookup (Mapping.update k v m) k' = (if k = k' then Some v else Mapping.lookup m k')"
  by (simp add: lookup_update')

lemma lookup_delete_if:
  "Mapping.lookup (Mapping.delete k m) k' = (if k = k' then None else Mapping.lookup m k')"
  by (auto simp: lookup_delete lookup_delete_neq)

lemmas lookup_simps = Mapping.lookup_empty lookup_update_if lookup_delete_if

lemma keys_lookup: "k \<in> Mapping.keys m \<longleftrightarrow> Mapping.lookup m k \<noteq> None"
  by (simp add: keys_dom_lookup domIff)

section \<open>Argument lists\<close>

lemma args_cases [case_names none one two three four more]:
  obtains "args = []" | a where "args = [a]" | a b where "args = [a, b]"
    | a b c where "args = [a, b, c]" | a b c d where "args = [a, b, c, d]"
    | a b c d e f where "args = a # b # c # d # e # f"
  by (metis list.exhaust)

end
