(* ===== verification/Cpp_Text.thy ===== *)
theory Cpp_Text
  imports Prelude
begin

text \<open>
  The parts of the C++ standard library the sources use on text, for the C locale the
  programs run in: character classes and case mapping (\<^verbatim>\<open><cctype>\<close>), searching in a
  string, formatted extraction of words (\<^verbatim>\<open>operator>>\<close>), line extraction
  (\<^verbatim>\<open>std::getline\<close>), \<^verbatim>\<open>std::to_string\<close> and the conversions \<^verbatim>\<open>std::stoll\<close> and
  \<^verbatim>\<open>std::stoi\<close>, which skip leading white space, accept a sign and ignore everything
  after the last digit. The main results are that printing an integer and reading it back is
  the identity, and that splitting a text into lines inverts joining lines.
\<close>

section \<open>Characters\<close>

definition char_code :: "char \<Rightarrow> nat" where
  "char_code c = of_char c"

definition isspace :: "char \<Rightarrow> bool" where
  "isspace c \<longleftrightarrow> char_code c = 32 \<or> (9 \<le> char_code c \<and> char_code c \<le> 13)"

definition isdigit :: "char \<Rightarrow> bool" where
  "isdigit c \<longleftrightarrow> 48 \<le> char_code c \<and> char_code c \<le> 57"

definition toupper :: "char \<Rightarrow> char" where
  "toupper c = (if 97 \<le> char_code c \<and> char_code c \<le> 122 then char_of (char_code c - 32) else c)"

definition tolower :: "char \<Rightarrow> char" where
  "tolower c = (if 65 \<le> char_code c \<and> char_code c \<le> 90 then char_of (char_code c + 32) else c)"

abbreviation LF :: char where "LF \<equiv> CHR 0x0A"
abbreviation CR :: char where "CR \<equiv> CHR 0x0D"
abbreviation SP :: char where "SP \<equiv> CHR 0x20"

section \<open>Searching\<close>

text \<open>\<^verbatim>\<open>std::string::find(c)\<close> and \<^verbatim>\<open>rfind(c)\<close>; \<^const>\<open>None\<close> is \<^verbatim>\<open>npos\<close>.\<close>

fun find_char :: "char \<Rightarrow> string \<Rightarrow> nat option" where
  "find_char c [] = None"
| "find_char c (x # xs) = (if x = c then Some 0 else map_option Suc (find_char c xs))"

definition rfind_char :: "char \<Rightarrow> string \<Rightarrow> nat option" where
  "rfind_char c s = map_option (\<lambda>i. length s - 1 - i) (find_char c (rev s))"

section \<open>Words\<close>

definition is_word :: "string \<Rightarrow> bool" where
  "is_word w \<longleftrightarrow> w \<noteq> [] \<and> (\<forall>c \<in> set w. \<not> isspace c)"

text \<open>
  One \<^verbatim>\<open>stream >> token\<close>: skip white space, then take the longest run of other characters.
  \<^const>\<open>None\<close> is the failed extraction at the end of the stream.
\<close>

definition extract_word :: "string \<Rightarrow> (string \<times> string) option" where
  "extract_word s =
     (let t = dropWhile isspace s
      in if t = [] then None
         else Some (takeWhile (\<lambda>c. \<not> isspace c) t, dropWhile (\<lambda>c. \<not> isspace c) t))"

section \<open>Lines\<close>

text \<open>
  \<^verbatim>\<open>while (std::getline(in, line, delim))\<close>: the sequence of values \<^verbatim>\<open>line\<close> takes. A
  last line without the delimiter is delivered too; an empty rest is not.
\<close>

fun getlines_acc :: "char \<Rightarrow> string \<Rightarrow> string \<Rightarrow> string list" where
  "getlines_acc d acc [] = (if acc = [] then [] else [rev acc])"
| "getlines_acc d acc (c # cs) =
     (if c = d then rev acc # getlines_acc d [] cs else getlines_acc d (c # acc) cs)"

definition getlines :: "char \<Rightarrow> string \<Rightarrow> string list" where
  "getlines d s = getlines_acc d [] s"

definition unlines :: "string list \<Rightarrow> string" where
  "unlines ls = concat (map (\<lambda>l. l @ [LF]) ls)"

section \<open>Numbers\<close>

definition digit_char :: "nat \<Rightarrow> char" where
  "digit_char d = char_of (48 + d)"

definition digit_val :: "char \<Rightarrow> nat" where
  "digit_val c = char_code c - 48"

fun digits :: "nat \<Rightarrow> string" where
  "digits n = (if n < 10 then [digit_char n] else digits (n div 10) @ [digit_char (n mod 10)])"

declare digits.simps [simp del]

definition to_string :: "int \<Rightarrow> string" where
  "to_string x = (if x < 0 then CHR ''-'' # digits (nat (- x)) else digits (nat x))"

definition dec_value :: "string \<Rightarrow> nat" where
  "dec_value ds = foldl (\<lambda>a c. 10 * a + digit_val c) 0 ds"

datatype conv_error = InvalidArgument | OutOfRange

definition read_sign :: "string \<Rightarrow> bool \<times> string" where
  "read_sign s = (case s of [] \<Rightarrow> (False, [])
     | c # r \<Rightarrow> if c = CHR ''-'' then (True, r) else if c = CHR ''+'' then (False, r) else (False, s))"

definition read_int :: "string \<Rightarrow> int option" where
  "read_int s =
     (let (neg, u) = read_sign (dropWhile isspace s); ds = takeWhile isdigit u
      in if ds = [] then None
         else Some (if neg then - int (dec_value ds) else int (dec_value ds)))"

definition stoll :: "string \<Rightarrow> conv_error + int" where
  "stoll s = (case read_int s of None \<Rightarrow> Inl InvalidArgument
     | Some v \<Rightarrow> if in_int64 v then Inr v else Inl OutOfRange)"

definition stoi :: "string \<Rightarrow> conv_error + int" where
  "stoi s = (case read_int s of None \<Rightarrow> Inl InvalidArgument
     | Some v \<Rightarrow> if in_int32 v then Inr v else Inl OutOfRange)"

section \<open>Facts on characters\<close>

lemma char_code_char_of: "n < 256 \<Longrightarrow> char_code (char_of n) = n"
  by (simp add: char_code_def)

lemma char_of_char_code: "char_of (char_code c) = c"
  by (simp add: char_code_def)


lemma toupper_tolower: "toupper (tolower c) = toupper c"
  by (auto simp: toupper_def tolower_def char_code_char_of char_of_char_code)

lemma tolower_eq_iff_toupper_eq: "tolower a = tolower b \<longleftrightarrow> toupper a = toupper b"
proof
  assume "tolower a = tolower b"
  then have "toupper (tolower a) = toupper (tolower b)" by simp
  then show "toupper a = toupper b" by (simp only: toupper_tolower)
next
  have lu: "tolower (toupper c) = tolower c" for c
    by (auto simp: toupper_def tolower_def char_code_char_of char_of_char_code)
  assume "toupper a = toupper b"
  then have "tolower (toupper a) = tolower (toupper b)" by simp
  then show "tolower a = tolower b" by (simp only: lu)
qed

lemma isdigit_digit_char [simp]: "d < 10 \<Longrightarrow> isdigit (digit_char d)"
  by (simp add: isdigit_def digit_char_def char_code_char_of)

lemma digit_val_digit_char [simp]: "d < 10 \<Longrightarrow> digit_val (digit_char d) = d"
  by (simp add: digit_val_def digit_char_def char_code_char_of)

lemma digit_chars [text_simps]:
  "digit_char 0 = CHR ''0''" "digit_char (Suc 0) = CHR ''1''" "digit_char 1 = CHR ''1''"
  "digit_char 2 = CHR ''2''" "digit_char 3 = CHR ''3''" "digit_char 4 = CHR ''4''"
  "digit_char 5 = CHR ''5''" "digit_char 6 = CHR ''6''" "digit_char 7 = CHR ''7''"
  "digit_char 8 = CHR ''8''" "digit_char 9 = CHR ''9''"
  by code_simp+

lemma isdigit_not_space: "isdigit c \<Longrightarrow> \<not> isspace c"
  by (auto simp: isdigit_def isspace_def)

lemma space_chars [simp]: "isspace SP" "isspace LF" "isspace CR"
  by (simp_all add: isspace_def char_code_def)

lemma sign_chars: "\<not> isspace (CHR ''-'')" "\<not> isdigit (CHR ''-'')"
  "\<not> isspace (CHR ''+'')" "\<not> isdigit (CHR ''+'')"
  by (simp_all add: isspace_def isdigit_def char_code_def)

section \<open>Facts on searching\<close>

lemma find_char_None_iff: "find_char c s = None \<longleftrightarrow> c \<notin> set s"
  by (induction s) auto

lemma find_char_append: "c \<notin> set xs \<Longrightarrow> find_char c (xs @ c # ys) = Some (length xs)"
  by (induction xs) auto

lemma find_char_SomeD:
  "find_char c s = Some i \<Longrightarrow> i < length s \<and> s ! i = c \<and> c \<notin> set (take i s)"
proof (induction s arbitrary: i)
  case (Cons x xs)
  show ?case
  proof (cases "x = c")
    case False
    with Cons.prems obtain j where "find_char c xs = Some j" "i = Suc j" by auto
    with Cons.IH False show ?thesis by auto
  qed (use Cons.prems in auto)
qed simp

lemma find_char_split:
  assumes "find_char c s = Some i"
  shows "s = take i s @ c # drop (Suc i) s"
proof -
  from find_char_SomeD [OF assms] have "i < length s" and "s ! i = c" by auto
  then show ?thesis by (metis id_take_nth_drop)
qed



section \<open>Facts on words\<close>

lemma extract_word_shrinks: "extract_word s = Some (w, r) \<Longrightarrow> length r < length s"
proof -
  assume h: "extract_word s = Some (w, r)"
  let ?t = "dropWhile isspace s"
  from h have t: "?t \<noteq> []" and r: "r = dropWhile (\<lambda>c. \<not> isspace c) ?t"
    by (auto simp: extract_word_def Let_def split: if_splits)
  have "length r < length ?t"
    unfolding r using t hd_dropWhile [OF t] by (intro dropWhile_length_less)
  also have "length ?t \<le> length s" by (rule length_dropWhile_le)
  finally show ?thesis .
qed

lemma extract_word_is_word: "extract_word s = Some (w, r) \<Longrightarrow> is_word w"
proof -
  assume h: "extract_word s = Some (w, r)"
  let ?t = "dropWhile isspace s"
  from h have t: "?t \<noteq> []" and w: "w = takeWhile (\<lambda>c. \<not> isspace c) ?t"
    by (auto simp: extract_word_def Let_def split: if_splits)
  from t hd_dropWhile [OF t] have "w \<noteq> []"
    unfolding w by (cases ?t) auto
  then show ?thesis
    unfolding is_word_def w by (auto dest: set_takeWhileD)
qed

lemma is_word_hd: "is_word w \<Longrightarrow> \<exists>c cs. w = c # cs \<and> \<not> isspace c"
  by (cases w) (auto simp: is_word_def)

lemma dropWhile_space_word: "is_word w \<Longrightarrow> dropWhile isspace (w @ r) = w @ r"
  by (auto dest: is_word_hd)

lemma extract_word_stop:
  "is_word w \<Longrightarrow> isspace c \<Longrightarrow> extract_word (w @ c # r) = Some (w, c # r)"
  unfolding extract_word_def Let_def
  by (simp add: dropWhile_space_word [of w "c # r", simplified] is_word_def
      takeWhile_append_stop dropWhile_append_stop)

lemma extract_word_end: "is_word w \<Longrightarrow> extract_word w = Some (w, [])"
  using dropWhile_space_word [of w "[]"]
  by (auto simp: extract_word_def Let_def is_word_def takeWhile_eq_all_conv)

lemma extract_word_skip: "isspace c \<Longrightarrow> extract_word (c # s) = extract_word s"
  by (simp add: extract_word_def)

lemma extract_word_Nil [simp]: "extract_word [] = None"
  by (simp add: extract_word_def)

section \<open>Facts on lines\<close>

lemma getlines_acc_line:
  "d \<notin> set l \<Longrightarrow> getlines_acc d acc (l @ d # s) = (rev acc @ l) # getlines_acc d [] s"
  by (induction l arbitrary: acc) auto

lemma getlines_Nil [simp]: "getlines d [] = []"
  by (simp add: getlines_def)

lemma getlines_line: "d \<notin> set l \<Longrightarrow> getlines d (l @ d # s) = l # getlines d s"
  by (simp add: getlines_def getlines_acc_line)

lemma unlines_Nil [simp]: "unlines [] = []"
  and unlines_Cons [simp]: "unlines (l # ls) = l @ LF # unlines ls"
  and unlines_append [simp]: "unlines (ls @ ms) = unlines ls @ unlines ms"
  by (simp_all add: unlines_def)

text \<open>A stream of lines cut anywhere is some of the lines and a part of the next.\<close>

lemma take_unlines:
  "\<forall>l \<in> set ls. LF \<notin> set l \<Longrightarrow> \<exists>i tail. take j (unlines ls) = unlines (take i ls) @ tail \<and> LF \<notin> set tail"
proof (induction ls arbitrary: j)
  case (Cons l ls)
  show ?case
  proof (cases "j \<le> length l")
    case True
    with Cons.prems in_set_takeD [of LF j l] show ?thesis by (intro exI [of _ 0] exI [of _ "take j l"]) auto
  next
    case False
    then have t: "take j (unlines (l # ls)) = l @ LF # take (j - Suc (length l)) (unlines ls)"
      by (simp add: take_Cons' diff_Suc split: nat.split)
    from Cons.IH [of "j - Suc (length l)"] Cons.prems obtain i tail where
      "take (j - Suc (length l)) (unlines ls) = unlines (take i ls) @ tail" "LF \<notin> set tail" by auto
    then show ?thesis by (intro exI [of _ "Suc i"] exI [of _ tail]) (simp only: t, simp)
  qed
qed simp

lemma getlines_unlines: "\<forall>l \<in> set ls. LF \<notin> set l \<Longrightarrow> getlines LF (unlines ls @ s) = ls @ getlines LF s"
  by (induction ls) (auto simp: getlines_line)

lemma getlines_acc_no_delim: "d \<notin> set l \<Longrightarrow> getlines_acc d acc l = (if rev acc @ l = [] then [] else [rev acc @ l])"
  by (induction l arbitrary: acc) auto

lemma getlines_no_delim: "d \<notin> set l \<Longrightarrow> getlines d l = (if l = [] then [] else [l])"
  by (simp add: getlines_def getlines_acc_no_delim)

lemma getlines_acc_delim_free:
  "d \<notin> set acc \<Longrightarrow> l \<in> set (getlines_acc d acc s) \<Longrightarrow> d \<notin> set l"
  by (induction d acc s rule: getlines_acc.induct) (auto split: if_splits)

lemma getlines_delim_free: "l \<in> set (getlines d s) \<Longrightarrow> d \<notin> set l"
  unfolding getlines_def by (erule getlines_acc_delim_free [rotated]) simp

section \<open>Facts on numbers\<close>

lemma digits_nonempty: "digits n \<noteq> []"
  by (subst digits.simps) simp

lemma digits_isdigit: "\<forall>c \<in> set (digits n). isdigit c"
proof (induction n rule: digits.induct)
  case (1 n)
  then show ?case by (cases "n < 10") (auto simp: digits.simps [of n])
qed

lemma dec_value_snoc: "dec_value (ds @ [c]) = 10 * dec_value ds + digit_val c"
  by (simp add: dec_value_def)

lemma dec_value_digits: "dec_value (digits n) = n"
proof (induction n rule: digits.induct)
  case (1 n)
  show ?case
  proof (cases "n < 10")
    case True
    then show ?thesis by (simp add: digits.simps [of n] dec_value_def)
  next
    case False
    with 1 show ?thesis by (simp add: digits.simps [of n] dec_value_snoc)
  qed
qed

lemma digits_word: "is_word (digits n)"
  using digits_nonempty digits_isdigit isdigit_not_space by (auto simp: is_word_def)

lemma to_string_word: "is_word (to_string x)"
  using digits_word [of "nat x"] digits_word [of "nat (- x)"]
  by (auto simp: to_string_def is_word_def sign_chars)

lemma takeWhile_digits: "takeWhile isdigit (digits n) = digits n"
  using digits_isdigit by (simp add: takeWhile_eq_all_conv)

lemma read_sign_digits: "read_sign (digits n) = (False, digits n)"
  using digits_isdigit [of n] digits_nonempty [of n] sign_chars
  by (cases "digits n") (auto simp: read_sign_def)

lemma read_int_to_string: "read_int (to_string x) = Some x"
proof -
  have w: "dropWhile isspace (to_string x) = to_string x"
    using dropWhile_space_word [OF to_string_word, of x "[]"] by simp
  show ?thesis
  proof (cases "x < 0")
    case True
    then show ?thesis
      by (simp add: read_int_def w)
        (simp add: to_string_def read_sign_def takeWhile_digits digits_nonempty dec_value_digits)
  next
    case False
    then show ?thesis
      by (simp add: read_int_def w)
        (simp add: to_string_def read_sign_digits takeWhile_digits digits_nonempty dec_value_digits)
  qed
qed

lemma stoll_to_string: "in_int64 x \<Longrightarrow> stoll (to_string x) = Inr x"
  by (simp add: stoll_def read_int_to_string)



lemma read_int_digits: "ds \<noteq> [] \<Longrightarrow> \<forall>c \<in> set ds. isdigit c \<Longrightarrow> read_int ds = Some (int (dec_value ds))"
proof -
  assume h: "ds \<noteq> []" "\<forall>c \<in> set ds. isdigit c"
  then have d: "dropWhile isspace ds = ds" and r: "read_sign ds = (False, ds)" and t: "takeWhile isdigit ds = ds"
    using isdigit_not_space sign_chars by (cases ds; auto simp: read_sign_def takeWhile_eq_all_conv)+
  with h(1) show ?thesis by (simp add: read_int_def Let_def d r t)
qed

lemma to_string_inject: "to_string x = to_string y \<Longrightarrow> x = y"
  by (metis read_int_to_string option.inject)

end
