(* ===== verification/Protocol.thy ===== *)
theory Protocol
  imports Cpp_Text
begin

text \<open>
  The request and reply format: \<^verbatim>\<open>include/tinykv/protocol/command.hpp\<close>,
  \<^verbatim>\<open>src/protocol/parser.cpp\<close> and \<^verbatim>\<open>src/protocol/reply.cpp\<close>. A request line is split at
  white space into words, the first of which names the command; a thrown
  \<^verbatim>\<open>ProtocolError\<close> is the left injection of a sum. The lemmas show exactly which lines are
  rejected, that parsing inverts printing, that command names are case-insensitive, and that
  the arguments of a parsed command are words whose total length the line bounds.
\<close>

section \<open>Commands\<close>

datatype CommandType =
    SET | GET | DEL | PING | INCR | DECR | TTL | EXPIRE | PERSIST | SAVE
  | REPLICAOF | SYNC | ROUTE | NODES | UNKNOWN

record Command =
  cmd_type :: CommandType
  cmd_name :: string
  cmd_args :: "string list"

fun isWriteCommand :: "CommandType \<Rightarrow> bool" where
  "isWriteCommand SET = True"
| "isWriteCommand DEL = True"
| "isWriteCommand INCR = True"
| "isWriteCommand DECR = True"
| "isWriteCommand EXPIRE = True"
| "isWriteCommand PERSIST = True"
| "isWriteCommand _ = False"

section \<open>Parser\<close>

datatype ProtocolError = ProtocolError string

definition kMaxLineLength :: nat where
  "kMaxLineLength = 8192"

function tokenize :: "string \<Rightarrow> string list" where
  "tokenize line = (case extract_word line of None \<Rightarrow> []
     | Some (token, rest) \<Rightarrow> token # tokenize rest)"
  by pat_completeness auto
termination
  by (relation "measure length") (auto simp: extract_word_shrinks)

declare tokenize.simps [simp del]

definition toUpper :: "string \<Rightarrow> string" where
  "toUpper s = map toupper s"

definition commandTypeFromName :: "string \<Rightarrow> CommandType" where
  "commandTypeFromName name =
     (let upper = toUpper name in
      if upper = ''SET'' then SET
      else if upper = ''GET'' then GET
      else if upper = ''DEL'' then DEL
      else if upper = ''PING'' then PING
      else if upper = ''INCR'' then INCR
      else if upper = ''DECR'' then DECR
      else if upper = ''TTL'' then TTL
      else if upper = ''EXPIRE'' then EXPIRE
      else if upper = ''PERSIST'' then PERSIST
      else if upper = ''SAVE'' then SAVE
      else if upper = ''REPLICAOF'' then REPLICAOF
      else if upper = ''SYNC'' then SYNC
      else if upper = ''ROUTE'' then ROUTE
      else if upper = ''NODES'' then NODES
      else UNKNOWN)"

definition parse :: "string \<Rightarrow> ProtocolError + Command" where
  "parse line =
     (if length line > kMaxLineLength
      then Inl (ProtocolError (''line too long (max '' @ to_string (int kMaxLineLength) @ '' bytes)''))
      else case tokenize line of
        [] \<Rightarrow> Inl (ProtocolError ''empty command'')
      | t # ts \<Rightarrow> Inr \<lparr>cmd_type = commandTypeFromName t, cmd_name = t, cmd_args = ts\<rparr>)"

section \<open>Replies\<close>

definition Reply_ok :: string where
  "Reply_ok = ''+OK''"

definition Reply_bulk :: "string \<Rightarrow> string" where
  "Reply_bulk value = ''+'' @ value"

definition Reply_nil :: string where
  "Reply_nil = ''$-1''"

definition Reply_error :: "string \<Rightarrow> string" where
  "Reply_error message = ''-ERR '' @ message"

definition Reply_readOnlyError :: string where
  "Reply_readOnlyError = ''-READONLY You can'' @ [CHR 0x27] @ ''t write against a replica.''"

definition Reply_integer :: "int \<Rightarrow> string" where
  "Reply_integer value = '':'' @ to_string value"

lemmas reply_defs =
  Reply_ok_def Reply_bulk_def Reply_nil_def Reply_error_def Reply_readOnlyError_def Reply_integer_def

text \<open>The command words in the order of the enumeration, and a line made of words.\<close>

fun unwords :: "string list \<Rightarrow> string" where
  "unwords [] = []"
| "unwords [w] = w"
| "unwords (w # ws) = w @ SP # unwords ws"

section \<open>Splitting into words\<close>

lemma tokenize_Nil [simp]: "tokenize [] = []"
  by (simp add: tokenize.simps [of "[]"])

lemma tokenize_stop: "is_word w \<Longrightarrow> isspace c \<Longrightarrow> tokenize (w @ c # r) = w # tokenize (c # r)"
  by (simp add: tokenize.simps [of "w @ c # r"] extract_word_stop)

lemma tokenize_word: "is_word w \<Longrightarrow> tokenize w = [w]"
  by (simp add: tokenize.simps [of w] extract_word_end)

lemma tokenize_skip: "isspace c \<Longrightarrow> tokenize (c # s) = tokenize s"
  by (simp add: tokenize.simps [of "c # s"] tokenize.simps [of s] extract_word_skip)

lemma tokenize_words: "w \<in> set (tokenize line) \<Longrightarrow> is_word w"
proof (induction line rule: tokenize.induct)
  case (1 line)
  show ?case
  proof (cases "extract_word line")
    case None
    with "1.prems" show ?thesis by (simp add: tokenize.simps [of line])
  next
    case (Some p)
    obtain t r where p: "p = (t, r)" by (cases p)
    with Some "1.prems" have "w = t \<or> w \<in> set (tokenize r)"
      by (simp add: tokenize.simps [of line])
    then show ?thesis
      using "1.IH" [OF Some p [symmetric]] extract_word_is_word Some p by auto
  qed
qed

lemma tokenize_unwords: "\<forall>w \<in> set ws. is_word w \<Longrightarrow> tokenize (unwords ws) = ws"
  by (induction ws rule: unwords.induct) (auto simp: tokenize_word tokenize_stop tokenize_skip)

lemma extract_word_split:
  "extract_word s = Some (w, r) \<Longrightarrow> \<exists>p. s = p @ w @ r"
proof -
  assume "extract_word s = Some (w, r)"
  then have "dropWhile isspace s = w @ r"
    by (auto simp: extract_word_def Let_def split: if_splits)
  then have "s = takeWhile isspace s @ w @ r"
    by (metis takeWhile_dropWhile_id)
  then show ?thesis ..
qed

lemma extract_word_rest: "extract_word s = Some (w, r) \<Longrightarrow> r = [] \<or> isspace (hd r)"
proof -
  assume "extract_word s = Some (w, r)"
  then have r: "r = dropWhile (\<lambda>c. \<not> isspace c) (dropWhile isspace s)"
    by (auto simp: extract_word_def Let_def split: if_splits)
  show ?thesis
  proof (cases "r = []")
    case False
    with hd_dropWhile [of "\<lambda>c. \<not> isspace c" "dropWhile isspace s"] show ?thesis
      unfolding r by blast
  qed simp
qed

lemma unwords_Cons_length: "length (unwords (w # ws)) \<le> length w + 1 + length (unwords ws)"
  by (cases ws) simp_all

lemma tokenize_length: "length (unwords (tokenize line)) \<le> length line"
proof (induction line rule: length_induct)
  case (1 line)
  show ?case
  proof (cases "extract_word line")
    case None
    then show ?thesis by (simp add: tokenize.simps [of line])
  next
    case (Some p)
    then obtain t r where h: "extract_word line = Some (t, r)" by (cases p) auto
    have tok: "tokenize line = t # tokenize r" by (simp add: tokenize.simps [of line] h)
    from extract_word_split [OF h] have len: "length t + length r \<le> length line" by auto
    show ?thesis
    proof (cases r)
      case Nil
      then show ?thesis using tok len by simp
    next
      case (Cons c r')
      with extract_word_rest [OF h] have "tokenize r = tokenize r'" by (simp add: tokenize_skip)
      moreover have "length (unwords (tokenize r')) \<le> length r'"
        using "1" extract_word_shrinks [OF h] Cons by simp
      ultimately show ?thesis
        using tok len Cons unwords_Cons_length [of t "tokenize r'"] by simp
    qed
  qed
qed

lemma tokenize_empty_iff: "tokenize line = [] \<longleftrightarrow> (\<forall>c \<in> set line. isspace c)"
  by (subst tokenize.simps)
    (auto simp: extract_word_def Let_def dropWhile_eq_Nil_conv split: option.splits)

text \<open>White space at the end of a line is skipped.\<close>

lemma extract_word_snoc:
  assumes "isspace c"
  shows "extract_word (s @ [c]) = (case extract_word s of None \<Rightarrow> None | Some (w, r) \<Rightarrow> Some (w, r @ [c]))"
proof (cases "dropWhile isspace s")
  case Nil
  then have "dropWhile isspace (s @ [c]) = []" using assms by simp
  with Nil show ?thesis by (simp add: extract_word_def)
next
  case (Cons a t)
  then have "dropWhile isspace (s @ [c]) = (a # t) @ [c]"
    by (metis dropWhile_append dropWhile_eq_Nil_conv list.distinct(1))
  moreover have "takeWhile (\<lambda>c. \<not> isspace c) ((a # t) @ [c]) = takeWhile (\<lambda>c. \<not> isspace c) (a # t)"
    using assms by (simp add: takeWhile_tail)
  moreover have "dropWhile (\<lambda>c. \<not> isspace c) ((a # t) @ [c]) = dropWhile (\<lambda>c. \<not> isspace c) (a # t) @ [c]"
    using assms by (subst dropWhile_append3) simp_all
  ultimately show ?thesis using Cons by (simp add: extract_word_def Let_def del: append.simps)
qed

lemma tokenize_snoc: "isspace c \<Longrightarrow> tokenize (line @ [c]) = tokenize line"
proof (induction line rule: tokenize.induct)
  case (1 line)
  show ?case
  proof (cases "extract_word line")
    case None
    with 1 show ?thesis by (simp add: tokenize.simps [of line] tokenize.simps [of "line @ [c]"] extract_word_snoc)
  next
    case (Some wr)
    obtain w r where wr: "wr = (w, r)" by (cases wr)
    from Some 1 show ?thesis
      by (simp add: tokenize.simps [of line] tokenize.simps [of "line @ [c]"] extract_word_snoc wr)
  qed
qed

section \<open>Parsing\<close>

lemma parse_eq_Inr:
  "parse line = Inr cmd \<longleftrightarrow>
    length line \<le> kMaxLineLength \<and> tokenize line = cmd_name cmd # cmd_args cmd \<and>
    cmd_type cmd = commandTypeFromName (cmd_name cmd)"
  by (cases cmd) (auto simp: parse_def split: list.splits)

lemma parse_InrD:
  assumes "parse line = Inr cmd"
  shows "length line \<le> kMaxLineLength" and "tokenize line = cmd_name cmd # cmd_args cmd"
    and "cmd_type cmd = commandTypeFromName (cmd_name cmd)"
  using assms by (simp_all add: parse_eq_Inr)

lemma parse_args_words: "parse line = Inr cmd \<Longrightarrow> w \<in> set (cmd_args cmd) \<Longrightarrow> is_word w"
  using tokenize_words [of w line] by (simp add: parse_eq_Inr)

lemma parse_args_length:
  "parse line = Inr cmd \<Longrightarrow> length (unwords (cmd_name cmd # cmd_args cmd)) \<le> kMaxLineLength"
  using tokenize_length [of line] by (simp add: parse_eq_Inr)

lemma parse_unwords:
  "\<forall>w \<in> set (n # args). is_word w \<Longrightarrow> length (unwords (n # args)) \<le> kMaxLineLength \<Longrightarrow>
    parse (unwords (n # args)) = Inr \<lparr>cmd_type = commandTypeFromName n, cmd_name = n, cmd_args = args\<rparr>"
  using tokenize_unwords [of "n # args"] by (simp add: parse_eq_Inr del: unwords.simps)

text \<open>The name of a command determines its type up to upper and lower case.\<close>

lemma commandType_names [text_simps]:
  "commandTypeFromName ''SET'' = SET" "commandTypeFromName ''GET'' = GET"
  "commandTypeFromName ''DEL'' = DEL" "commandTypeFromName ''PING'' = PING"
  "commandTypeFromName ''INCR'' = INCR" "commandTypeFromName ''DECR'' = DECR"
  "commandTypeFromName ''SAVE'' = SAVE" "commandTypeFromName ''SYNC'' = SYNC"
  "commandTypeFromName ''TTL'' = TTL" "commandTypeFromName ''EXPIRE'' = EXPIRE"
  by code_simp+

lemma commandType_length:
  "commandTypeFromName n = SET \<Longrightarrow> length n = 3"
  "commandTypeFromName n = INCR \<Longrightarrow> length n = 4"
  "commandTypeFromName n = DECR \<Longrightarrow> length n = 4"
  by (auto simp: commandTypeFromName_def toUpper_def Let_def split: if_splits
      dest!: arg_cong [where f = length])

text \<open>The first byte of a reply separates errors from everything else.\<close>

lemma reply_first_byte [simp]:
  "Reply_ok \<noteq> [] \<and> hd Reply_ok = CHR ''+''"
  "Reply_bulk v \<noteq> [] \<and> hd (Reply_bulk v) = CHR ''+''"
  "Reply_nil \<noteq> [] \<and> hd Reply_nil = CHR ''$''"
  "Reply_error m \<noteq> [] \<and> hd (Reply_error m) = CHR ''-''"
  "Reply_readOnlyError \<noteq> [] \<and> hd Reply_readOnlyError = CHR ''-''"
  "Reply_integer i \<noteq> [] \<and> hd (Reply_integer i) = CHR '':''"
  by (simp_all add: reply_defs)

section \<open>Properties\<close>

text \<open>
  C38: printing a command as its words separated by single spaces and parsing the result gives
  the command back, for every non-empty sequence of words whose line is within the limit.
\<close>

theorem parse_print_roundtrip:
  assumes "\<forall>w \<in> set (n # args). is_word w"
    and "length (unwords (n # args)) \<le> kMaxLineLength"
  shows "parse (unwords (n # args)) =
    Inr \<lparr>cmd_type = commandTypeFromName n, cmd_name = n, cmd_args = args\<rparr>"
  using assms by (rule parse_unwords)

theorem parse_print_roundtrip_witness:
  "parse ''set k v'' = Inr \<lparr>cmd_type = SET, cmd_name = ''set'', cmd_args = [''k'', ''v'']\<rparr>"
proof -
  have w: "\<forall>w \<in> set (''set'' # [''k'', ''v'']). is_word w"
    by (simp add: is_word_def isspace_def char_code_def)
  have l: "length (unwords (''set'' # [''k'', ''v''])) \<le> kMaxLineLength"
    by (simp add: kMaxLineLength_def)
  have "commandTypeFromName ''set'' = SET" by code_simp
  then show ?thesis using parse_print_roundtrip [OF w l] by simp
qed

text \<open>
  A request line is rejected exactly when it is longer than the limit or holds nothing but
  white space; every other line parses to a command whose words are the words of the line.
\<close>

theorem parse_total:
  "parse line =
    (if length line > kMaxLineLength then Inl (ProtocolError ''line too long (max 8192 bytes)'')
     else if \<forall>c \<in> set line. isspace c then Inl (ProtocolError ''empty command'')
     else Inr \<lparr>cmd_type = commandTypeFromName (hd (tokenize line)),
       cmd_name = hd (tokenize line), cmd_args = tl (tokenize line)\<rparr>)"
proof -
  have "to_string (int kMaxLineLength) = ''8192''"
    by (simp add: kMaxLineLength_def to_string_def digits.simps text_simps)
  then show ?thesis
    by (auto simp: parse_def tokenize_empty_iff [symmetric] split: list.splits)
qed

text \<open>The command word is matched without regard to the case of its letters.\<close>

theorem command_names_case_insensitive:
  assumes "map tolower a = map tolower b"
  shows "commandTypeFromName a = commandTypeFromName b"
proof -
  from assms have "toUpper a = toUpper b"
    unfolding toUpper_def
    by (induction a b rule: list_induct2') (auto simp: tolower_eq_iff_toupper_eq)
  then show ?thesis by (simp add: commandTypeFromName_def)
qed

theorem command_names_case_insensitive_witness:
  "commandTypeFromName ''gEt'' = commandTypeFromName ''GET''"
proof -
  have "map tolower ''gEt'' = map tolower ''GET''"
    by code_simp
  then show ?thesis by (rule command_names_case_insensitive)
qed

end
