(* ===== verification/Kv_Interface.thy ===== *)
theory Kv_Interface
  imports Prelude
begin

text \<open>
  The interfaces through which the rest of the server uses a key-value store. A \<open>cache\<close> may
  drop entries on its own but never invents or alters one; a \<open>kv_map\<close> is a cache that keeps
  everything it is given. The client facts proved here once are about whole sequences of
  operations: that a cache never answers with anything but what was last written, and what a
  batch of writes leaves behind in a map, which recovery rests on.
\<close>

datatype map_op = Put key val | Remove key | Access key

fun map_op_spec :: "map_op \<Rightarrow> (key \<rightharpoonup> val) \<Rightarrow> (key \<rightharpoonup> val)" where
  "map_op_spec (Put k v) m = m(k \<mapsto> v)"
| "map_op_spec (Remove k) m = m(k := None)"
| "map_op_spec (Access k) m = m"

locale cache =
  fixes inv :: "'s \<Rightarrow> bool"
    and put :: "key \<Rightarrow> val \<Rightarrow> 's \<Rightarrow> 's"
    and remove :: "key \<Rightarrow> 's \<Rightarrow> 's"
    and acc :: "key \<Rightarrow> 's \<Rightarrow> 's"
    and look :: "'s \<Rightarrow> key \<rightharpoonup> val"
  assumes inv_put: "inv s \<Longrightarrow> inv (put k v s)"
    and inv_remove: "inv s \<Longrightarrow> inv (remove k s)"
    and inv_acc: "inv s \<Longrightarrow> inv (acc k s)"
    and look_put_same: "inv s \<Longrightarrow> look (put k v s) k = Some v"
    and look_put_other: "inv s \<Longrightarrow> k' \<noteq> k \<Longrightarrow> look (put k v s) k' \<in> {look s k', None}"
    and look_remove: "inv s \<Longrightarrow> look (remove k s) = (look s)(k := None)"
    and look_acc: "inv s \<Longrightarrow> look (acc k s) = look s"
begin

fun run_op :: "map_op \<Rightarrow> 's \<Rightarrow> 's" where
  "run_op (Put k v) s = put k v s"
| "run_op (Remove k) s = remove k s"
| "run_op (Access k) s = acc k s"

lemma inv_run_op: "inv s \<Longrightarrow> inv (run_op op s)"
  by (cases op) (auto intro: inv_put inv_remove inv_acc)

lemma inv_run_ops: "inv s \<Longrightarrow> inv (fold run_op ops s)"
  by (induction ops arbitrary: s) (auto intro: inv_run_op)

lemma run_op_no_invention:
  assumes "inv s" and "look (run_op op s) k = Some v"
  shows "map_op_spec op (look s) k = Some v"
proof (cases op)
  case (Put k' v')
  show ?thesis
  proof (cases "k = k'")
    case True
    with assms Put show ?thesis by (simp add: look_put_same)
  next
    case False
    with assms Put look_put_other [OF assms(1) False, of v'] show ?thesis by auto
  qed
qed (use assms in \<open>auto simp: look_remove look_acc split: if_splits\<close>)

lemma map_op_spec_mono: "m \<subseteq>\<^sub>m m' \<Longrightarrow> map_op_spec op m \<subseteq>\<^sub>m map_op_spec op m'"
  by (cases op) (auto simp: map_le_def)

lemma run_ops_no_invention:
  assumes "inv s" and "look s \<subseteq>\<^sub>m m"
  shows "look (fold run_op ops s) \<subseteq>\<^sub>m fold map_op_spec ops m"
  using assms
proof (induction ops arbitrary: s m)
  case (Cons op ops)
  have "look (run_op op s) \<subseteq>\<^sub>m map_op_spec op (look s)"
  proof (unfold map_le_def, intro ballI)
    fix k
    assume "k \<in> dom (look (run_op op s))"
    then obtain v where "look (run_op op s) k = Some v" by auto
    with run_op_no_invention [OF Cons.prems(1) this]
    show "look (run_op op s) k = map_op_spec op (look s) k" by simp
  qed
  then have "look (run_op op s) \<subseteq>\<^sub>m map_op_spec op m"
    using map_op_spec_mono [OF Cons.prems(2)] by (rule map_le_trans)
  with Cons.IH [OF inv_run_op [OF Cons.prems(1)]] show ?case by simp
qed simp

end

locale kv_map = cache +
  assumes look_put: "inv s \<Longrightarrow> look (put k v s) = (look s)(k \<mapsto> v)"
begin

lemma look_run_op: "inv s \<Longrightarrow> look (run_op op s) = map_op_spec op (look s)"
  by (cases op) (auto simp: look_put look_remove look_acc)

lemma look_run_ops: "inv s \<Longrightarrow> look (fold run_op ops s) = fold map_op_spec ops (look s)"
  by (induction ops arbitrary: s) (auto simp: look_run_op inv_run_op)

lemma look_puts:
  assumes "inv s"
  shows "look (fold (\<lambda>(k, v). put k v) kvs s) = look s ++ map_of (rev kvs) \<and>
    inv (fold (\<lambda>(k, v). put k v) kvs s)"
  using assms
proof (induction kvs arbitrary: s)
  case (Cons kv kvs)
  obtain k v where kv: "kv = (k, v)" by (cases kv)
  have "look (put k v s) ++ map_of (rev kvs) = look s ++ ([k \<mapsto> v] ++ map_of (rev kvs))"
    by (simp add: look_put [OF Cons.prems])
  with Cons.IH [OF inv_put [OF Cons.prems]] show ?case by (simp add: kv map_of_append)
qed simp

end

end
