(* ===== verification/Kv_Store.thy ===== *)
theory Kv_Store
  imports Cpp_Text Kv_Interface
begin

text \<open>
  The storage engine, \<^verbatim>\<open>src/storage/kv_store.cpp\<close>: a doubly linked list of entries in
  recency order (front is the most recently used one) and a hash index from keys to list
  nodes. A node of the list is its identity (what an iterator points to) with its key and
  value, so that the agreement of list and index, which the code relies on at every
  dereference, is a statement of the model. Every public operation takes the store's lock
  for its whole body, so each is one state transformer.

  The lemmas give the representation invariant and its preservation, refine every operation
  to a recency-ordered association list (\<open>lru_put\<close> and its companions), and export the store
  to its clients through two locales: a bounded cache, and an exact finite map for a store
  without a capacity.
\<close>

section \<open>The list of nodes\<close>

type_synonym node = "nat \<times> key \<times> val"

text \<open>\<^verbatim>\<open>lru_.splice(lru_.begin(), lru_, it)\<close>, \<^verbatim>\<open>lru_.erase(it)\<close>, assignment through an
  iterator and reading through one; \<^const>\<open>None\<close> is a dangling iterator.\<close>

definition splice_front :: "nat \<Rightarrow> node list \<Rightarrow> node list" where
  "splice_front it l = filter (\<lambda>x. fst x = it) l @ filter (\<lambda>x. fst x \<noteq> it) l"

definition list_erase :: "nat \<Rightarrow> node list \<Rightarrow> node list" where
  "list_erase it l = filter (\<lambda>x. fst x \<noteq> it) l"

definition assign_value :: "nat \<Rightarrow> val \<Rightarrow> node list \<Rightarrow> node list" where
  "assign_value it v l = map (\<lambda>(i, k, w). if i = it then (i, k, v) else (i, k, w)) l"

definition node_value :: "nat \<Rightarrow> node list \<Rightarrow> val option" where
  "node_value it l = map_option snd (map_of l it)"

section \<open>State and operations\<close>

record KVStore =
  kv_capacity :: nat
  kv_lru :: "node list"
  kv_index :: "(key, nat) mapping"
  next_node :: nat

definition new_KVStore :: "nat \<Rightarrow> KVStore" where
  "new_KVStore capacity = \<lparr>kv_capacity = capacity, kv_lru = [], kv_index = Mapping.empty, next_node = 0\<rparr>"

text \<open>The eviction loop at the end of \<^verbatim>\<open>setLocked\<close>.\<close>

function evict :: "nat \<Rightarrow> node list \<Rightarrow> (key, nat) mapping \<Rightarrow> node list \<times> (key, nat) mapping" where
  "evict cap l idx =
     (if length l > cap then evict cap (butlast l) (Mapping.delete (fst (snd (last l))) idx)
      else (l, idx))"
  by pat_completeness auto
termination
  by (relation "measure (\<lambda>(cap, l, idx). length l)") auto

declare evict.simps [simp del]

definition setLocked :: "KVStore \<Rightarrow> key \<Rightarrow> val \<Rightarrow> KVStore" where
  "setLocked s k v =
     (case Mapping.lookup (kv_index s) k of
        Some it \<Rightarrow> s\<lparr>kv_lru := splice_front it (assign_value it v (kv_lru s))\<rparr>
      | None \<Rightarrow>
          let it = next_node s;
              s' = s\<lparr>kv_lru := (it, k, v) # kv_lru s, kv_index := Mapping.update k it (kv_index s),
                     next_node := Suc it\<rparr>
          in if kv_capacity s \<noteq> 0
             then let (l, idx) = evict (kv_capacity s) (kv_lru s') (kv_index s') in s'\<lparr>kv_lru := l, kv_index := idx\<rparr>
             else s')"

definition kv_set :: "KVStore \<Rightarrow> key \<Rightarrow> val \<Rightarrow> KVStore" where
  "kv_set s k v = setLocked s k v"

definition kv_get :: "KVStore \<Rightarrow> key \<Rightarrow> KVStore \<times> val option" where
  "kv_get s k =
     (case Mapping.lookup (kv_index s) k of
        None \<Rightarrow> (s, None)
      | Some it \<Rightarrow> let s' = s\<lparr>kv_lru := splice_front it (kv_lru s)\<rparr> in (s', node_value it (kv_lru s')))"

definition kv_del :: "KVStore \<Rightarrow> key \<Rightarrow> KVStore \<times> bool" where
  "kv_del s k =
     (case Mapping.lookup (kv_index s) k of
        None \<Rightarrow> (s, False)
      | Some it \<Rightarrow> (s\<lparr>kv_lru := list_erase it (kv_lru s), kv_index := Mapping.delete k (kv_index s)\<rparr>, True))"

definition forEach :: "(key \<Rightarrow> val \<Rightarrow> 'a \<Rightarrow> 'a) \<Rightarrow> KVStore \<Rightarrow> 'a \<Rightarrow> 'a" where
  "forEach fn s = fold (\<lambda>(it, k, v). fn k v) (kv_lru s)"

definition kv_exists :: "KVStore \<Rightarrow> key \<Rightarrow> bool" where
  "kv_exists s k \<longleftrightarrow> Mapping.lookup (kv_index s) k \<noteq> None"

definition kv_size :: "KVStore \<Rightarrow> nat" where
  "kv_size s = Mapping.size (kv_index s)"

text \<open>
  \<^verbatim>\<open>incrementBy\<close>: any failure of \<^verbatim>\<open>std::stoll\<close> becomes the one \<^verbatim>\<open>std::invalid_argument\<close>
  with its message (left); the sum is a \<^verbatim>\<open>long long\<close>.
\<close>

definition incrementBy :: "KVStore \<Rightarrow> key \<Rightarrow> int \<Rightarrow> string + (KVStore \<times> int)" where
  "incrementBy s k delta =
     (let parsed = (case Mapping.lookup (kv_index s) k of
                      None \<Rightarrow> Inr 0
                    | Some it \<Rightarrow> (case node_value it (kv_lru s) of
                        None \<Rightarrow> Inr 0
                      | Some w \<Rightarrow> stoll w))
      in case parsed of
           Inl e \<Rightarrow> Inl ''value is not an integer''
         | Inr current \<Rightarrow>
             let updated = wrap64 (current + delta)
             in Inr (setLocked s k (to_string updated), updated))"

section \<open>Abstraction and invariant\<close>

definition entries :: "KVStore \<Rightarrow> (key \<times> val) list" where
  "entries s = map snd (kv_lru s)"

definition contents :: "KVStore \<Rightarrow> key \<rightharpoonup> val" where
  "contents s = map_of (entries s)"

definition list_index_agree :: "node list \<Rightarrow> (key, nat) mapping \<Rightarrow> bool" where
  "list_index_agree l idx \<longleftrightarrow>
     distinct (map fst l) \<and> distinct (map (fst \<circ> snd) l) \<and>
     Mapping.keys idx = set (map (fst \<circ> snd) l) \<and>
     (\<forall>(it, k, v) \<in> set l. Mapping.lookup idx k = Some it)"

definition store_inv :: "KVStore \<Rightarrow> bool" where
  "store_inv s \<longleftrightarrow> list_index_agree (kv_lru s) (kv_index s) \<and>
     (\<forall>it \<in> set (map fst (kv_lru s)). it < next_node s) \<and>
     (kv_capacity s \<noteq> 0 \<longrightarrow> length (kv_lru s) \<le> kv_capacity s)"

text \<open>The specification: a list of entries, most recently used first.\<close>

definition lru_put :: "nat \<Rightarrow> key \<Rightarrow> val \<Rightarrow> (key \<times> val) list \<Rightarrow> (key \<times> val) list" where
  "lru_put cap k v es =
     (let es' = (k, v) # filter (\<lambda>e. fst e \<noteq> k) es in if cap = 0 then es' else take cap es')"

definition lru_touch :: "key \<Rightarrow> (key \<times> val) list \<Rightarrow> (key \<times> val) list" where
  "lru_touch k es = filter (\<lambda>e. fst e = k) es @ filter (\<lambda>e. fst e \<noteq> k) es"

definition lru_remove :: "key \<Rightarrow> (key \<times> val) list \<Rightarrow> (key \<times> val) list" where
  "lru_remove k es = filter (\<lambda>e. fst e \<noteq> k) es"

section \<open>Reading the agreement of list and index\<close>

lemma agreeD:
  assumes "list_index_agree l idx"
  shows "distinct (map fst l)" and "distinct (map (fst \<circ> snd) l)"
    and "Mapping.keys idx = set (map (fst \<circ> snd) l)"
    and "(it, k, v) \<in> set l \<Longrightarrow> Mapping.lookup idx k = Some it"
  using assms by (auto simp: list_index_agree_def)

lemma agree_lookup_Some:
  assumes "list_index_agree l idx"
  shows "Mapping.lookup idx k = Some it \<longleftrightarrow> (\<exists>v. (it, k, v) \<in> set l)"
proof
  assume h: "Mapping.lookup idx k = Some it"
  then have "k \<in> Mapping.keys idx" by (simp add: keys_lookup)
  with agreeD(3) [OF assms] obtain it' v where m: "(it', k, v) \<in> set l" by auto
  with agreeD(4) [OF assms] h have "it' = it" by force
  with m show "\<exists>v. (it, k, v) \<in> set l" by blast
qed (use agreeD(4) [OF assms] in blast)

lemma agree_lookup_None:
  assumes "list_index_agree l idx"
  shows "Mapping.lookup idx k = None \<longleftrightarrow> k \<notin> set (map (fst \<circ> snd) l)"
  using agreeD(3) [OF assms] keys_lookup [of k idx] by auto

lemma agree_same_node:
  assumes "list_index_agree l idx" and "(it, k, v) \<in> set l" and "x \<in> set l"
  shows "fst x = it \<longleftrightarrow> fst (snd x) = k"
proof -
  obtain i k' v' where x: "x = (i, k', v')" by (cases x)
  with assms(3) agreeD(4) [OF assms(1)] have "Mapping.lookup idx k' = Some i" by blast
  moreover from assms(2) agreeD(4) [OF assms(1)] have "Mapping.lookup idx k = Some it" by blast
  moreover from agreeD(1) [OF assms(1)] assms(2,3) have "i = it \<Longrightarrow> x = (it, k, v)"
    unfolding x by (metis eq_key_imp_eq_value)
  ultimately show ?thesis using x by auto
qed

lemma filter_node_key:
  assumes "list_index_agree l idx" and "(it, k, v) \<in> set l"
  shows "filter (\<lambda>x. fst x = it) l = filter (\<lambda>x. fst (snd x) = k) l"
    and "filter (\<lambda>x. fst x \<noteq> it) l = filter (\<lambda>x. fst (snd x) \<noteq> k) l"
  by (rule filter_cong [OF refl]; simp add: agree_same_node [OF assms])+

lemma map_of_entries_node:
  assumes "list_index_agree l idx" and "(it, k, v) \<in> set l"
  shows "map_of (map snd l) k = Some v"
proof -
  have "distinct (map fst (map snd l))"
    using agreeD(2) [OF assms(1)] by (simp add: comp_def)
  moreover have "(k, v) \<in> set (map snd l)" using assms(2) by force
  ultimately show ?thesis by simp
qed

lemma node_value_Some:
  assumes "list_index_agree l idx" and "(it, k, v) \<in> set l"
  shows "node_value it l = Some v"
  using assms agreeD(1) [OF assms(1)] by (simp add: node_value_def)

section \<open>The list operations keep the agreement\<close>

lemma agree_assign:
  assumes "list_index_agree l idx"
  shows "list_index_agree (assign_value it v l) idx"
proof -
  have f: "map fst (assign_value it v l) = map fst l"
    and g: "map (fst \<circ> snd) (assign_value it v l) = map (fst \<circ> snd) l"
    by (auto simp: assign_value_def)
  have "\<forall>(i, k, w) \<in> set (assign_value it v l). Mapping.lookup idx k = Some i"
    using agreeD(4) [OF assms] by (auto simp: assign_value_def split: if_splits)
  then show ?thesis using assms unfolding list_index_agree_def f g by simp
qed

lemma agree_splice:
  assumes "list_index_agree l idx"
  shows "list_index_agree (splice_front it l) idx"
  using assms
  by (auto simp: list_index_agree_def splice_front_def distinct_map_filter inj_on_def
      distinct_map)

lemma agree_erase:
  assumes "list_index_agree l idx" and "(it, k, v) \<in> set l"
  shows "list_index_agree (list_erase it l) (Mapping.delete k idx)"
proof -
  have eq: "list_erase it l = filter (\<lambda>x. fst (snd x) \<noteq> k) l"
    unfolding list_erase_def by (rule filter_node_key(2) [OF assms])
  show ?thesis
    unfolding eq using assms(1)
    by (auto simp: list_index_agree_def distinct_map_filter lookup_delete_if)
qed

lemma agree_push:
  assumes "list_index_agree l idx" and "Mapping.lookup idx k = None" and "it \<notin> set (map fst l)"
  shows "list_index_agree ((it, k, v) # l) (Mapping.update k it idx)"
proof -
  have fresh: "k \<notin> set (map (fst \<circ> snd) l)"
    using agree_lookup_None [OF assms(1)] assms(2) by simp
  have "Mapping.lookup (Mapping.update k it idx) k' = Some i" if "(i, k', w) \<in> set l" for i k' w
    using that fresh agreeD(4) [OF assms(1) that] by (force simp: lookup_update_if)
  then show ?thesis
    using assms(3) fresh agreeD [OF assms(1)] by (auto simp: list_index_agree_def lookup_update_if)
qed

lemma agree_pop_back:
  assumes "list_index_agree l idx" and "l \<noteq> []"
  shows "list_index_agree (butlast l) (Mapping.delete (fst (snd (last l))) idx)"
proof -
  obtain it k v where last: "last l = (it, k, v)" by (cases "last l")
  from assms(2) last have l: "l = butlast l @ [(it, k, v)]" by (metis append_butlast_last_id)
  then have "distinct (map fst (butlast l @ [(it, k, v)]))"
    using agreeD(1) [OF assms(1)] by simp
  then have "list_erase it l = butlast l"
    by (subst l) (auto simp: list_erase_def filter_id_conv)
  moreover have "(it, k, v) \<in> set l" using assms(2) last by (metis last_in_set)
  ultimately show ?thesis using agree_erase [OF assms(1)] last by force
qed

lemma evict_result:
  assumes "list_index_agree l idx"
  shows "fst (evict cap l idx) = take cap l \<and> list_index_agree (fst (evict cap l idx)) (snd (evict cap l idx))"
  using assms
proof (induction cap l idx rule: evict.induct)
  case (1 cap l idx)
  show ?case
  proof (cases "length l > cap")
    case True
    then have ne: "l \<noteq> []" by auto
    from True "1.IH" [OF True agree_pop_back [OF "1.prems" ne]] show ?thesis
      by (auto simp: evict.simps [of cap l idx] take_butlast)
  next
    case False
    with "1.prems" show ?thesis by (simp add: evict.simps [of cap l idx])
  qed
qed


section \<open>The list operations on entries\<close>

lemma entries_splice:
  assumes "list_index_agree l idx" and "(it, k, v) \<in> set l"
  shows "map snd (splice_front it l) = lru_touch k (map snd l)"
  using filter_node_key [OF assms] by (simp add: splice_front_def lru_touch_def filter_map comp_def)

lemma entries_erase:
  assumes "list_index_agree l idx" and "(it, k, v) \<in> set l"
  shows "map snd (list_erase it l) = lru_remove k (map snd l)"
  using filter_node_key [OF assms] by (simp add: list_erase_def lru_remove_def filter_map comp_def)

lemma entries_assign_splice:
  assumes a: "list_index_agree l idx" and m: "(it, k, v) \<in> set l"
  shows "map snd (splice_front it (assign_value it w l)) = (k, w) # filter (\<lambda>e. fst e \<noteq> k) (map snd l)"
proof -
  have a': "list_index_agree (assign_value it w l) idx" by (rule agree_assign [OF a])
  have m': "(it, k, w) \<in> set (assign_value it w l)"
    using m by (force simp: assign_value_def)
  have "filter (\<lambda>x. fst x = it) (assign_value it w l) = [(it, k, w)]"
    using filter_fst_singleton [OF agreeD(1) [OF a']] m' agreeD(1) [OF a'] by simp
  moreover have "filter (\<lambda>x. fst x \<noteq> it) (assign_value it w l) = filter (\<lambda>x. fst x \<noteq> it) l"
    by (induction l) (auto simp: assign_value_def split: if_splits)
  moreover note filter_node_key(2) [OF a m]
  ultimately show ?thesis
    by (simp add: splice_front_def filter_map comp_def)
qed

section \<open>The invariant is preserved\<close>

lemma store_invD:
  assumes "store_inv s"
  shows "list_index_agree (kv_lru s) (kv_index s)"
    and "it \<in> set (map fst (kv_lru s)) \<Longrightarrow> it < next_node s"
    and "kv_capacity s \<noteq> 0 \<Longrightarrow> length (kv_lru s) \<le> kv_capacity s"
  using assms by (auto simp: store_inv_def)

lemma store_inv_new [simp, intro]: "store_inv (new_KVStore cap)"
  by (simp add: store_inv_def new_KVStore_def list_index_agree_def)

text \<open>The two branches of \<open>setLocked\<close>, with the list and the index they produce.\<close>

lemma setLocked_present:
  assumes "Mapping.lookup (kv_index s) k = Some it"
  shows "setLocked s k v = s\<lparr>kv_lru := splice_front it (assign_value it v (kv_lru s))\<rparr>"
  using assms by (simp add: setLocked_def)

lemma setLocked_absent:
  assumes "store_inv s" and "Mapping.lookup (kv_index s) k = None"
  shows "\<exists>idx. setLocked s k v =
      s\<lparr>kv_lru := (if kv_capacity s = 0 then (next_node s, k, v) # kv_lru s
                   else take (kv_capacity s) ((next_node s, k, v) # kv_lru s)),
        kv_index := idx, next_node := Suc (next_node s)\<rparr> \<and>
    list_index_agree (kv_lru (setLocked s k v)) idx"
proof -
  let ?l = "(next_node s, k, v) # kv_lru s" and ?i = "Mapping.update k (next_node s) (kv_index s)"
  have a: "list_index_agree ?l ?i"
    using agree_push [OF store_invD(1) [OF assms(1)] assms(2)] store_invD(2) [OF assms(1)] by blast
  show ?thesis
  proof (cases "kv_capacity s = 0")
    case True
    with a assms(2) show ?thesis
      by (intro exI [of _ ?i]) (simp add: setLocked_def Let_def)
  next
    case False
    obtain l' i' where e: "evict (kv_capacity s) ?l ?i = (l', i')" by fastforce
    with evict_result [OF a, of "kv_capacity s"] have "l' = take (kv_capacity s) ?l" "list_index_agree l' i'"
      by auto
    with False assms(2) e show ?thesis
      by (intro exI [of _ i']) (simp add: setLocked_def Let_def)
  qed
qed

lemma splice_front_perm: "set (splice_front it l) = set l" "length (splice_front it l) = length l"
  by (auto simp: splice_front_def sum_length_filter_compl)

lemma map_fst_assign: "map fst (assign_value it v l) = map fst l"
  by (auto simp: assign_value_def)

lemma map_fst_splice_assign: "set (map fst (splice_front it (assign_value it v l))) = set (map fst l)"
  using arg_cong [OF map_fst_assign, of set it v l] by (simp add: splice_front_perm)

lemma length_splice_assign: "length (splice_front it (assign_value it v l)) = length l"
  by (simp add: splice_front_perm assign_value_def)

lemma store_inv_set [intro]:
  assumes "store_inv s"
  shows "store_inv (setLocked s k v)"
proof (cases "Mapping.lookup (kv_index s) k")
  case None
  from setLocked_absent [OF assms None, of v] obtain idx where
    e: "setLocked s k v = s\<lparr>kv_lru := (if kv_capacity s = 0 then (next_node s, k, v) # kv_lru s
          else take (kv_capacity s) ((next_node s, k, v) # kv_lru s)),
        kv_index := idx, next_node := Suc (next_node s)\<rparr>"
    and a: "list_index_agree (kv_lru (setLocked s k v)) idx" by blast
  have "\<forall>x \<in> set (kv_lru s). fst x < Suc (next_node s)"
    using assms by (auto simp: store_inv_def less_Suc_eq)
  then have "\<forall>x \<in> set (kv_lru (setLocked s k v)). fst x < Suc (next_node s)"
    unfolding e by (auto dest!: in_set_takeD)
  then show ?thesis using a unfolding store_inv_def e by simp
next
  case (Some it)
  have "list_index_agree (splice_front it (assign_value it v (kv_lru s))) (kv_index s)"
    by (intro agree_splice agree_assign store_invD(1) [OF assms])
  then show ?thesis
    using assms unfolding store_inv_def setLocked_present [OF Some]
    by (simp add: map_fst_splice_assign length_splice_assign del: set_map)
qed

lemma store_inv_get [intro]: "store_inv s \<Longrightarrow> store_inv (fst (kv_get s k))"
  by (auto simp: kv_get_def store_inv_def Let_def splice_front_perm agree_splice split: option.splits)

lemma store_inv_del [intro]:
  assumes "store_inv s"
  shows "store_inv (fst (kv_del s k))"
proof (cases "Mapping.lookup (kv_index s) k")
  case None
  then show ?thesis using assms by (simp add: kv_del_def)
next
  case (Some it)
  with agree_lookup_Some [OF store_invD(1) [OF assms]] obtain v where m: "(it, k, v) \<in> set (kv_lru s)"
    by blast
  have "length (list_erase it (kv_lru s)) \<le> length (kv_lru s)"
    and "set (list_erase it (kv_lru s)) \<subseteq> set (kv_lru s)"
    by (auto simp: list_erase_def)
  then show ?thesis
    using assms agree_erase [OF store_invD(1) [OF assms] m]
    by (auto simp: kv_del_def Some store_inv_def)
qed

lemma capacity_unchanged [simp]:
  "kv_capacity (setLocked s k v) = kv_capacity s"
  "kv_capacity (kv_set s k v) = kv_capacity s"
  "kv_capacity (fst (kv_get s k)) = kv_capacity s"
  "kv_capacity (fst (kv_del s k)) = kv_capacity s"
  "kv_capacity (new_KVStore c) = c"
  by (auto simp: kv_set_def setLocked_def kv_get_def kv_del_def new_KVStore_def Let_def
      split: option.splits prod.splits)

lemma incrementBy_Inr:
  "incrementBy s k d = Inr (s', n) \<Longrightarrow> s' = setLocked s k (to_string n) \<and> in_int64 n"
  by (auto simp: incrementBy_def Let_def wrap64_range split: sum.splits)

section \<open>Refinement to the recency list\<close>

lemma entries_distinct: "store_inv s \<Longrightarrow> distinct (map fst (entries s))"
  using agreeD(2) [OF store_invD(1)] by (simp add: entries_def comp_def)

lemma lookup_index_iff:
  assumes "store_inv s"
  shows "Mapping.lookup (kv_index s) k = None \<longleftrightarrow> contents s k = None"
  using agree_lookup_None [OF store_invD(1) [OF assms]]
  by (auto simp: contents_def entries_def map_of_eq_None_iff image_image)

lemma indexed_node:
  assumes "store_inv s" and "Mapping.lookup (kv_index s) k = Some it"
  obtains v where "(it, k, v) \<in> set (kv_lru s)" and "contents s k = Some v"
    and "node_value it (kv_lru s) = Some v"
proof -
  note a = store_invD(1) [OF assms(1)]
  from agree_lookup_Some [OF a] assms(2) obtain v where m: "(it, k, v) \<in> set (kv_lru s)" by blast
  then show ?thesis
    using that map_of_entries_node [OF a m] node_value_Some [OF a m]
    by (simp add: contents_def entries_def)
qed

lemma entries_new [store_simps]: "entries (new_KVStore cap) = []"
  by (simp add: entries_def new_KVStore_def)

lemma entries_setLocked [store_simps]:
  assumes "store_inv s"
  shows "entries (setLocked s k v) = lru_put (kv_capacity s) k v (entries s)"
proof (cases "Mapping.lookup (kv_index s) k")
  case None
  with lookup_index_iff [OF assms] have "filter (\<lambda>e. fst e \<noteq> k) (entries s) = entries s"
    by (auto simp: contents_def map_of_eq_None_iff filter_id_conv)
  moreover from setLocked_absent [OF assms None, of v] have
    "entries (setLocked s k v) = (if kv_capacity s = 0 then (k, v) # entries s
       else take (kv_capacity s) ((k, v) # entries s))"
    by (auto simp: entries_def take_map take_Cons' split: if_splits)
  ultimately show ?thesis by (simp add: lru_put_def Let_def)
next
  case (Some it)
  then obtain w where m: "(it, k, w) \<in> set (kv_lru s)" using indexed_node [OF assms] by blast
  have e: "entries (setLocked s k v) = (k, v) # filter (\<lambda>e. fst e \<noteq> k) (entries s)"
    using entries_assign_splice [OF store_invD(1) [OF assms] m]
    by (simp add: entries_def setLocked_present [OF Some])
  have "length (entries (setLocked s k v)) = length (kv_lru s)"
    by (simp add: entries_def setLocked_present [OF Some] length_splice_assign)
  then have "kv_capacity s \<noteq> 0 \<Longrightarrow> length (entries (setLocked s k v)) \<le> kv_capacity s"
    using store_invD(3) [OF assms] by simp
  then show ?thesis unfolding lru_put_def e [symmetric] by (simp add: Let_def)
qed

lemma entries_get [store_simps]:
  assumes "store_inv s"
  shows "entries (fst (kv_get s k)) = lru_touch k (entries s)" and "snd (kv_get s k) = contents s k"
proof -
  show "entries (fst (kv_get s k)) = lru_touch k (entries s)"
  proof (cases "Mapping.lookup (kv_index s) k")
    case None
    then have "k \<notin> fst ` set (entries s)"
      using lookup_index_iff [OF assms, of k] by (simp add: contents_def map_of_eq_None_iff)
    then have "filter (\<lambda>e. fst e = k) (entries s) = []" and "filter (\<lambda>e. fst e \<noteq> k) (entries s) = entries s"
      by (auto simp: filter_empty_conv intro!: filter_True)
    then show ?thesis by (simp add: kv_get_def None lru_touch_def)
  next
    case (Some it)
    then show ?thesis
      using indexed_node [OF assms Some] entries_splice [OF store_invD(1) [OF assms]]
      by (auto simp: kv_get_def entries_def Let_def)
  qed
  show "snd (kv_get s k) = contents s k"
  proof (cases "Mapping.lookup (kv_index s) k")
    case None
    moreover from None have "contents s k = None" by (simp add: lookup_index_iff [OF assms])
    ultimately show ?thesis by (simp add: kv_get_def)
  next
    case (Some it)
    then obtain v where v: "(it, k, v) \<in> set (kv_lru s)" "contents s k = Some v"
      using indexed_node [OF assms] by blast
    from v(1) have "(it, k, v) \<in> set (splice_front it (kv_lru s))" by (simp add: splice_front_perm)
    then have "node_value it (splice_front it (kv_lru s)) = Some v"
      using node_value_Some agree_splice store_invD(1) [OF assms] by blast
    then show ?thesis using Some v(2) by (simp add: kv_get_def Let_def)
  qed
qed

lemma entries_del [store_simps]:
  assumes "store_inv s"
  shows "entries (fst (kv_del s k)) = lru_remove k (entries s)"
    and "snd (kv_del s k) \<longleftrightarrow> contents s k \<noteq> None"
proof -
  show "entries (fst (kv_del s k)) = lru_remove k (entries s)"
  proof (cases "Mapping.lookup (kv_index s) k")
    case None
    then have "k \<notin> fst ` set (entries s)"
      using lookup_index_iff [OF assms, of k] by (simp add: contents_def map_of_eq_None_iff)
    then show ?thesis
      by (auto simp: kv_del_def None lru_remove_def intro!: filter_True [symmetric])
  next
    case (Some it)
    then show ?thesis
      using indexed_node [OF assms Some] entries_erase [OF store_invD(1) [OF assms]]
      by (auto simp: kv_del_def entries_def)
  qed
  show "snd (kv_del s k) \<longleftrightarrow> contents s k \<noteq> None"
    using lookup_index_iff [OF assms, of k] by (auto simp: kv_del_def split: option.splits)
qed

lemma kv_exists_iff [store_simps]: "store_inv s \<Longrightarrow> kv_exists s k \<longleftrightarrow> contents s k \<noteq> None"
  by (simp add: kv_exists_def lookup_index_iff)

lemma kv_size_length [store_simps]:
  assumes "store_inv s"
  shows "kv_size s = length (entries s)"
proof -
  note a = store_invD(1) [OF assms]
  have "Mapping.size (kv_index s) = card (set (map (fst \<circ> snd) (kv_lru s)))"
    by (simp add: Mapping.size_def agreeD(3) [OF a])
  also have "\<dots> = length (kv_lru s)" using distinct_card [OF agreeD(2) [OF a]] by simp
  finally show ?thesis by (simp add: kv_size_def entries_def)
qed

text \<open>What the refined operations do to the map of contents.\<close>

lemma contents_new [store_simps]: "contents (new_KVStore cap) = Map.empty"
  by (simp add: contents_def store_simps)

lemma map_of_lru_touch: "map_of (lru_touch k es) = map_of es"
  by (auto simp: lru_touch_def map_add_def map_of_filter_fst [where P = "\<lambda>x. x = k"]
      map_of_filter_fst [where P = "\<lambda>x. x \<noteq> k"] fun_eq_iff split: option.splits)

lemma contents_get [store_simps]: "store_inv s \<Longrightarrow> contents (fst (kv_get s k)) = contents s"
  by (simp add: contents_def store_simps map_of_lru_touch)

lemma contents_del [store_simps]: "store_inv s \<Longrightarrow> contents (fst (kv_del s k)) = (contents s)(k := None)"
  by (auto simp: contents_def store_simps lru_remove_def map_of_filter_fst [where P = "\<lambda>x. x \<noteq> k"] fun_eq_iff)

lemma contents_set_unbounded [store_simps]:
  "store_inv s \<Longrightarrow> kv_capacity s = 0 \<Longrightarrow> contents (setLocked s k v) = (contents s)(k \<mapsto> v)"
  by (auto simp: contents_def store_simps lru_put_def map_of_filter_fst [where P = "\<lambda>x. x \<noteq> k"] fun_eq_iff)

lemma map_of_take_sub: "map_of (take n xs) k \<in> {map_of xs k, None}" if "distinct (map fst xs)"
proof (cases "map_of (take n xs) k")
  case (Some v)
  then have "(k, v) \<in> set xs" by (auto dest!: map_of_SomeD in_set_takeD)
  with that Some show ?thesis by simp
qed simp

lemma contents_set_same [store_simps]:
  assumes "store_inv s"
  shows "contents (setLocked s k v) k = Some v"
  by (cases "kv_capacity s") (simp_all add: contents_def store_simps assms lru_put_def Let_def)

lemma contents_set_other:
  assumes "store_inv s" and "k' \<noteq> k"
  shows "contents (setLocked s k v) k' \<in> {contents s k', None}"
proof -
  let ?es = "(k, v) # filter (\<lambda>e. fst e \<noteq> k) (entries s)"
  have d: "distinct (map fst ?es)"
    using distinct_fst_filter [OF entries_distinct [OF assms(1)]] by auto
  have "map_of ?es k' = contents s k'"
    using assms(2) by (simp add: contents_def map_of_filter_fst [where P = "\<lambda>x. x \<noteq> k"])
  with map_of_take_sub [OF d, of "kv_capacity s" k'] show ?thesis
    using assms(1) by (auto simp: contents_def store_simps lru_put_def Let_def)
qed

section \<open>Increments\<close>

lemma incrementBy_eq:
  assumes "store_inv s"
  shows "incrementBy s k d =
    (case (case contents s k of None \<Rightarrow> Inr 0 | Some w \<Rightarrow> stoll w) of
       Inl e \<Rightarrow> Inl ''value is not an integer''
     | Inr n \<Rightarrow> Inr (setLocked s k (to_string (wrap64 (n + d))), wrap64 (n + d)))"
proof (cases "Mapping.lookup (kv_index s) k")
  case None
  moreover from None have "contents s k = None" by (simp add: lookup_index_iff [OF assms])
  ultimately show ?thesis by (simp add: incrementBy_def Let_def)
next
  case (Some it)
  then obtain v where "contents s k = Some v" "node_value it (kv_lru s) = Some v"
    using indexed_node [OF assms] by blast
  with Some show ?thesis by (simp add: incrementBy_def Let_def split: sum.splits)
qed

section \<open>The store provides the interfaces\<close>

interpretation store_cache: cache store_inv "\<lambda>k v s. kv_set s k v" "\<lambda>k s. fst (kv_del s k)"
    "\<lambda>k s. fst (kv_get s k)" contents
  by unfold_locales
    (use contents_set_other in \<open>auto simp: kv_set_def contents_set_same contents_del contents_get store_inv_get\<close>)

interpretation store_map: kv_map "\<lambda>s. store_inv s \<and> kv_capacity s = 0"
    "\<lambda>k v s. kv_set s k v" "\<lambda>k s. fst (kv_del s k)"
    "\<lambda>k s. fst (kv_get s k)" contents
  by unfold_locales (auto simp: kv_set_def store_simps)

section \<open>Stores in use\<close>

text \<open>Writes, deletions and reads as the interface names them.\<close>

fun store_op :: "map_op \<Rightarrow> KVStore \<Rightarrow> KVStore" where
  "store_op (Put k v) s = kv_set s k v"
| "store_op (Remove k) s = fst (kv_del s k)"
| "store_op (Access k) s = fst (kv_get s k)"

lemma store_op_run_op: "store_op op s = store_cache.run_op op s" "store_op op s = store_map.run_op op s"
  by (cases op; simp)+

lemma fold_store_op: "fold store_op ops s = fold store_cache.run_op ops s" "fold store_op ops s = fold store_map.run_op ops s"
  by (induction ops arbitrary: s) (simp_all add: store_op_run_op(1) [symmetric] store_op_run_op(2) [symmetric])

text \<open>The operations a client thread can perform, one lock section at a time.\<close>

inductive store_step :: "KVStore \<Rightarrow> KVStore \<Rightarrow> bool" where
  step_set: "store_step s (kv_set s k v)"
| step_get: "store_step s (fst (kv_get s k))"
| step_del: "store_step s (fst (kv_del s k))"
| step_incr: "incrementBy s k d = Inr (s', n) \<Longrightarrow> store_step s s'"

inductive store_reachable :: "nat \<Rightarrow> KVStore \<Rightarrow> bool" for cap where
  fresh: "store_reachable cap (new_KVStore cap)"
| more: "store_reachable cap s \<Longrightarrow> store_step s s' \<Longrightarrow> store_reachable cap s'"

lemma store_step_inv: "store_step s s' \<Longrightarrow> store_inv s \<Longrightarrow> store_inv s' \<and> kv_capacity s' = kv_capacity s"
  by (induction rule: store_step.induct)
    (auto simp: kv_set_def store_inv_set store_inv_get store_inv_del dest!: incrementBy_Inr)

lemma store_reachable_inv: "store_reachable cap s \<Longrightarrow> store_inv s \<and> kv_capacity s = cap"
  by (induction rule: store_reachable.induct) (auto dest: store_step_inv)

section \<open>Properties\<close>



text \<open>
  C14: in every store reachable from an empty one, list and index agree, no index entry is a
  dangling iterator, and the number of entries never exceeds the capacity (unless it is 0,
  which means no limit).
\<close>

theorem reachable_store_consistent:
  assumes "store_reachable cap s"
  shows "list_index_agree (kv_lru s) (kv_index s) \<and>
    (\<forall>k it. Mapping.lookup (kv_index s) k = Some it \<longrightarrow> node_value it (kv_lru s) \<noteq> None) \<and>
    (cap \<noteq> 0 \<longrightarrow> kv_size s \<le> cap)"
proof -
  from store_reachable_inv [OF assms] have i: "store_inv s" and c: "kv_capacity s = cap" by auto
  have "node_value it (kv_lru s) \<noteq> None" if "Mapping.lookup (kv_index s) k = Some it" for k it
    using indexed_node [OF i that] by blast
  then show ?thesis
    using i c by (auto simp: kv_size_length entries_def store_inv_def)
qed

theorem reachable_store_consistent_witness:
  "kv_size (fst (kv_get (kv_set (new_KVStore 2) ''a'' ''1'') ''a'')) \<le> 2"
proof -
  have "store_reachable 2 (fst (kv_get (kv_set (new_KVStore 2) ''a'' ''1'') ''a''))"
    by (rule store_reachable.more [OF store_reachable.more [OF store_reachable.fresh step_set] step_get])
  from reachable_store_consistent [OF this] show ?thesis by simp
qed

text \<open>
  Writing a new key into a full store removes exactly the least recently used entry, the
  last one of the list, and leaves every other entry with its value.
\<close>

theorem full_store_evicts_least_recent:
  assumes "store_inv s" and "kv_capacity s \<noteq> 0" and "length (entries s) = kv_capacity s"
    and "contents s k = None"
  shows "contents (kv_set s k v) = ((contents s)(fst (last (entries s)) := None))(k \<mapsto> v)"
proof -
  let ?es = "entries s"
  have ne: "?es \<noteq> []" using assms(2,3) by auto
  have f: "filter (\<lambda>e. fst e \<noteq> k) ?es = ?es"
    using assms(4) by (auto simp: contents_def map_of_eq_None_iff intro!: filter_True)
  have "entries (kv_set s k v) = (k, v) # butlast ?es"
    using assms(2,3) ne
    by (simp add: kv_set_def entries_setLocked [OF assms(1)] lru_put_def f take_Cons' butlast_conv_take)
  then show ?thesis
    using map_of_butlast [OF entries_distinct [OF assms(1)] ne] by (simp add: contents_def)
qed

theorem full_store_evicts_least_recent_witness:
  "contents (kv_set (kv_set (kv_set (new_KVStore 2) ''a'' ''1'') ''b'' ''2'') ''c'' ''3'') =
    [''b'' \<mapsto> ''2'', ''c'' \<mapsto> ''3'']"
proof -
  let ?s = "kv_set (kv_set (new_KVStore 2) ''a'' ''1'') ''b'' ''2''"
  have i: "store_inv ?s" by (auto simp: kv_set_def)
  have e: "entries ?s = [(''b'', ''2''), (''a'', ''1'')]"
    by (simp add: kv_set_def entries_setLocked store_inv_set entries_new lru_put_def)
  have c: "contents ?s ''c'' = None" by (simp add: contents_def e)
  from full_store_evicts_least_recent [OF i _ _ c, of "''3''"] show ?thesis
    by (simp add: e contents_def fun_upd_twist)
qed

text \<open>
  A bounded store is a cache: after any sequence of writes, deletions and reads, a key has
  the value that was last written to it and not deleted since, or none at all; without a
  capacity nothing is ever dropped.
\<close>

theorem store_never_invents:
  "contents (fold store_op ops (new_KVStore cap)) \<subseteq>\<^sub>m fold map_op_spec ops Map.empty \<and>
    contents (fold store_op ops (new_KVStore 0)) = fold map_op_spec ops Map.empty"
proof -
  have e: "contents (new_KVStore c) = Map.empty" for c by (simp add: contents_def entries_new)
  have "contents (fold store_op ops (new_KVStore cap)) \<subseteq>\<^sub>m fold map_op_spec ops Map.empty"
    unfolding fold_store_op(1) by (rule store_cache.run_ops_no_invention) (simp_all add: store_inv_new e)
  moreover have "contents (fold store_op ops (new_KVStore 0)) = fold map_op_spec ops Map.empty"
    unfolding fold_store_op(2) by (subst store_map.look_run_ops) (simp_all add: store_inv_new e)
  ultimately show ?thesis ..
qed

text \<open>
  Incrementing a key that holds a printed number (or is missing, which counts as 0) stores
  and returns the exact sum, as long as the sum fits a 64-bit signed integer.
\<close>

theorem incrementBy_exact:
  assumes "store_inv s" and "in_int64 n" and "in_int64 (n + d)"
    and "contents s k = Some (to_string n) \<or> (contents s k = None \<and> n = 0)"
  shows "\<exists>s'. incrementBy s k d = Inr (s', n + d) \<and> store_inv s' \<and>
    contents s' k = Some (to_string (n + d)) \<and> (\<forall>k'. k' \<noteq> k \<longrightarrow> contents s' k' \<in> {contents s k', None})"
proof -
  have "(case contents s k of None \<Rightarrow> Inr 0 | Some w \<Rightarrow> stoll w) = Inr n"
    using assms(2,4) by (auto simp: stoll_to_string)
  then have "incrementBy s k d = Inr (setLocked s k (to_string (n + d)), n + d)"
    using assms(3) by (simp add: incrementBy_eq [OF assms(1)] wrap64_exact)
  then show ?thesis
    using assms(1) contents_set_other [OF assms(1)] contents_set_same [OF assms(1)] by blast
qed

theorem incrementBy_exact_witness:
  "\<exists>s'. incrementBy (new_KVStore 0) ''hits'' 1 = Inr (s', 1) \<and> contents s' ''hits'' = Some ''1''"
proof -
  have "to_string 1 = ''1''" by code_simp
  then show ?thesis
    using incrementBy_exact [of "new_KVStore 0" 0 1 "''hits''"] by (auto simp: contents_new)
qed

text \<open>
  The conversion behind an increment reads the longest numeric prefix and ignores what
  follows, so a value that is not a number as a whole, such as \<^verbatim>\<open>12abc\<close>, is accepted and
  overwritten by 13.
\<close>

theorem incrementBy_accepts_numeric_prefix:
  "\<exists>s'. incrementBy (kv_set (new_KVStore 0) ''k'' ''12abc'') ''k'' 1 = Inr (s', 13) \<and>
    contents s' ''k'' = Some ''13''"
proof -
  let ?s = "kv_set (new_KVStore 0) ''k'' ''12abc''"
  have i: "store_inv ?s" by (auto simp: kv_set_def)
  have c: "contents ?s ''k'' = Some ''12abc''" by (simp add: kv_set_def store_simps)
  have p: "stoll ''12abc'' = Inr 12" and w: "wrap64 13 = 13" and t: "to_string 13 = ''13''"
    by code_simp+
  show ?thesis
    using i by (simp add: incrementBy_eq [OF i] c p w t contents_set_same)
qed

end
