(* ===== verification/Expiry_Manager.thy ===== *)
theory Expiry_Manager
  imports Prelude "HOL-Library.Multiset"
begin

text \<open>
  Key expiry, \<^verbatim>\<open>src/storage/expiry_manager.cpp\<close>. The priority queue is the multiset of its
  entries; which of several entries with the same earliest deadline \<^verbatim>\<open>top()\<close> returns is
  unspecified, and the model allows any. The sweeper thread is a step relation with one rule
  per exit of a wait or branch of \<^verbatim>\<open>sweepLoop\<close>; between its steps, while it is blocked on
  the condition variable or runs the callback, other threads may schedule, cancel and stop.
  The lemmas show that every live deadline stays represented in the queue, that no key is
  reported expired before its live deadline, and that the sweeper can always clear what is due.
\<close>

section \<open>State and operations\<close>

type_synonym heap_entry = "nanos \<times> key"

record ExpiryManager =
  exp_heap :: "heap_entry multiset"
  exp_current :: "(key, nanos) mapping"
  exp_stop :: bool

definition new_ExpiryManager :: ExpiryManager where
  "new_ExpiryManager = \<lparr>exp_heap = {#}, exp_current = Mapping.empty, exp_stop = False\<rparr>"

definition schedule :: "ExpiryManager \<Rightarrow> key \<Rightarrow> nanos \<Rightarrow> ExpiryManager" where
  "schedule m k expiresAt =
     m\<lparr>exp_current := Mapping.update k expiresAt (exp_current m),
       exp_heap := add_mset (expiresAt, k) (exp_heap m)\<rparr>"

definition cancel :: "ExpiryManager \<Rightarrow> key \<Rightarrow> ExpiryManager" where
  "cancel m k = m\<lparr>exp_current := Mapping.delete k (exp_current m)\<rparr>"

definition expiryOf :: "ExpiryManager \<Rightarrow> key \<Rightarrow> nanos option" where
  "expiryOf m k = Mapping.lookup (exp_current m) k"

definition stop_expiry :: "ExpiryManager \<Rightarrow> ExpiryManager" where
  "stop_expiry m = m\<lparr>exp_stop := True\<rparr>"

text \<open>The entry \<^verbatim>\<open>heap_.top()\<close> may return: one with the earliest deadline.\<close>

definition is_top :: "heap_entry \<Rightarrow> heap_entry multiset \<Rightarrow> bool" where
  "is_top e h \<longleftrightarrow> e \<in># h \<and> (\<forall>x \<in># h. fst e \<le> fst x)"

section \<open>The sweeper thread\<close>

datatype sweeper = Checking | BlockedEmpty | Waiting nanos | Firing key | Finished

inductive sweep_step :: "nanos \<Rightarrow> ExpiryManager \<times> sweeper \<Rightarrow> ExpiryManager \<times> sweeper \<Rightarrow> bool"
  for now where
  sw_stop: "exp_stop m \<Longrightarrow> sweep_step now (m, Checking) (m, Finished)"
| sw_empty: "\<not> exp_stop m \<Longrightarrow> exp_heap m = {#} \<Longrightarrow> sweep_step now (m, Checking) (m, BlockedEmpty)"
| sw_notified: "sweep_step now (m, BlockedEmpty) (m, Checking)"
| sw_wait: "\<not> exp_stop m \<Longrightarrow> is_top e (exp_heap m) \<Longrightarrow>
    sweep_step now (m, Checking) (m, Waiting (fst e))"
| sw_woken_early: "sweep_step now (m, Waiting d) (m, Checking)"
| sw_timeout_empty: "d \<le> now \<Longrightarrow> exp_heap m = {#} \<Longrightarrow> sweep_step now (m, Waiting d) (m, Checking)"
| sw_timeout_live: "d \<le> now \<Longrightarrow> is_top (w, k) (exp_heap m) \<Longrightarrow>
    Mapping.lookup (exp_current m) k = Some w \<Longrightarrow>
    sweep_step now (m, Waiting d)
      (m\<lparr>exp_heap := exp_heap m - {#(w, k)#}, exp_current := Mapping.delete k (exp_current m)\<rparr>, Firing k)"
| sw_timeout_stale: "d \<le> now \<Longrightarrow> is_top (w, k) (exp_heap m) \<Longrightarrow>
    Mapping.lookup (exp_current m) k \<noteq> Some w \<Longrightarrow>
    sweep_step now (m, Waiting d) (m\<lparr>exp_heap := exp_heap m - {#(w, k)#}\<rparr>, Checking)"
| sw_callback_done: "sweep_step now (m, Firing k) (m, Checking)"

inductive_cases from_WaitingE: "sweep_step now (m, Waiting d) q"

text \<open>The manager with its sweeper, its clients and the steady clock.\<close>

record expiry_sys =
  mgr :: ExpiryManager
  sweep :: sweeper
  clock :: nanos

definition init_expiry_sys :: "nanos \<Rightarrow> expiry_sys" where
  "init_expiry_sys t = \<lparr>mgr = new_ExpiryManager, sweep = Checking, clock = t\<rparr>"

inductive expiry_step :: "expiry_sys \<Rightarrow> expiry_sys \<Rightarrow> bool" where
  es_schedule: "expiry_step s (s\<lparr>mgr := schedule (mgr s) k t\<rparr>)"
| es_cancel: "expiry_step s (s\<lparr>mgr := cancel (mgr s) k\<rparr>)"
| es_stop: "expiry_step s (s\<lparr>mgr := stop_expiry (mgr s)\<rparr>)"
| es_tick: "clock s \<le> t \<Longrightarrow> expiry_step s (s\<lparr>clock := t\<rparr>)"
| es_sweep: "sweep_step (clock s) (mgr s, sweep s) (m', w') \<Longrightarrow> expiry_step s (s\<lparr>mgr := m', sweep := w'\<rparr>)"

inductive expiry_reachable :: "expiry_sys \<Rightarrow> bool" where
  er_init: "expiry_reachable (init_expiry_sys t)"
| er_step: "expiry_reachable s \<Longrightarrow> expiry_step s s' \<Longrightarrow> expiry_reachable s'"

section \<open>Invariant\<close>

text \<open>Every live deadline has its heap entry.\<close>

definition heap_covers :: "ExpiryManager \<Rightarrow> bool" where
  "heap_covers m \<longleftrightarrow> (\<forall>k \<in> Mapping.keys (exp_current m).
     \<exists>w. Mapping.lookup (exp_current m) k = Some w \<and> (w, k) \<in># exp_heap m)"

text \<open>While the sweeper waits for a deadline, the heap holds an entry that is due by then.\<close>

definition wait_covers :: "ExpiryManager \<Rightarrow> sweeper \<Rightarrow> bool" where
  "wait_covers m w = (case w of Waiting d \<Rightarrow> (\<exists>e \<in># exp_heap m. fst e \<le> d) | _ \<Rightarrow> True)"

lemma heap_coversD:
  "heap_covers m \<Longrightarrow> Mapping.lookup (exp_current m) k = Some w \<Longrightarrow> (w, k) \<in># exp_heap m"
  unfolding heap_covers_def by (drule bspec [of _ _ k]) (auto simp: keys_lookup)

lemma heap_coversI:
  "(\<And>k w. Mapping.lookup (exp_current m) k = Some w \<Longrightarrow> (w, k) \<in># exp_heap m) \<Longrightarrow> heap_covers m"
  by (auto simp: heap_covers_def keys_lookup)

lemma heap_covers_new [simp]: "heap_covers new_ExpiryManager"
  by (simp add: heap_covers_def new_ExpiryManager_def)

lemma heap_covers_schedule: "heap_covers m \<Longrightarrow> heap_covers (schedule m k t)"
  by (rule heap_coversI) (auto simp: schedule_def lookup_update_if dest: heap_coversD split: if_splits)

lemma heap_covers_cancel: "heap_covers m \<Longrightarrow> heap_covers (cancel m k)"
  by (rule heap_coversI) (auto simp: cancel_def lookup_delete_if dest: heap_coversD split: if_splits)

lemma heap_covers_stop: "heap_covers m \<Longrightarrow> heap_covers (stop_expiry m)"
  by (simp add: heap_covers_def stop_expiry_def)

lemma expiryOf_schedule [expiry_simps]: "expiryOf (schedule m k t) k' = (if k = k' then Some t else expiryOf m k')"
  and expiryOf_cancel [expiry_simps]: "expiryOf (cancel m k) k' = (if k = k' then None else expiryOf m k')"
  and expiryOf_new [expiry_simps]: "expiryOf new_ExpiryManager k' = None"
  by (simp_all add: expiryOf_def schedule_def cancel_def new_ExpiryManager_def lookup_simps)

lemma diff_single_mem: "e \<in># h \<Longrightarrow> e \<noteq> e' \<Longrightarrow> e \<in># h - {#e'#}"
  by (metis in_diff_count count_single diff_zero count_greater_zero_iff)

lemma sweep_step_heap_covers:
  "sweep_step now p q \<Longrightarrow> heap_covers (fst p) \<Longrightarrow> heap_covers (fst q)"
proof (induction rule: sweep_step.induct)
  case (sw_timeout_live d w k m)
  then show ?case
    by (intro heap_coversI)
      (auto simp: lookup_delete_if dest: heap_coversD intro!: diff_single_mem split: if_splits)
next
  case (sw_timeout_stale d w k m)
  then show ?case
    by (intro heap_coversI) (auto dest: heap_coversD intro!: diff_single_mem)
qed simp_all

lemma sweep_step_wait_covers:
  "sweep_step now p q \<Longrightarrow> wait_covers (fst p) (snd p) \<Longrightarrow> wait_covers (fst q) (snd q)"
  by (induction rule: sweep_step.induct) (auto simp: wait_covers_def is_top_def)

lemma wait_covers_mono: "wait_covers m w \<Longrightarrow> exp_heap m \<subseteq># exp_heap m' \<Longrightarrow> wait_covers m' w"
  by (auto simp: wait_covers_def dest: mset_subset_eqD split: sweeper.splits)

definition expiry_inv :: "expiry_sys \<Rightarrow> bool" where
  "expiry_inv s \<longleftrightarrow> heap_covers (mgr s) \<and> wait_covers (mgr s) (sweep s)"

lemma expiry_inv_init: "expiry_inv (init_expiry_sys t)"
  by (simp add: expiry_inv_def init_expiry_sys_def wait_covers_def)

lemma expiry_inv_step: "expiry_step s s' \<Longrightarrow> expiry_inv s \<Longrightarrow> expiry_inv s'"
proof (induction rule: expiry_step.induct)
  case (es_schedule s k t)
  then show ?case
    using heap_covers_schedule [of "mgr s" k t]
    by (auto simp: expiry_inv_def wait_covers_def schedule_def split: sweeper.splits)
next
  case (es_sweep s m' w')
  then show ?case
    using sweep_step_heap_covers sweep_step_wait_covers by (fastforce simp: expiry_inv_def)
next
  case (es_cancel s k)
  then show ?case
    using heap_covers_cancel [of "mgr s" k] by (auto simp: expiry_inv_def wait_covers_def cancel_def split: sweeper.splits)
next
  case (es_stop s)
  then show ?case
    using heap_covers_stop [of "mgr s"] by (auto simp: expiry_inv_def wait_covers_def stop_expiry_def split: sweeper.splits)
qed (simp add: expiry_inv_def)

lemma expiry_reachable_inv: "expiry_reachable s \<Longrightarrow> expiry_inv s"
  by (induction rule: expiry_reachable.induct) (auto intro: expiry_inv_init expiry_inv_step)

section \<open>Nothing fires early, everything due can be cleared\<close>

lemma fire_is_due:
  assumes "sweep_step now (m, Waiting d) (m', Firing k)" and "wait_covers m (Waiting d)"
  shows "\<exists>w. Mapping.lookup (exp_current m) k = Some w \<and> w \<le> now \<and> (w, k) \<in># exp_heap m"
  using assms by (fastforce elim!: from_WaitingE simp: wait_covers_def is_top_def)

inductive sweep_run :: "nanos \<Rightarrow> ExpiryManager \<times> sweeper \<Rightarrow> ExpiryManager \<times> sweeper \<Rightarrow> bool" for now where
  sr_refl: "sweep_run now p p"
| sr_step: "sweep_step now p q \<Longrightarrow> sweep_run now q r \<Longrightarrow> sweep_run now p r"

lemma top_exists: "h \<noteq> {#} \<Longrightarrow> \<exists>e. is_top e h"
proof -
  assume h: "h \<noteq> {#}"
  let ?m = "Min (fst ` set_mset h)"
  have "?m \<in> fst ` set_mset h" using h by simp
  then obtain e where "e \<in># h" "fst e = ?m" by auto
  then have "is_top e h" by (simp add: is_top_def)
  then show ?thesis ..
qed

text \<open>One turn of the loop with a due top: wait, time out, pop, and run the callback if live.\<close>

lemma sweep_turn:
  assumes "\<not> exp_stop m" and "is_top e (exp_heap m)" and "fst e \<le> now"
  shows "\<exists>m'. sweep_run now (m, Checking) (m', Checking) \<and> exp_heap m' = exp_heap m - {#e#} \<and>
    \<not> exp_stop m' \<and> (\<forall>k w. Mapping.lookup (exp_current m') k = Some w \<longrightarrow> Mapping.lookup (exp_current m) k = Some w)"
proof -
  obtain w k where e: "e = (w, k)" by (cases e)
  have wait: "sweep_step now (m, Checking) (m, Waiting w)"
    using sw_wait [OF assms(1,2)] e by simp
  show ?thesis
  proof (cases "Mapping.lookup (exp_current m) k = Some w")
    case True
    let ?m = "m\<lparr>exp_heap := exp_heap m - {#(w, k)#}, exp_current := Mapping.delete k (exp_current m)\<rparr>"
    have "sweep_step now (m, Waiting w) (?m, Firing k)"
      using assms e True by (intro sw_timeout_live) auto
    then have "sweep_run now (m, Checking) (?m, Checking)"
      using wait sw_callback_done by (blast intro: sweep_run.intros)
    with e assms(1) show ?thesis
      by (intro exI [of _ ?m]) (auto simp: lookup_delete_if split: if_splits)
  next
    case False
    let ?m = "m\<lparr>exp_heap := exp_heap m - {#(w, k)#}\<rparr>"
    have "sweep_step now (m, Waiting w) (?m, Checking)"
      using assms e False by (intro sw_timeout_stale) auto
    then have "sweep_run now (m, Checking) (?m, Checking)"
      using wait by (blast intro: sweep_run.intros)
    with e assms(1) show ?thesis by (intro exI [of _ ?m]) auto
  qed
qed

lemma sweep_run_trans: "sweep_run now p q \<Longrightarrow> sweep_run now q r \<Longrightarrow> sweep_run now p r"
  by (induction rule: sweep_run.induct) (auto intro: sweep_run.intros)

lemma sweep_run_heap_covers: "sweep_run now p q \<Longrightarrow> heap_covers (fst p) \<Longrightarrow> heap_covers (fst q)"
  by (induction rule: sweep_run.induct) (auto intro: sweep_step_heap_covers)

lemma sweep_drains:
  "\<not> exp_stop m \<Longrightarrow> \<exists>m'. sweep_run now (m, Checking) (m', Checking) \<and> (\<forall>e \<in># exp_heap m'. now < fst e)"
proof (induction "size (exp_heap m)" arbitrary: m rule: less_induct)
  case less
  show ?case
  proof (cases "\<exists>e \<in># exp_heap m. fst e \<le> now")
    case False
    then show ?thesis by (intro exI [of _ m]) (auto intro: sweep_run.sr_refl)
  next
    case True
    then have "exp_heap m \<noteq> {#}" by auto
    then obtain e where t: "is_top e (exp_heap m)" using top_exists by blast
    with True have d: "fst e \<le> now" by (force simp: is_top_def)
    from sweep_turn [OF less.prems t d] obtain m1 where
      r: "sweep_run now (m, Checking) (m1, Checking)" and h: "exp_heap m1 = exp_heap m - {#e#}"
      and s: "\<not> exp_stop m1" by blast
    have "size (exp_heap m1) < size (exp_heap m)"
      unfolding h using t by (simp add: is_top_def size_Diff1_less)
    from less.hyps [OF this s] r show ?thesis by (blast intro: sweep_run_trans)
  qed
qed

section \<open>Properties\<close>

text \<open>
  C17: whatever the interleaving of clients, clock and sweeper, when the sweeper turns to the
  expiry callback for a key, the key's live deadline at that moment had passed; the earliest
  deadline is enough even though it was read before the wait.
\<close>

theorem expiry_never_early:
  assumes "expiry_reachable s" and "sweep s = Waiting d"
    and "sweep_step (clock s) (mgr s, sweep s) (m', Firing k)"
  shows "\<exists>w. expiryOf (mgr s) k = Some w \<and> w \<le> clock s \<and> expiryOf m' k = None"
proof -
  from assms(1) have "wait_covers (mgr s) (Waiting d)"
    using expiry_reachable_inv assms(2) by (force simp: expiry_inv_def)
  with assms(2,3) have "\<exists>w. Mapping.lookup (exp_current (mgr s)) k = Some w \<and> w \<le> clock s"
    using fire_is_due by fastforce
  moreover have "expiryOf m' k = None"
    using assms(2,3) by (auto elim!: from_WaitingE simp: expiryOf_def lookup_delete_if)
  ultimately show ?thesis by (simp add: expiryOf_def)
qed

theorem expiry_never_early_witness:
  "\<exists>s m' w. expiry_reachable s \<and> sweep_step (clock s) (mgr s, sweep s) (m', Firing ''k'') \<and>
    expiryOf (mgr s) ''k'' = Some w \<and> w \<le> clock s \<and> expiryOf m' ''k'' = None"
proof -
  let ?m = "schedule new_ExpiryManager ''k'' 5"
  let ?s1 = "(init_expiry_sys 0)\<lparr>mgr := ?m\<rparr>"
  let ?s2 = "?s1\<lparr>mgr := ?m, sweep := Waiting 5\<rparr>" and ?s3 = "?s1\<lparr>mgr := ?m, sweep := Waiting 5, clock := 7\<rparr>"
  let ?m' = "?m\<lparr>exp_heap := exp_heap ?m - {#(5, ''k'')#}, exp_current := Mapping.delete ''k'' (exp_current ?m)\<rparr>"
  have top: "is_top (5, ''k'') (exp_heap ?m)"
    by (simp add: is_top_def schedule_def new_ExpiryManager_def)
  have 1: "expiry_reachable ?s1"
    using er_step [OF er_init es_schedule, of 0 "''k''" 5] by (simp add: init_expiry_sys_def)
  have "sweep_step (clock ?s1) (mgr ?s1, sweep ?s1) (?m, Waiting 5)"
    using sw_wait [OF _ top, of 0] by (simp add: init_expiry_sys_def schedule_def new_ExpiryManager_def)
  from er_step [OF 1 es_sweep [OF this]] have 2: "expiry_reachable ?s2" by simp
  have "clock ?s2 \<le> 7" by (simp add: init_expiry_sys_def)
  from er_step [OF 2 es_tick [OF this]] have 3: "expiry_reachable ?s3" by simp
  have fire: "sweep_step (clock ?s3) (mgr ?s3, sweep ?s3) (?m', Firing ''k'')"
    using sw_timeout_live [OF _ top, of 5 7] by (simp add: schedule_def lookup_update_if)
  from expiry_never_early [OF 3 _ fire, of 5] obtain w where
    "expiryOf (mgr ?s3) ''k'' = Some w \<and> w \<le> clock ?s3 \<and> expiryOf ?m' ''k'' = None" by auto
  with 3 fire show ?thesis by blast
qed

text \<open>
  C18: no deadline is forgotten. In every reachable state a running sweeper that is about to
  look at the queue has a finite run, without help from other threads, after which no key has
  a live deadline in the past.
\<close>

theorem due_deadlines_are_cleared:
  assumes "expiry_reachable s" and "sweep s = Checking" and "\<not> exp_stop (mgr s)"
  shows "\<exists>m'. sweep_run (clock s) (mgr s, Checking) (m', Checking) \<and>
    (\<forall>k w. expiryOf m' k = Some w \<longrightarrow> clock s < w)"
proof -
  from sweep_drains [OF assms(3)] obtain m' where
    r: "sweep_run (clock s) (mgr s, Checking) (m', Checking)" and d: "\<forall>e \<in># exp_heap m'. clock s < fst e"
    by blast
  have "heap_covers m'"
    using sweep_run_heap_covers [OF r] expiry_reachable_inv [OF assms(1)] by (simp add: expiry_inv_def)
  then have "\<forall>k w. expiryOf m' k = Some w \<longrightarrow> clock s < w"
    using d heap_coversD by (fastforce simp: expiryOf_def)
  with r show ?thesis by blast
qed

theorem due_deadlines_are_cleared_witness:
  "\<exists>m'. sweep_run 0 (schedule new_ExpiryManager ''k'' (-3), Checking) (m', Checking) \<and>
    (\<forall>k w. expiryOf m' k = Some w \<longrightarrow> 0 < w)"
proof -
  let ?s = "(init_expiry_sys 0)\<lparr>mgr := schedule new_ExpiryManager ''k'' (-3)\<rparr>"
  have "expiry_reachable ?s"
    using er_step [OF er_init es_schedule, of 0 "''k''" "-3"] by (simp add: init_expiry_sys_def)
  then show ?thesis
    using due_deadlines_are_cleared [of ?s]
    by (simp add: init_expiry_sys_def schedule_def new_ExpiryManager_def)
qed

end
