(* ===== verification/Durability.thy ===== *)
theory Durability
  imports Kv_Store "HOL-Library.Sublist"
begin

text \<open>
  The writing side of persistence: files, the append-only file writer
  (\<^verbatim>\<open>src/persistence/aof.cpp\<close>), snapshot serialisation (\<^verbatim>\<open>src/persistence/snapshot.cpp\<close>)
  and the parts of \<^verbatim>\<open>src/persistence/persistence_manager.cpp\<close> that write. A disk holds the
  bytes of each file and says for which paths opening for writing succeeds; an
  \<^verbatim>\<open>std::ofstream\<close> is its path, whether it is open, and the bytes still in its buffer. The
  interface \<open>append_log\<close> is what the server relies on; its client facts say which lines a reader
  of the file sees after any sequence of appends, flushes and partial buffer spills.
\<close>

section \<open>Files\<close>

record disk =
  files :: "(file_path, string) mapping"
  can_open :: "file_path \<Rightarrow> bool"

definition read_file :: "disk \<Rightarrow> file_path \<Rightarrow> string option" where
  "read_file d p = Mapping.lookup (files d) p"

definition write_file :: "disk \<Rightarrow> file_path \<Rightarrow> string \<Rightarrow> disk" where
  "write_file d p bytes = d\<lparr>files := Mapping.update p bytes (files d)\<rparr>"

definition file_bytes :: "disk \<Rightarrow> file_path \<Rightarrow> string" where
  "file_bytes d p = (case read_file d p of None \<Rightarrow> [] | Some b \<Rightarrow> b)"

section \<open>AofWriter\<close>

record AofWriter =
  aof_path :: file_path
  aof_open :: bool
  aof_buffer :: string

text \<open>\<^verbatim>\<open>file_.open(path_, std::ios::app)\<close>: creates a missing file, keeps an existing one.\<close>

definition new_AofWriter :: "disk \<Rightarrow> file_path \<Rightarrow> disk \<times> AofWriter" where
  "new_AofWriter d p =
     (if can_open d p then (write_file d p (file_bytes d p), \<lparr>aof_path = p, aof_open = True, aof_buffer = []\<rparr>)
      else (d, \<lparr>aof_path = p, aof_open = False, aof_buffer = []\<rparr>))"

definition aof_append :: "wire_line \<Rightarrow> AofWriter \<Rightarrow> AofWriter" where
  "aof_append line w = (if aof_open w then w\<lparr>aof_buffer := aof_buffer w @ line @ [LF]\<rparr> else w)"

definition aof_flush :: "disk \<times> AofWriter \<Rightarrow> disk \<times> AofWriter" where
  "aof_flush dw = (case dw of (d, w) \<Rightarrow>
     if aof_open w
     then (write_file d (aof_path w) (file_bytes d (aof_path w) @ aof_buffer w), w\<lparr>aof_buffer := []\<rparr>)
     else (d, w))"

text \<open>\<^verbatim>\<open>close()\<close> writes out the buffer; reopening with \<^verbatim>\<open>trunc\<close> empties the file.\<close>

definition aof_reset :: "disk \<times> AofWriter \<Rightarrow> disk \<times> AofWriter" where
  "aof_reset dw = (case aof_flush dw of (d, w) \<Rightarrow>
     if can_open d (aof_path w)
     then (write_file d (aof_path w) [], w\<lparr>aof_open := True, aof_buffer := []\<rparr>)
     else (d, w\<lparr>aof_open := False, aof_buffer := []\<rparr>))"

text \<open>The stream may write out a prefix of its buffer on its own at any time.\<close>

definition aof_spill :: "nat \<Rightarrow> disk \<times> AofWriter \<Rightarrow> disk \<times> AofWriter" where
  "aof_spill n dw = (case dw of (d, w) \<Rightarrow>
     if aof_open w
     then (write_file d (aof_path w) (file_bytes d (aof_path w) @ take n (aof_buffer w)),
           w\<lparr>aof_buffer := drop n (aof_buffer w)\<rparr>)
     else (d, w))"

section \<open>SnapshotManager, writing\<close>

definition snapshot_line :: "key \<Rightarrow> val \<Rightarrow> wire_line" where
  "snapshot_line k v = ''SET '' @ k @ '' '' @ v"

definition SnapshotManager_save :: "string \<Rightarrow> KVStore \<Rightarrow> string" where
  "SnapshotManager_save out s = forEach (\<lambda>k v o'. o' @ ''SET '' @ k @ '' '' @ v @ [LF]) s out"

definition saveToFile :: "disk \<Rightarrow> file_path \<Rightarrow> KVStore \<Rightarrow> disk \<times> bool" where
  "saveToFile d p s =
     (if can_open d p then (write_file d p (SnapshotManager_save [] s), True) else (d, False))"

section \<open>PersistenceManager, writing\<close>

record PersistenceConfig =
  appendOnly :: bool
  dir :: string
  dbFilename :: string
  appendFilename :: string
  saveIntervalSeconds :: int

definition default_PersistenceConfig :: PersistenceConfig where
  "default_PersistenceConfig = \<lparr>appendOnly = True, dir = ''./data'', dbFilename = ''dump.tkv'',
     appendFilename = ''tinykv.aof'', saveIntervalSeconds = 300\<rparr>"

record PersistenceManager =
  pm_config :: PersistenceConfig
  pm_aof :: AofWriter

definition snapshotPath :: "PersistenceConfig \<Rightarrow> file_path" where
  "snapshotPath c = dir c @ ''/'' @ dbFilename c"

definition aofPath :: "PersistenceConfig \<Rightarrow> file_path" where
  "aofPath c = dir c @ ''/'' @ appendFilename c"

definition new_PersistenceManager :: "disk \<Rightarrow> PersistenceConfig \<Rightarrow> disk \<times> PersistenceManager" where
  "new_PersistenceManager d c =
     (case new_AofWriter d (aofPath c) of (d', w) \<Rightarrow> (d', \<lparr>pm_config = c, pm_aof = w\<rparr>))"

definition recordWrite :: "PersistenceManager \<Rightarrow> wire_line \<Rightarrow> PersistenceManager" where
  "recordWrite pm line =
     (if \<not> appendOnly (pm_config pm) then pm else pm\<lparr>pm_aof := aof_append line (pm_aof pm)\<rparr>)"

text \<open>\<^verbatim>\<open>save()\<close>: the result of \<^verbatim>\<open>saveToFile\<close> is not looked at.\<close>

definition PersistenceManager_save :: "disk \<Rightarrow> PersistenceManager \<Rightarrow> KVStore \<Rightarrow> disk \<times> PersistenceManager" where
  "PersistenceManager_save d pm s =
     (let (d1, saved) = saveToFile d (snapshotPath (pm_config pm)) s;
          (d2, w) = aof_reset (d1, pm_aof pm)
      in (d2, pm\<lparr>pm_aof := w\<rparr>))"

text \<open>One second of \<^verbatim>\<open>timerLoop\<close>: the tasks it hands to the thread pool, in order.\<close>

datatype bg_task = FlushTask | SaveTask

definition timer_tick :: "PersistenceConfig \<Rightarrow> int \<Rightarrow> int \<times> bg_task list" where
  "timer_tick c secondsSinceSnapshot =
     (let n = wrap32 (secondsSinceSnapshot + 1)
      in if saveIntervalSeconds c > 0 \<and> n \<ge> saveIntervalSeconds c then (0, [FlushTask, SaveTask])
         else (n, [FlushTask]))"

definition run_bg_task :: "bg_task \<Rightarrow> KVStore \<Rightarrow> disk \<times> PersistenceManager \<Rightarrow> disk \<times> PersistenceManager" where
  "run_bg_task t s dp = (case dp of (d, pm) \<Rightarrow>
     (case t of
        FlushTask \<Rightarrow> (case aof_flush (d, pm_aof pm) of (d', w) \<Rightarrow> (d', pm\<lparr>pm_aof := w\<rparr>))
      | SaveTask \<Rightarrow> PersistenceManager_save d pm s))"

section \<open>Files and writers\<close>

lemma read_write_file [disk_simps]:
  "read_file (write_file d p b) q = (if p = q then Some b else read_file d q)"
  by (simp add: read_file_def write_file_def lookup_update_if)

lemma file_bytes_write [disk_simps]:
  "file_bytes (write_file d p b) q = (if p = q then b else file_bytes d q)"
  by (simp add: file_bytes_def disk_simps)

lemma can_open_write [disk_simps]: "can_open (write_file d p b) = can_open d"
  by (simp add: write_file_def)

text \<open>What has been appended: the bytes in the file and the bytes still in the buffer.\<close>

definition aof_logical :: "disk \<times> AofWriter \<Rightarrow> string" where
  "aof_logical dw = (case dw of (d, w) \<Rightarrow> file_bytes d (aof_path w) @ aof_buffer w)"

definition aof_durable :: "disk \<times> AofWriter \<Rightarrow> string" where
  "aof_durable dw = (case dw of (d, w) \<Rightarrow> file_bytes d (aof_path w))"

definition aof_ok :: "disk \<times> AofWriter \<Rightarrow> bool" where
  "aof_ok dw = (case dw of (d, w) \<Rightarrow> aof_open w \<and> can_open d (aof_path w))"

lemmas aof_defs = aof_append_def aof_flush_def aof_reset_def aof_spill_def aof_logical_def
  aof_durable_def aof_ok_def

locale append_log =
  fixes ok :: "'s \<Rightarrow> bool"
    and append :: "wire_line \<Rightarrow> 's \<Rightarrow> 's"
    and flush :: "'s \<Rightarrow> 's"
    and spill :: "nat \<Rightarrow> 's \<Rightarrow> 's"
    and reset :: "'s \<Rightarrow> 's"
    and logical :: "'s \<Rightarrow> string"
    and durable :: "'s \<Rightarrow> string"
  assumes ok_append: "ok s \<Longrightarrow> ok (append l s)"
    and ok_flush: "ok s \<Longrightarrow> ok (flush s)"
    and ok_spill: "ok s \<Longrightarrow> ok (spill n s)"
    and ok_reset: "ok s \<Longrightarrow> ok (reset s)"
    and logical_append: "ok s \<Longrightarrow> logical (append l s) = logical s @ l @ [LF]"
    and logical_flush: "ok s \<Longrightarrow> logical (flush s) = logical s"
    and logical_spill: "ok s \<Longrightarrow> logical (spill n s) = logical s"
    and logical_reset: "ok s \<Longrightarrow> logical (reset s) = []"
    and durable_append: "ok s \<Longrightarrow> durable (append l s) = durable s"
    and durable_flush: "ok s \<Longrightarrow> durable (flush s) = logical s"
    and durable_spill: "ok s \<Longrightarrow> \<exists>x. durable (spill n s) = durable s @ x"
    and durable_prefix: "ok s \<Longrightarrow> \<exists>y. logical s = durable s @ y"
begin

lemma logical_appends: "ok s \<Longrightarrow> logical (fold append ls s) = logical s @ unlines ls \<and> ok (fold append ls s)"
  by (induction ls arbitrary: s) (auto simp: logical_append ok_append)

lemma lines_after_appends:
  assumes "ok s" and "logical s = unlines ms" and "\<forall>l \<in> set (ms @ ls). LF \<notin> set l"
  shows "getlines LF (logical (fold append ls s)) = ms @ ls"
  using logical_appends [OF assms(1), of ls] getlines_unlines [of "ms @ ls" "[]"] assms(2,3) by simp

text \<open>A crash keeps what is in the file: after a flush, at least everything appended before it.\<close>

lemma flushed_prefix_survives:
  assumes "ok s"
  shows "\<exists>x. durable (fold append ls (flush s)) = logical s \<and>
    logical (fold append ls (flush s)) = durable (fold append ls (flush s)) @ x"
proof -
  have "durable (fold append ls s') = durable s'" if "ok s'" for s'
    using that by (induction ls arbitrary: s') (auto simp: durable_append ok_append)
  then show ?thesis
    using assms ok_flush [OF assms] logical_appends [OF ok_flush [OF assms], of ls]
    by (simp add: durable_flush logical_flush)
qed

end

interpretation aof: append_log aof_ok "\<lambda>l (d, w). (d, aof_append l w)" aof_flush aof_spill aof_reset
    aof_logical aof_durable
proof unfold_locales
  fix s :: "disk \<times> AofWriter" and n
  assume "aof_ok s"
  then show "\<exists>x. aof_durable (aof_spill n s) = aof_durable s @ x"
    by (cases s) (auto simp: aof_defs disk_simps)
qed (auto simp: aof_defs disk_simps split: prod.splits)

section \<open>Snapshots\<close>

lemma SnapshotManager_save_eq:
  "SnapshotManager_save out s = out @ unlines (map (\<lambda>(k, v). snapshot_line k v) (entries s))"
proof -
  have "fold (\<lambda>(it, k, v) o'. o' @ ''SET '' @ k @ '' '' @ v @ [LF]) l out =
      out @ unlines (map (\<lambda>(k, v). snapshot_line k v) (map snd l))" for l :: "node list"
    by (induction l arbitrary: out) (auto simp: snapshot_line_def)
  then show ?thesis by (simp add: SnapshotManager_save_def forEach_def entries_def split_def)
qed


section \<open>Properties\<close>

text \<open>
  The append-only file holds exactly the recorded lines. From any open writer whose log is
  a sequence of whole lines, recording further lines and reading the log back line by line
  yields the old lines followed by the new ones, in order, wherever the buffer was spilled.
\<close>

theorem aof_log_roundtrip:
  assumes "aof_ok (d, w)" and "aof_logical (d, w) = unlines ms"
    and "\<forall>l \<in> set (ms @ ls). LF \<notin> set l"
  shows "getlines LF (aof_durable (aof_flush (aof_spill n (d, fold aof_append ls w)))) = ms @ ls"
proof -
  have e: "fold (\<lambda>l (d, w). (d, aof_append l w)) ls (d, w) = (d, fold aof_append ls w)" for w
    by (induction ls arbitrary: w) auto
  note a = aof.logical_appends [OF assms(1), of ls, unfolded e]
  have "aof_durable (aof_flush (aof_spill n (d, fold aof_append ls w))) = aof_logical (d, fold aof_append ls w)"
    using a aof.ok_spill aof.durable_flush aof.logical_spill by presburger
  then show ?thesis
    using aof.lines_after_appends [OF assms] by (simp add: e)
qed

theorem aof_log_roundtrip_witness:
  "getlines LF (aof_durable (aof_flush (aof_spill 3
     (write_file \<lparr>files = Mapping.empty, can_open = \<lambda>p. True\<rparr> ''a'' [],
      fold aof_append [''SET k v'', ''DEL k''] \<lparr>aof_path = ''a'', aof_open = True, aof_buffer = []\<rparr>)))) =
   [''SET k v'', ''DEL k'']"
  using aof_log_roundtrip [of "write_file \<lparr>files = Mapping.empty, can_open = \<lambda>p. True\<rparr> ''a'' []"
      "\<lparr>aof_path = ''a'', aof_open = True, aof_buffer = []\<rparr>" "[]" "[''SET k v'', ''DEL k'']" 3]
  by (simp add: aof_ok_def aof_logical_def disk_simps del: fold_simps)

text \<open>
  \<^verbatim>\<open>save()\<close> empties the append-only file even when the snapshot file cannot be opened:
  the old snapshot stays as it was, the log is gone, and every write recorded since that old
  snapshot is lost, flushed or not.
\<close>

theorem save_drops_log_when_snapshot_fails:
  assumes "\<not> can_open d (snapshotPath (pm_config pm))"
    and "aof_path (pm_aof pm) \<noteq> snapshotPath (pm_config pm)"
    and "can_open d (aof_path (pm_aof pm))"
  shows "read_file (fst (PersistenceManager_save d pm s)) (snapshotPath (pm_config pm)) =
      read_file d (snapshotPath (pm_config pm)) \<and>
    read_file (fst (PersistenceManager_save d pm s)) (aof_path (pm_aof pm)) = Some []"
  using assms
  by (auto simp: PersistenceManager_save_def saveToFile_def aof_reset_def aof_flush_def disk_simps
      Let_def split: prod.splits)

theorem save_drops_log_when_snapshot_fails_witness:
  "let c = default_PersistenceConfig;
       d = write_file \<lparr>files = Mapping.empty, can_open = (\<lambda>p. p \<noteq> snapshotPath c)\<rparr> (aofPath c) ''SET k v'';
       pm = snd (new_PersistenceManager d c)
   in read_file d (aofPath c) = Some ''SET k v'' \<and>
      read_file (fst (PersistenceManager_save d pm (new_KVStore 0))) (snapshotPath c) = None \<and>
      read_file (fst (PersistenceManager_save d pm (new_KVStore 0))) (aofPath c) = Some []"
proof -
  let ?c = default_PersistenceConfig
  let ?d = "write_file \<lparr>files = Mapping.empty, can_open = (\<lambda>p. p \<noteq> snapshotPath ?c)\<rparr> (aofPath ?c) ''SET k v''"
  let ?pm = "snd (new_PersistenceManager ?d ?c)"
  have p: "aofPath ?c \<noteq> snapshotPath ?c"
    by (simp add: aofPath_def snapshotPath_def default_PersistenceConfig_def)
  have pm: "pm_config ?pm = ?c" "aof_path (pm_aof ?pm) = aofPath ?c"
    using p by (simp_all add: new_PersistenceManager_def new_AofWriter_def disk_simps)
  have a: "\<not> can_open ?d (snapshotPath (pm_config ?pm))" "can_open ?d (aof_path (pm_aof ?pm))"
    using p by (simp_all add: pm disk_simps)
  have b: "aof_path (pm_aof ?pm) \<noteq> snapshotPath (pm_config ?pm)" using p by (simp add: pm)
  from save_drops_log_when_snapshot_fails [OF a(1) b a(2), of "new_KVStore 0"] show ?thesis
    unfolding Let_def pm using p by (simp add: disk_simps) (simp add: read_file_def)
qed

end
