(* ===== verification/Line_Protocol.thy ===== *)
theory Line_Protocol
  imports Cpp_Text
begin

text \<open>
  Line framing over a stream socket, \<^verbatim>\<open>src/net/line_protocol.cpp\<close>, and the client wrapper
  \<^verbatim>\<open>src/net/tcp_client.cpp\<close>. The kernel's side of a socket is what its calls return: the
  chunks \<^verbatim>\<open>recv\<close> will deliver (an empty chunk or the end of the list is a closed or failed
  connection) and the counts \<^verbatim>\<open>send\<close> will answer (a non-positive count or the end of the
  list is a failure), with the bytes accepted so far. The lemmas show that framing does not
  depend on how the bytes are cut into chunks, that a successful write delivers all its
  bytes, and that a line written on one side is the line read on the other.
\<close>

section \<open>Sockets\<close>

record sock =
  sk_rx :: "string list"
  sk_tx :: "int list"
  sk_out :: string

section \<open>Writing\<close>

fun writeRaw_loop :: "string \<Rightarrow> nat \<Rightarrow> int list \<Rightarrow> string \<Rightarrow> bool \<times> int list \<times> string" where
  "writeRaw_loop data totalSent [] out =
     (if totalSent < length data then (False, [], out) else (True, [], out))"
| "writeRaw_loop data totalSent (sent # ts) out =
     (if totalSent < length data
      then if sent \<le> 0 then (False, ts, out)
           else writeRaw_loop data (totalSent + nat sent) ts (out @ take (nat sent) (drop totalSent data))
      else (True, sent # ts, out))"

definition writeRaw :: "sock \<Rightarrow> string \<Rightarrow> sock \<times> bool" where
  "writeRaw s data = (case writeRaw_loop data 0 (sk_tx s) (sk_out s) of
     (ok, ts, o') \<Rightarrow> (s\<lparr>sk_tx := ts, sk_out := o'\<rparr>, ok))"

definition writeLine :: "sock \<Rightarrow> wire_line \<Rightarrow> sock \<times> bool" where
  "writeLine s line = writeRaw s (line @ [LF])"

section \<open>Reading\<close>

definition reader_limit :: nat where
  "reader_limit = 8192"

definition strip_cr :: "string \<Rightarrow> string" where
  "strip_cr l = (if l \<noteq> [] \<and> last l = CR then butlast l else l)"

text \<open>
  A reader is its buffer. \<^verbatim>\<open>LineReader::readLine\<close>: buffer and pending chunks before and after;
  \<^const>\<open>None\<close> is \<^verbatim>\<open>false\<close>.
\<close>

type_synonym LineReader = string

fun readLine :: "LineReader \<Rightarrow> string list \<Rightarrow> wire_line option \<times> LineReader \<times> string list" where
  "readLine buffer chunks =
     (case find_char LF buffer of
        Some newlinePos \<Rightarrow>
          (Some (strip_cr (take newlinePos buffer)), drop (newlinePos + 1) buffer, chunks)
      | None \<Rightarrow>
          if length buffer > reader_limit then (None, buffer, chunks)
          else case chunks of
                 [] \<Rightarrow> (None, buffer, [])
               | received # rest \<Rightarrow>
                   if received = [] then (None, buffer, rest) else readLine (buffer @ received) rest)"

declare readLine.simps [simp del]

section \<open>TcpClient\<close>

text \<open>The descriptor is absent (\<^verbatim>\<open>fd_ == -1\<close>) or a socket; the reader's buffer is a member.\<close>

record TcpClient =
  cl_sock :: "sock option"
  cl_buffer :: LineReader

definition new_TcpClient :: TcpClient where
  "new_TcpClient = \<lparr>cl_sock = None, cl_buffer = []\<rparr>"

text \<open>\<open>attempt\<close> is what \<^verbatim>\<open>socket\<close>, \<^verbatim>\<open>inet_pton\<close> and \<^verbatim>\<open>connect\<close> come to for this host and port.\<close>

definition tcp_connect :: "(string \<Rightarrow> int \<Rightarrow> sock option) \<Rightarrow> TcpClient \<Rightarrow> string \<Rightarrow> int \<Rightarrow> TcpClient \<times> bool" where
  "tcp_connect attempt c host port =
     (case attempt host port of
        None \<Rightarrow> (c\<lparr>cl_sock := None\<rparr>, False)
      | Some s \<Rightarrow> (c\<lparr>cl_sock := Some s\<rparr>, True))"

definition tcp_close :: "TcpClient \<Rightarrow> TcpClient" where
  "tcp_close c = c\<lparr>cl_sock := None\<rparr>"

definition sendLine :: "TcpClient \<Rightarrow> wire_line \<Rightarrow> TcpClient \<times> bool" where
  "sendLine c line =
     (case cl_sock c of
        None \<Rightarrow> (c, False)
      | Some s \<Rightarrow> (case writeLine s line of (s', ok) \<Rightarrow> (c\<lparr>cl_sock := Some s'\<rparr>, ok)))"

definition receiveLine :: "TcpClient \<Rightarrow> TcpClient \<times> wire_line option" where
  "receiveLine c =
     (case cl_sock c of
        None \<Rightarrow> (c, None)
      | Some s \<Rightarrow> (case readLine (cl_buffer c) (sk_rx s) of
          (r, buffer, chunks) \<Rightarrow> (c\<lparr>cl_sock := Some (s\<lparr>sk_rx := chunks\<rparr>), cl_buffer := buffer\<rparr>, r)))"

definition isConnected :: "TcpClient \<Rightarrow> bool" where
  "isConnected c \<longleftrightarrow> cl_sock c \<noteq> None"

section \<open>Writing delivers all or reports failure\<close>

lemma writeRaw_loop_result:
  assumes "totalSent \<le> length data"
  shows "\<exists>n. snd (snd (writeRaw_loop data totalSent ts o')) = o' @ take n (drop totalSent data) \<and>
    (fst (writeRaw_loop data totalSent ts o') \<longrightarrow> length data \<le> totalSent + n)"
  using assms
proof (induction ts arbitrary: totalSent o')
  case Nil
  then show ?case by (intro exI [of _ 0]) auto
next
  case (Cons sent ts)
  show ?case
  proof (cases "totalSent < length data \<and> 0 < sent")
    case False
    then show ?thesis by (intro exI [of _ 0]) auto
  next
    case True
    let ?o = "o' @ take (nat sent) (drop totalSent data)"
    show ?thesis
    proof (cases "totalSent + nat sent \<le> length data")
      case le: True
      from Cons.IH [OF le, of ?o] obtain n where
        n: "snd (snd (writeRaw_loop data (totalSent + nat sent) ts ?o)) = ?o @ take n (drop (totalSent + nat sent) data)"
          "fst (writeRaw_loop data (totalSent + nat sent) ts ?o) \<longrightarrow> length data \<le> totalSent + nat sent + n"
        by blast
      have "?o @ take n (drop (totalSent + nat sent) data) = o' @ take (nat sent + n) (drop totalSent data)"
        by (simp add: take_add) (simp add: add.commute)
      with n True show ?thesis by (intro exI [of _ "nat sent + n"]) auto
    next
      case over: False
      have "writeRaw_loop data (totalSent + nat sent) ts ?o = (True, ts, ?o)"
        using over by (cases ts) auto
      with True over show ?thesis by (intro exI [of _ "nat sent"]) auto
    qed
  qed
qed

lemma writeLine_result:
  "writeLine s line = (s', ok) \<Longrightarrow>
    sk_rx s' = sk_rx s \<and> (ok \<longrightarrow> sk_out s' = sk_out s @ line @ [LF]) \<and> (\<exists>n. sk_out s' = sk_out s @ take n (line @ [LF]))"
proof -
  assume h: "writeLine s line = (s', ok)"
  from writeRaw_loop_result [of 0 "line @ [LF]" "sk_tx s" "sk_out s"] obtain n where
    "snd (snd (writeRaw_loop (line @ [LF]) 0 (sk_tx s) (sk_out s))) = sk_out s @ take n (line @ [LF])"
    "fst (writeRaw_loop (line @ [LF]) 0 (sk_tx s) (sk_out s)) \<longrightarrow> length (line @ [LF]) \<le> n"
    by auto
  then have "sk_out s' = sk_out s @ take n (line @ [LF]) \<and> (ok \<longrightarrow> length (line @ [LF]) \<le> n) \<and> sk_rx s' = sk_rx s"
    using h by (auto simp: writeLine_def writeRaw_def split: prod.splits)
  then show ?thesis by auto
qed

section \<open>Reading does not depend on the chunks\<close>


lemma readLine_found:
  assumes "\<forall>c \<in> set chunks. c \<noteq> []" and "buffer @ concat chunks = l @ LF # rest"
    and "LF \<notin> set l" and "length l \<le> reader_limit"
  shows "\<exists>buffer' chunks'. readLine buffer chunks = (Some (strip_cr l), buffer', chunks') \<and>
    buffer' @ concat chunks' = rest \<and> (\<forall>c \<in> set chunks'. c \<noteq> [])"
  using assms
proof (induction chunks arbitrary: buffer)
  case Nil
  then have b: "buffer = l @ LF # rest" by simp
  show ?case
    unfolding b by (subst readLine.simps) (simp add: find_char_append [OF Nil.prems(3)])
next
  case (Cons c cs)
  show ?case
  proof (cases "find_char LF buffer")
    case None
    then have nb: "LF \<notin> set buffer" by (simp add: find_char_None_iff)
    have "length buffer \<le> length l"
    proof (rule ccontr)
      assume "\<not> length buffer \<le> length l"
      then have "buffer ! length l = LF" using Cons.prems(2)
        by (metis nth_append nth_append_length not_le)
      with \<open>\<not> length buffer \<le> length l\<close> nb show False by (metis nth_mem not_le)
    qed
    moreover have "readLine buffer (c # cs) = readLine (buffer @ c) cs"
      using None Cons.prems(1,4) \<open>length buffer \<le> length l\<close>
      by (simp add: readLine.simps [of buffer])
    moreover have "(buffer @ c) @ concat cs = l @ LF # rest" using Cons.prems(2) by simp
    ultimately show ?thesis using Cons.IH [of "buffer @ c"] Cons.prems by simp
  next
    case (Some i)
    from find_char_split [OF Some] obtain r where b: "buffer = take i buffer @ LF # r" by blast
    from find_char_SomeD [OF Some] have ni: "LF \<notin> set (take i buffer)" by simp
    have eq: "take i buffer @ LF # (r @ concat (c # cs)) = l @ LF # rest"
      using Cons.prems(2) b by (metis append.assoc append_Cons)
    have t: "take i buffer = l" and rest: "r @ concat (c # cs) = rest"
      using split_at_first_unique [OF ni Cons.prems(3) eq] by auto
    have "drop (Suc i) buffer = r"
      using find_char_split [OF Some] b by (metis list.inject same_append_eq)
    then show ?thesis
      using Some t rest Cons.prems(1) by (simp add: readLine.simps [of buffer])
  qed
qed

text \<open>Every line read takes at least its newline off the stream.\<close>

lemma readLine_consumes:
  "readLine buffer chunks = (Some l, buffer', chunks') \<Longrightarrow>
    length buffer' + length (concat chunks') < length buffer + length (concat chunks)"
proof (induction buffer chunks rule: readLine.induct)
  case (1 buffer chunks)
  show ?case
  proof (cases "find_char LF buffer")
    case (Some i)
    with "1.prems" find_char_SomeD [OF Some] show ?thesis by (auto simp: readLine.simps [of buffer])
  next
    case None
    with "1.prems" obtain c cs where cs: "chunks = c # cs" "c \<noteq> []" "\<not> reader_limit < length buffer"
      and r: "readLine (buffer @ c) cs = (Some l, buffer', chunks')"
      by (auto simp: readLine.simps [of buffer chunks] split: if_splits list.splits)
    from "1.IH" [OF None cs(3,1,2) r] cs(1) show ?thesis by simp
  qed
qed

text \<open>\<^verbatim>\<open>while (reader.readLine(fd, line))\<close>: all the lines a connection delivers.\<close>

function readLines :: "string \<Rightarrow> string list \<Rightarrow> wire_line list" where
  "readLines buffer chunks =
     (case readLine buffer chunks of
        (None, buffer', chunks') \<Rightarrow> []
      | (Some line, buffer', chunks') \<Rightarrow> line # readLines buffer' chunks')"
  by pat_completeness auto
termination
  by (relation "measure (\<lambda>(b, cs). length b + length (concat cs))")
    (auto simp: readLine_consumes [OF sym])

declare readLines.simps [simp del]

lemma readLine_no_newline: "LF \<notin> set (buffer @ concat chunks) \<Longrightarrow> fst (readLine buffer chunks) = None"
proof (induction buffer chunks rule: readLine.induct)
  case (1 buffer chunks)
  then have "find_char LF buffer = None" by (simp add: find_char_None_iff)
  with 1 show ?case by (subst readLine.simps) (auto split: list.split)
qed

text \<open>A last line that is cut off is not delivered.\<close>

lemma readLines_cut:
  assumes "\<forall>c \<in> set chunks. c \<noteq> []" and "buffer @ concat chunks = unlines ls @ tail"
    and "\<forall>l \<in> set ls. LF \<notin> set l \<and> length l \<le> reader_limit" and "LF \<notin> set tail"
  shows "readLines buffer chunks = map strip_cr ls"
  using assms
proof (induction ls arbitrary: buffer chunks)
  case Nil
  then have "fst (readLine buffer chunks) = None" by (intro readLine_no_newline) simp
  then show ?case by (cases "readLine buffer chunks") (simp add: readLines.simps [of buffer])
next
  case (Cons l ls)
  then have "buffer @ concat chunks = l @ LF # (unlines ls @ tail)" by simp
  from readLine_found [OF Cons.prems(1) this] Cons.prems(3) obtain b cs where
    r: "readLine buffer chunks = (Some (strip_cr l), b, cs)" "b @ concat cs = unlines ls @ tail"
      "\<forall>c \<in> set cs. c \<noteq> []"
    by auto
  have "readLines buffer chunks = strip_cr l # readLines b cs"
    by (simp add: readLines.simps [of buffer] r(1))
  with Cons.IH [OF r(3,2)] Cons.prems(3,4) show ?case by simp
qed

lemma readLines_unlines:
  assumes "\<forall>c \<in> set chunks. c \<noteq> []" and "buffer @ concat chunks = unlines ls"
    and "\<forall>l \<in> set ls. LF \<notin> set l \<and> length l \<le> reader_limit"
  shows "readLines buffer chunks = map strip_cr ls"
  using readLines_cut [of chunks buffer ls "[]"] assms by simp

section \<open>Properties\<close>

text \<open>
  Framing is independent of chunking. However the kernel cuts a stream of lines of at
  most 8192 bytes into non-empty chunks, the reader delivers exactly these lines, in order,
  each without one trailing carriage return.
\<close>

theorem framing_independent_of_chunks:
  assumes "\<forall>c \<in> set chunks. c \<noteq> []" and "concat chunks = unlines ls"
    and "\<forall>l \<in> set ls. LF \<notin> set l \<and> length l \<le> reader_limit"
  shows "readLines [] chunks = map strip_cr ls"
  using readLines_unlines [of chunks "[]" ls] assms by simp

theorem framing_independent_of_chunks_witness:
  "readLines [] [''GET'', '' a'' @ [CR], [LF] @ ''PI'', ''NG'' @ [LF]] = [''GET a'', ''PING'']"
  using framing_independent_of_chunks
    [of "[''GET'', '' a'' @ [CR], [LF] @ ''PI'', ''NG'' @ [LF]]" "[''GET a'' @ [CR], ''PING'']"]
  by (simp add: reader_limit_def strip_cr_def)

text \<open>
  A write that reports success has handed every byte of the line and its terminator to the
  kernel, in order and once, however many partial sends it took; a failed one has handed over
  a prefix.
\<close>

theorem writeLine_all_or_prefix:
  assumes "writeLine s line = (s', ok)"
  shows "(ok \<longrightarrow> sk_out s' = sk_out s @ line @ [LF]) \<and> (\<exists>n. sk_out s' = sk_out s @ take n (line @ [LF]))"
  using writeLine_result [OF assms] by blast

theorem writeLine_all_or_prefix_witness:
  "sk_out (fst (writeLine \<lparr>sk_rx = [], sk_tx = [1, 2], sk_out = []\<rparr> ''OK'')) = ''OK'' @ [LF]"
proof -
  obtain s' ok where h: "writeLine \<lparr>sk_rx = [], sk_tx = [1, 2], sk_out = []\<rparr> ''OK'' = (s', ok)" by fastforce
  moreover from h have ok by (simp add: writeLine_def writeRaw_def numeral_2_eq_2)
  ultimately show ?thesis using writeLine_all_or_prefix [OF h] by simp
qed

text \<open>
  The 8192-byte limit of the reader bounds only what is buffered without a newline: a
  longer line whose newline arrives in the chunk that crosses the limit is delivered, and the
  connection stays open.
\<close>

theorem overlong_line_delivered:
  "\<exists>chunks l. list_all (\<lambda>c. c \<noteq> [] \<and> length c \<le> 4096) chunks \<and> length l > reader_limit \<and>
    readLine [] chunks = (Some l, [], [])"
proof -
  let ?a = "\<lambda>n. replicate n (CHR ''a'')"
  have na: "find_char LF (?a n) = None" for n by (simp add: find_char_None_iff)
  have f: "find_char LF (?a 8192 @ [CHR ''a'', LF]) = Some 8193"
    using find_char_append [of LF "?a 8192 @ [CHR ''a'']" "[]"] by simp
  have "readLine (?a 8192) [[CHR ''a'', LF]] = (Some (?a 8192 @ [CHR ''a'']), [], [])"
    using na [of 8192] f
    by (simp add: readLine.simps [of "?a 8192" "[[CHR ''a'', LF]]"]
        readLine.simps [of "?a 8192 @ [CHR ''a'', LF]" "[]"] reader_limit_def strip_cr_def)
  moreover have "readLine [] [?a 4096, ?a 4096, [CHR ''a'', LF]] = readLine (?a 8192) [[CHR ''a'', LF]]"
    using na [of 4096]
    by (simp add: readLine.simps [of "[]" "[?a 4096, ?a 4096, [CHR ''a'', LF]]"]
        readLine.simps [of "?a 4096" "[?a 4096, [CHR ''a'', LF]]"] reader_limit_def
        replicate_add [symmetric])
  ultimately show ?thesis
    by (intro exI [of _ "[?a 4096, ?a 4096, [CHR ''a'', LF]]"] exI [of _ "?a 8192 @ [CHR ''a'']"])
      (simp add: reader_limit_def)
qed

text \<open>
  Closing and reopening a client keeps the reader's buffer, so bytes of a reply that broke
  off on the old connection are prepended to the first line received on the new one.
\<close>

theorem reconnect_keeps_stale_bytes:
  assumes "LF \<notin> set (cl_buffer c)" and "attempt host port = Some s"
    and "sk_rx s = [reply @ [LF]]" and "LF \<notin> set reply"
    and "length (cl_buffer c) + length reply \<le> reader_limit"
  shows "snd (receiveLine (fst (tcp_connect attempt (tcp_close c) host port))) =
    Some (strip_cr (cl_buffer c @ reply))"
proof -
  have "\<exists>b cs. readLine (cl_buffer c) [reply @ [LF]] = (Some (strip_cr (cl_buffer c @ reply)), b, cs)"
    using readLine_found [of "[reply @ [LF]]" "cl_buffer c" "cl_buffer c @ reply" "[]"] assms by auto
  then show ?thesis
    using assms(2,3) by (auto simp: receiveLine_def tcp_connect_def tcp_close_def)
qed

theorem reconnect_keeps_stale_bytes_witness:
  "snd (receiveLine (fst (tcp_connect (\<lambda>h p. Some \<lparr>sk_rx = [''+OK'' @ [LF]], sk_tx = [], sk_out = []\<rparr>)
     (tcp_close \<lparr>cl_sock = None, cl_buffer = ''+va''\<rparr>) ''127.0.0.1'' 6381))) = Some ''+va+OK''"
  using reconnect_keeps_stale_bytes [of "\<lparr>cl_sock = None, cl_buffer = ''+va''\<rparr>"
      "\<lambda>h p. Some \<lparr>sk_rx = [''+OK'' @ [LF]], sk_tx = [], sk_out = []\<rparr>" "''127.0.0.1''" 6381
      "\<lparr>sk_rx = [''+OK'' @ [LF]], sk_tx = [], sk_out = []\<rparr>" "''+OK''"]
  by (simp add: reader_limit_def strip_cr_def)

end
