(* ===== verification/Replication.thy ===== *)
theory Replication
  imports Line_Protocol
begin

text \<open>
  Replication state, \<^verbatim>\<open>src/replication/\<close>: the registry of replica sockets on a primary, the
  link of a replica to its primary, and the manager that switches roles. The sockets of a
  server are a function from descriptors. One connection of \<^verbatim>\<open>ReplicaLink::runLoop\<close>, from
  \<^verbatim>\<open>connect\<close> to the end of the stream, is \<open>link_session\<close>; the callback for a received line is a
  parameter, as it is in the code. The lemmas give what a propagated line leaves on each
  socket, which lines a session applies, and that role and link always agree.
\<close>

section \<open>ReplicaRegistry\<close>

type_synonym fd = int

record ReplicaRegistry =
  replicaFds :: "fd list"

definition registry_add :: "ReplicaRegistry \<Rightarrow> fd \<Rightarrow> ReplicaRegistry" where
  "registry_add r fd = r\<lparr>replicaFds := replicaFds r @ [fd]\<rparr>"

definition registry_remove :: "ReplicaRegistry \<Rightarrow> fd \<Rightarrow> ReplicaRegistry" where
  "registry_remove r fd = r\<lparr>replicaFds := filter (\<lambda>x. x \<noteq> fd) (replicaFds r)\<rparr>"

definition registry_propagate :: "ReplicaRegistry \<Rightarrow> wire_line \<Rightarrow> (fd \<Rightarrow> sock) \<Rightarrow> (fd \<Rightarrow> sock)" where
  "registry_propagate r line = fold (\<lambda>fd socks. socks(fd := fst (writeLine (socks fd) line))) (replicaFds r)"

definition registry_size :: "ReplicaRegistry \<Rightarrow> nat" where
  "registry_size r = length (replicaFds r)"

section \<open>ReplicaLink\<close>

record ReplicaLink =
  primaryHost :: string
  primaryPort :: int
  link_running :: bool
  link_connected :: bool

definition new_ReplicaLink :: "string \<Rightarrow> int \<Rightarrow> ReplicaLink" where
  "new_ReplicaLink host port =
     \<lparr>primaryHost = host, primaryPort = port, link_running = False, link_connected = False\<rparr>"

definition link_start :: "ReplicaLink \<Rightarrow> ReplicaLink" where
  "link_start l = l\<lparr>link_running := True\<rparr>"

definition link_stop :: "ReplicaLink \<Rightarrow> ReplicaLink" where
  "link_stop l = l\<lparr>link_running := False, link_connected := False\<rparr>"

text \<open>
  The body of the loop in \<^verbatim>\<open>runLoop\<close>: a fresh client, connect, send \<^verbatim>\<open>SYNC\<close>, then hand every
  line received to the callback until the stream ends (because the primary went away or
  \<^verbatim>\<open>stop()\<close> closed the client; either way the chunks of the socket end there). \<^verbatim>\<open>connected_\<close> is set
  exactly while the lines are applied and is clear again at the end. The result tells whether the
  handshake was sent.
\<close>

definition link_session ::
  "(string \<Rightarrow> int \<Rightarrow> sock option) \<Rightarrow> (wire_line \<Rightarrow> 'st \<Rightarrow> 'st) \<Rightarrow> ReplicaLink \<Rightarrow> 'st \<Rightarrow> 'st \<times> bool" where
  "link_session attempt onLine l st =
     (let (c, connected) = tcp_connect attempt new_TcpClient (primaryHost l) (primaryPort l)
      in if \<not> connected then (st, False)
         else let (c, sent) = sendLine c ''SYNC''
              in if \<not> sent then (st, False)
                 else case cl_sock c of
                        None \<Rightarrow> (st, True)
                      | Some s \<Rightarrow> (fold onLine (readLines (cl_buffer c) (sk_rx s)) st, True))"

text \<open>\<^verbatim>\<open>while (running_)\<close>: one session per reconnection, each with the network of its time.\<close>

definition link_runLoop ::
  "(string \<Rightarrow> int \<Rightarrow> sock option) list \<Rightarrow> (wire_line \<Rightarrow> 'st \<Rightarrow> 'st) \<Rightarrow> ReplicaLink \<Rightarrow> 'st \<Rightarrow> 'st" where
  "link_runLoop attempts onLine l st =
     fold (\<lambda>a st. if link_running l then fst (link_session a onLine l st) else st) attempts st"

section \<open>ReplicationManager\<close>

datatype ServerRole = PRIMARY_ROLE | REPLICA_ROLE

record ReplicationManager =
  role :: ServerRole
  replicaLink :: "ReplicaLink option"
  registry :: ReplicaRegistry

definition new_ReplicationManager :: ReplicationManager where
  "new_ReplicationManager = \<lparr>role = PRIMARY_ROLE, replicaLink = None, registry = \<lparr>replicaFds = []\<rparr>\<rparr>"

text \<open>A link that is torn down is stopped and then destroyed, so nothing of it remains.\<close>

definition replicaOf :: "ReplicationManager \<Rightarrow> string \<Rightarrow> int \<Rightarrow> ReplicationManager" where
  "replicaOf m host port =
     (let m1 = (case replicaLink m of None \<Rightarrow> m | Some l \<Rightarrow> m\<lparr>replicaLink := None\<rparr>);
          m2 = m1\<lparr>role := REPLICA_ROLE\<rparr>
      in m2\<lparr>replicaLink := Some (link_start (new_ReplicaLink host port))\<rparr>)"

definition replicaOfNoOne :: "ReplicationManager \<Rightarrow> ReplicationManager" where
  "replicaOfNoOne m =
     (let m1 = (case replicaLink m of None \<Rightarrow> m | Some l \<Rightarrow> m\<lparr>replicaLink := None\<rparr>)
      in m1\<lparr>role := PRIMARY_ROLE\<rparr>)"

section \<open>Role and link\<close>

definition replication_inv :: "ReplicationManager \<Rightarrow> bool" where
  "replication_inv m \<longleftrightarrow>
     (case replicaLink m of None \<Rightarrow> role m = PRIMARY_ROLE
      | Some l \<Rightarrow> role m = REPLICA_ROLE \<and> link_running l)"

lemma replication_inv_new [simp]: "replication_inv new_ReplicationManager"
  and replication_inv_replicaOf [simp]: "replication_inv (replicaOf m host port)"
  and replication_inv_noOne [simp]: "replication_inv (replicaOfNoOne m)"
  by (simp_all add: replication_inv_def new_ReplicationManager_def replicaOf_def replicaOfNoOne_def
      link_start_def Let_def split: option.splits)

lemma registry_unchanged [simp]:
  "registry (replicaOf m host port) = registry m" "registry (replicaOfNoOne m) = registry m"
  by (simp_all add: replicaOf_def replicaOfNoOne_def Let_def split: option.splits)

section \<open>Propagation\<close>

lemma propagate_others:
  "fd \<notin> set fds \<Longrightarrow> fold (\<lambda>fd socks. socks(fd := fst (writeLine (socks fd) line))) fds socks fd = socks fd"
  by (induction fds arbitrary: socks) auto

lemma propagate_each:
  "distinct fds \<Longrightarrow> fd \<in> set fds \<Longrightarrow>
    fold (\<lambda>fd socks. socks(fd := fst (writeLine (socks fd) line))) fds socks fd = fst (writeLine (socks fd) line)"
proof (induction fds arbitrary: socks)
  case (Cons x fds)
  show ?case
  proof (cases "x = fd")
    case True
    with Cons.prems propagate_others [of fd fds line "socks(fd := fst (writeLine (socks fd) line))"]
    show ?thesis by (simp del: fun_upd_apply add: fun_upd_same)
  next
    case False
    with Cons show ?thesis by simp
  qed
qed simp

section \<open>Sessions\<close>

lemma link_session_cut:
  assumes "attempt (primaryHost l) (primaryPort l) = Some s" and "snd (writeLine s ''SYNC'')"
    and "\<forall>c \<in> set (sk_rx s). c \<noteq> []" and "concat (sk_rx s) = unlines ls @ tail"
    and "\<forall>l \<in> set ls. LF \<notin> set l \<and> length l \<le> reader_limit" and "LF \<notin> set tail"
  shows "link_session attempt onLine l st = (fold onLine (map strip_cr ls) st, True)"
proof -
  obtain s' where w: "writeLine s ''SYNC'' = (s', True)" using assms(2) by (cases "writeLine s ''SYNC''") auto
  with writeLine_result [OF w] have "sk_rx s' = sk_rx s" by simp
  with readLines_cut [of "sk_rx s" "[]" ls tail] assms have "readLines [] (sk_rx s') = map strip_cr ls" by simp
  with w assms(1) show ?thesis
    by (simp add: link_session_def tcp_connect_def sendLine_def new_TcpClient_def Let_def)
qed

lemma link_session_lines:
  assumes "attempt (primaryHost l) (primaryPort l) = Some s" and "snd (writeLine s ''SYNC'')"
    and "\<forall>c \<in> set (sk_rx s). c \<noteq> []" and "concat (sk_rx s) = unlines ls"
    and "\<forall>l \<in> set ls. LF \<notin> set l \<and> length l \<le> reader_limit"
  shows "link_session attempt onLine l st = (fold onLine (map strip_cr ls) st, True)"
  using link_session_cut [of attempt l s ls "[]"] assms by simp

section \<open>Properties\<close>

text \<open>
  A propagated line goes to every registered replica and to no other socket. A replica's
  socket holds afterwards what it held before followed by the line, provided its kernel took
  the write; a failing socket does not keep the line from the others.
\<close>

theorem propagate_reaches_registered:
  assumes "distinct (replicaFds r)"
  shows "(fd \<in> set (replicaFds r) \<and> snd (writeLine (socks fd) line) \<longrightarrow>
      sk_out (registry_propagate r line socks fd) = sk_out (socks fd) @ line @ [LF]) \<and>
    (fd \<notin> set (replicaFds r) \<longrightarrow> registry_propagate r line socks fd = socks fd)"
proof (cases "fd \<in> set (replicaFds r)")
  case True
  obtain s' ok where w: "writeLine (socks fd) line = (s', ok)" by fastforce
  show ?thesis
    using writeLine_result [OF w] propagate_each [OF assms True] w True
    by (simp add: registry_propagate_def)
next
  case False
  then show ?thesis by (simp add: registry_propagate_def propagate_others)
qed

theorem propagate_reaches_registered_witness:
  "sk_out (registry_propagate \<lparr>replicaFds = [4, 7]\<rparr> ''DEL k''
     (\<lambda>fd. \<lparr>sk_rx = [], sk_tx = (if fd = 7 then [6] else []), sk_out = []\<rparr>) 7) = ''DEL k'' @ [LF]"
proof -
  let ?s = "\<lambda>fd :: fd. \<lparr>sk_rx = [], sk_tx = (if fd = 7 then [6] else []), sk_out = []\<rparr>"
  have "snd (writeLine (?s 7) ''DEL k'')"
    by (simp add: writeLine_def writeRaw_def)
  then show ?thesis
    using propagate_reaches_registered [of "\<lparr>replicaFds = [4, 7]\<rparr>" 7 ?s "''DEL k''"] by simp
qed

text \<open>
  Whatever sequence of role changes a server goes through, it is a replica exactly when it
  has a link, and that link is running towards the address of the last \<^verbatim>\<open>REPLICAOF\<close>.
\<close>

theorem role_matches_link:
  "replication_inv (fold (\<lambda>c m. case c of None \<Rightarrow> replicaOfNoOne m | Some (h, p) \<Rightarrow> replicaOf m h p)
      cs new_ReplicationManager) \<and>
    replicaLink (replicaOf m host port) =
      Some \<lparr>primaryHost = host, primaryPort = port, link_running = True, link_connected = False\<rparr>"
proof -
  have "replication_inv (fold (\<lambda>c m. case c of None \<Rightarrow> replicaOfNoOne m | Some (h, p) \<Rightarrow> replicaOf m h p) cs m)"
    if "replication_inv m" for m
    using that by (induction cs arbitrary: m) (auto split: option.splits)
  then show ?thesis
    by (simp add: replicaOf_def link_start_def new_ReplicaLink_def Let_def)
qed

end
