(* ===== verification/Command_Executor.thy ===== *)
theory Command_Executor
  imports Protocol Kv_Store Expiry_Manager Durability Replication
begin

text \<open>
  Command execution, \<^verbatim>\<open>src/command_executor.cpp\<close>. A \<open>node\<close> is the state one server process
  shares between its connection handlers: the store, the expiry manager, the persistence and
  replication managers (absent while the pointers are null), the disk and the counters.
  \<open>execute\<close> is the whole \<^verbatim>\<open>switch\<close>; the steady clock is its first argument, in
  nanoseconds, and deadline arithmetic is that of 64-bit \<^verbatim>\<open>std::chrono\<close> durations.

  The lemmas: every command keeps the node invariant, a command that answers with an error has
  not touched data or deadlines, and for a store without capacity \<open>execute\<close> refines a
  specification on two partial maps (values and deadlines).
\<close>

section \<open>State\<close>

record node =
  store :: KVStore
  expiry :: ExpiryManager
  persistence :: "PersistenceManager option"
  replication :: "ReplicationManager option"
  node_disk :: disk
  totalCommands :: "64 word"
  totalHits :: "64 word"
  totalMisses :: "64 word"

definition new_node :: "nat \<Rightarrow> disk \<Rightarrow> node" where
  "new_node capacity d =
     \<lparr>store = new_KVStore capacity, expiry = new_ExpiryManager, persistence = None, replication = None,
       node_disk = d, totalCommands = 0, totalHits = 0, totalMisses = 0\<rparr>"

definition setPersistence :: "PersistenceManager \<Rightarrow> node \<Rightarrow> node" where
  "setPersistence pm n = n\<lparr>persistence := Some pm\<rparr>"

definition setReplication :: "ReplicationManager \<Rightarrow> node \<Rightarrow> node" where
  "setReplication rm n = n\<lparr>replication := Some rm\<rparr>"

section \<open>Helpers\<close>

definition arityError :: "Command \<Rightarrow> string" where
  "arityError cmd = Reply_error (''wrong number of arguments for '' @ [CHR 0x27] @ cmd_name cmd @ [CHR 0x27])"

definition incrementReply :: "node \<Rightarrow> key \<Rightarrow> int \<Rightarrow> node \<times> string" where
  "incrementReply n k delta =
     (case incrementBy (store n) k delta of
        Inl e \<Rightarrow> (n, Reply_error ''value is not an integer or out of range'')
      | Inr (s', v) \<Rightarrow> (n\<lparr>store := s'\<rparr>, Reply_integer v))"

definition equalsIgnoreCase :: "string \<Rightarrow> string \<Rightarrow> bool" where
  "equalsIgnoreCase a b \<longleftrightarrow> length a = length b \<and> list_all2 (\<lambda>x y. tolower x = tolower y) a b"

definition parsePositiveSeconds :: "string \<Rightarrow> int option" where
  "parsePositiveSeconds s =
     (if s = [] \<or> \<not> list_all isdigit s then None
      else case stoll s of
             Inl e \<Rightarrow> None
           | Inr value \<Rightarrow> if value \<le> 0 then None else Some value)"

text \<open>\<^verbatim>\<open>now() + seconds(s)\<close> and the seconds left until a deadline, truncated towards zero.\<close>

definition nanosPerSecond :: int where
  "nanosPerSecond = 1000000000"

definition deadline_after :: "nanos \<Rightarrow> int \<Rightarrow> nanos" where
  "deadline_after now seconds = wrap64 (now + wrap64 (seconds * nanosPerSecond))"

definition seconds_left :: "nanos \<Rightarrow> nanos \<Rightarrow> int" where
  "seconds_left now expiresAt = cpp_quotient (wrap64 (expiresAt - now)) nanosPerSecond"

text \<open>The key a data command is about.\<close>

definition cmd_key :: "Command \<Rightarrow> key" where
  "cmd_key cmd = hd (cmd_args cmd)"

section \<open>The commands\<close>

definition exec_SET :: "nanos \<Rightarrow> Command \<Rightarrow> node \<Rightarrow> node \<times> string" where
  "exec_SET now cmd n =
     (case cmd_args cmd of
        [k, v] \<Rightarrow> (n\<lparr>store := kv_set (store n) k v, expiry := cancel (expiry n) k\<rparr>, Reply_ok)
      | [k, v, opt, secs] \<Rightarrow>
          if equalsIgnoreCase opt ''EX''
          then case parsePositiveSeconds secs of
                 None \<Rightarrow> (n, Reply_error (''invalid expire time in '' @ [CHR 0x27] @ ''SET'' @ [CHR 0x27] @ '' command''))
               | Some seconds \<Rightarrow>
                   (n\<lparr>store := kv_set (store n) k v,
                      expiry := schedule (expiry n) k (deadline_after now seconds)\<rparr>, Reply_ok)
          else (n, arityError cmd)
      | _ \<Rightarrow> (n, arityError cmd))"

definition exec_GET :: "Command \<Rightarrow> node \<Rightarrow> node \<times> string" where
  "exec_GET cmd n =
     (case cmd_args cmd of
        [k] \<Rightarrow> (case kv_get (store n) k of
                  (s', Some v) \<Rightarrow> (n\<lparr>store := s', totalHits := totalHits n + 1\<rparr>, Reply_bulk v)
                | (s', None) \<Rightarrow> (n\<lparr>store := s', totalMisses := totalMisses n + 1\<rparr>, Reply_nil))
      | _ \<Rightarrow> (n, arityError cmd))"

definition exec_DEL :: "Command \<Rightarrow> node \<Rightarrow> node \<times> string" where
  "exec_DEL cmd n =
     (case cmd_args cmd of
        [k] \<Rightarrow> (case kv_del (store n) k of
                  (s', existed) \<Rightarrow> (n\<lparr>store := s', expiry := cancel (expiry n) k\<rparr>,
                    Reply_integer (if existed then 1 else 0)))
      | _ \<Rightarrow> (n, arityError cmd))"

definition exec_TTL :: "nanos \<Rightarrow> Command \<Rightarrow> node \<Rightarrow> node \<times> string" where
  "exec_TTL now cmd n =
     (case cmd_args cmd of
        [k] \<Rightarrow>
          if \<not> kv_exists (store n) k then (n, Reply_integer (- 2))
          else (case expiryOf (expiry n) k of
                  None \<Rightarrow> (n, Reply_integer (- 1))
                | Some expiresAt \<Rightarrow>
                    let remaining = seconds_left now expiresAt
                    in (n, Reply_integer (if remaining > 0 then remaining else 0)))
      | _ \<Rightarrow> (n, arityError cmd))"

definition exec_EXPIRE :: "nanos \<Rightarrow> Command \<Rightarrow> node \<Rightarrow> node \<times> string" where
  "exec_EXPIRE now cmd n =
     (case cmd_args cmd of
        [k, secs] \<Rightarrow>
          if \<not> kv_exists (store n) k then (n, Reply_integer 0)
          else (case parsePositiveSeconds secs of
                  None \<Rightarrow> (n, Reply_error ''value is not an integer or out of range'')
                | Some seconds \<Rightarrow>
                    (n\<lparr>expiry := schedule (expiry n) k (deadline_after now seconds)\<rparr>, Reply_integer 1))
      | _ \<Rightarrow> (n, arityError cmd))"

definition exec_PERSIST :: "Command \<Rightarrow> node \<Rightarrow> node \<times> string" where
  "exec_PERSIST cmd n =
     (case cmd_args cmd of
        [k] \<Rightarrow>
          if \<not> kv_exists (store n) k then (n, Reply_integer 0)
          else let hadExpiry = (expiryOf (expiry n) k \<noteq> None)
               in (n\<lparr>expiry := cancel (expiry n) k\<rparr>, Reply_integer (if hadExpiry then 1 else 0))
      | _ \<Rightarrow> (n, arityError cmd))"

definition exec_SAVE :: "Command \<Rightarrow> node \<Rightarrow> node \<times> string" where
  "exec_SAVE cmd n =
     (if cmd_args cmd \<noteq> [] then (n, arityError cmd)
      else case persistence n of
             None \<Rightarrow> (n, Reply_error ''persistence is not enabled'')
           | Some pm \<Rightarrow> (case PersistenceManager_save (node_disk n) pm (store n) of
               (d', pm') \<Rightarrow> (n\<lparr>node_disk := d', persistence := Some pm'\<rparr>, Reply_ok)))"

definition exec_REPLICAOF :: "Command \<Rightarrow> node \<Rightarrow> node \<times> string" where
  "exec_REPLICAOF cmd n =
     (case cmd_args cmd of
        [host, port] \<Rightarrow>
          (case replication n of
             None \<Rightarrow> (n, Reply_error ''replication is not enabled'')
           | Some rm \<Rightarrow>
               if equalsIgnoreCase host ''NO'' \<and> equalsIgnoreCase port ''ONE''
               then (n\<lparr>replication := Some (replicaOfNoOne rm)\<rparr>, Reply_ok)
               else (case stoi port of
                       Inl e \<Rightarrow> (n, Reply_error (''invalid port in '' @ [CHR 0x27] @ ''REPLICAOF'' @ [CHR 0x27] @ '' command''))
                     | Inr p \<Rightarrow> (n\<lparr>replication := Some (replicaOf rm host p)\<rparr>, Reply_ok)))
      | _ \<Rightarrow> (n, arityError cmd))"

definition execute :: "nanos \<Rightarrow> Command \<Rightarrow> node \<Rightarrow> node \<times> string" where
  "execute now cmd n0 =
     (let n = n0\<lparr>totalCommands := totalCommands n0 + 1\<rparr>
      in case cmd_type cmd of
           SET \<Rightarrow> exec_SET now cmd n
         | GET \<Rightarrow> exec_GET cmd n
         | DEL \<Rightarrow> exec_DEL cmd n
         | PING \<Rightarrow> if cmd_args cmd \<noteq> [] then (n, arityError cmd) else (n, Reply_ok)
         | INCR \<Rightarrow> (case cmd_args cmd of [k] \<Rightarrow> incrementReply n k 1 | _ \<Rightarrow> (n, arityError cmd))
         | DECR \<Rightarrow> (case cmd_args cmd of [k] \<Rightarrow> incrementReply n k (- 1) | _ \<Rightarrow> (n, arityError cmd))
         | TTL \<Rightarrow> exec_TTL now cmd n
         | EXPIRE \<Rightarrow> exec_EXPIRE now cmd n
         | PERSIST \<Rightarrow> exec_PERSIST cmd n
         | SAVE \<Rightarrow> exec_SAVE cmd n
         | REPLICAOF \<Rightarrow> exec_REPLICAOF cmd n
         | SYNC \<Rightarrow> (n, Reply_error ''SYNC is only valid as the first line of a fresh connection'')
         | ROUTE \<Rightarrow> (n, Reply_error ''ROUTE is only valid against tinykv-router, not tinykv-server'')
         | NODES \<Rightarrow> (n, Reply_error ''NODES is only valid against tinykv-router, not tinykv-server'')
         | UNKNOWN \<Rightarrow> (n, Reply_error (''unknown command '' @ [CHR 0x27] @ cmd_name cmd @ [CHR 0x27])))"

lemmas exec_defs = exec_SET_def exec_GET_def exec_DEL_def exec_TTL_def exec_EXPIRE_def
  exec_PERSIST_def exec_SAVE_def exec_REPLICAOF_def

section \<open>Specification on partial maps\<close>

type_synonym spec_state = "(key \<rightharpoonup> val) \<times> (key \<rightharpoonup> nanos)"

definition node_abs :: "node \<Rightarrow> spec_state" where
  "node_abs n = (contents (store n), expiryOf (expiry n))"

definition spec_incr :: "spec_state \<Rightarrow> key \<Rightarrow> int \<Rightarrow> spec_state \<times> string" where
  "spec_incr s k d = (case s of (m, t) \<Rightarrow>
     (case (case m k of None \<Rightarrow> Inr 0 | Some w \<Rightarrow> stoll w) of
        Inl e \<Rightarrow> ((m, t), Reply_error ''value is not an integer or out of range'')
      | Inr x \<Rightarrow> ((m(k \<mapsto> to_string (wrap64 (x + d))), t), Reply_integer (wrap64 (x + d)))))"

text \<open>
  What the protocol document promises of each data command with a well-formed argument list:
  the two maps afterwards and the reply.
\<close>

fun spec_exec :: "nanos \<Rightarrow> CommandType \<Rightarrow> string list \<Rightarrow> spec_state \<Rightarrow> (spec_state \<times> string) option" where
  "spec_exec now SET [k, v] (m, t) = Some ((m(k \<mapsto> v), t(k := None)), Reply_ok)"
| "spec_exec now SET [k, v, ex, secs] (m, t) =
     (if equalsIgnoreCase ex ''EX''
      then map_option (\<lambda>s. ((m(k \<mapsto> v), t(k \<mapsto> deadline_after now s)), Reply_ok)) (parsePositiveSeconds secs)
      else None)"
| "spec_exec now GET [k] (m, t) =
     Some ((m, t), case m k of None \<Rightarrow> Reply_nil | Some v \<Rightarrow> Reply_bulk v)"
| "spec_exec now DEL [k] (m, t) =
     Some ((m(k := None), t(k := None)), Reply_integer (if m k = None then 0 else 1))"
| "spec_exec now INCR [k] (m, t) = Some (spec_incr (m, t) k 1)"
| "spec_exec now DECR [k] (m, t) = Some (spec_incr (m, t) k (- 1))"
| "spec_exec now TTL [k] (m, t) =
     Some ((m, t), Reply_integer (if m k = None then - 2 else
       case t k of None \<Rightarrow> - 1 | Some e \<Rightarrow> max 0 (seconds_left now e)))"
| "spec_exec now EXPIRE [k, secs] (m, t) =
     (if m k = None then Some ((m, t), Reply_integer 0)
      else map_option (\<lambda>s. ((m, t(k \<mapsto> deadline_after now s)), Reply_integer 1)) (parsePositiveSeconds secs))"
| "spec_exec now PERSIST [k] (m, t) =
     Some ((m, if m k = None then t else t(k := None)),
       Reply_integer (if m k = None \<or> t k = None then 0 else 1))"
| "spec_exec now PING [] (m, t) = Some ((m, t), Reply_ok)"
| "spec_exec _ _ _ _ = None"

section \<open>Invariant\<close>

definition node_inv :: "node \<Rightarrow> bool" where
  "node_inv n \<longleftrightarrow> store_inv (store n) \<and> heap_covers (expiry n) \<and>
     (case replication n of None \<Rightarrow> True | Some rm \<Rightarrow> replication_inv rm)"

lemma node_inv_new [simp]: "node_inv (new_node cap d)"
  by (simp add: node_inv_def new_node_def store_inv_new)

lemma store_inv_incr: "store_inv s \<Longrightarrow> incrementBy s k d = Inr (s', v) \<Longrightarrow> store_inv s'"
  by (auto dest!: incrementBy_Inr)

lemma capacity_incr: "incrementBy s k d = Inr (s', v) \<Longrightarrow> kv_capacity s' = kv_capacity s"
  by (auto dest!: incrementBy_Inr)

lemmas data_inv = store_inv_set store_inv_get store_inv_del store_inv_incr heap_covers_schedule
  heap_covers_cancel

text \<open>One command at a time: what it does to store, expiry manager and role.\<close>

lemma exec_node_inv:
  assumes "node_inv n"
  shows "node_inv (fst (exec_SET now cmd n))" and "node_inv (fst (exec_GET cmd n))"
    and "node_inv (fst (exec_DEL cmd n))" and "node_inv (fst (incrementReply n k d))"
    and "node_inv (fst (exec_TTL now cmd n))" and "node_inv (fst (exec_EXPIRE now cmd n))"
    and "node_inv (fst (exec_PERSIST cmd n))" and "node_inv (fst (exec_SAVE cmd n))"
    and "node_inv (fst (exec_REPLICAOF cmd n))"
proof -
  note i = assms [unfolded node_inv_def]
  have g: "store_inv s'" if "kv_get (store n) k = (s', r)" for k s' r
    using store_inv_get [of "store n" k] i that by simp
  have d: "store_inv s'" if "kv_del (store n) k = (s', r)" for k s' r
    using store_inv_del [of "store n" k] i that by simp
  show "node_inv (fst (exec_SET now cmd n))" and "node_inv (fst (exec_GET cmd n))"
    and "node_inv (fst (exec_DEL cmd n))" and "node_inv (fst (incrementReply n k d))"
    and "node_inv (fst (exec_TTL now cmd n))" and "node_inv (fst (exec_EXPIRE now cmd n))"
    and "node_inv (fst (exec_PERSIST cmd n))" and "node_inv (fst (exec_SAVE cmd n))"
    and "node_inv (fst (exec_REPLICAOF cmd n))"
    using i
    by (auto simp: node_inv_def exec_defs incrementReply_def kv_set_def Let_def
        intro: data_inv g d split: list.splits option.splits prod.splits sum.splits)
qed

lemma node_inv_count [simp]: "node_inv (n\<lparr>totalCommands := c\<rparr>) = node_inv n"
  by (simp add: node_inv_def)

lemma execute_node_inv: "node_inv n \<Longrightarrow> node_inv (fst (execute now cmd n))"
  using exec_node_inv [of "n\<lparr>totalCommands := totalCommands n + 1\<rparr>"]
  by (auto simp: execute_def Let_def split: CommandType.splits list.splits)

section \<open>Errors have no effect\<close>

definition is_error_reply :: "string \<Rightarrow> bool" where
  "is_error_reply r \<longleftrightarrow> r \<noteq> [] \<and> hd r = CHR ''-''"

lemma is_error_reply_simps [simp]:
  "\<not> is_error_reply Reply_ok" "\<not> is_error_reply (Reply_bulk v)" "\<not> is_error_reply Reply_nil"
  "is_error_reply (Reply_error m)" "\<not> is_error_reply (Reply_integer i)"
  "is_error_reply Reply_readOnlyError" "is_error_reply (arityError cmd)"
  by (simp_all add: is_error_reply_def arityError_def)

lemma exec_error_no_effect:
  "is_error_reply (snd (exec_SET now cmd n)) \<Longrightarrow> fst (exec_SET now cmd n) = n"
  "is_error_reply (snd (exec_GET cmd n)) \<Longrightarrow> fst (exec_GET cmd n) = n"
  "is_error_reply (snd (exec_DEL cmd n)) \<Longrightarrow> fst (exec_DEL cmd n) = n"
  "is_error_reply (snd (incrementReply n k d)) \<Longrightarrow> fst (incrementReply n k d) = n"
  "is_error_reply (snd (exec_TTL now cmd n)) \<Longrightarrow> fst (exec_TTL now cmd n) = n"
  "is_error_reply (snd (exec_EXPIRE now cmd n)) \<Longrightarrow> fst (exec_EXPIRE now cmd n) = n"
  "is_error_reply (snd (exec_PERSIST cmd n)) \<Longrightarrow> fst (exec_PERSIST cmd n) = n"
  "is_error_reply (snd (exec_SAVE cmd n)) \<Longrightarrow> fst (exec_SAVE cmd n) = n"
  "is_error_reply (snd (exec_REPLICAOF cmd n)) \<Longrightarrow> fst (exec_REPLICAOF cmd n) = n"
  by (auto simp: exec_defs incrementReply_def Let_def
      split: list.splits option.splits prod.splits sum.splits if_splits)

lemma execute_error_no_effect:
  "is_error_reply (snd (execute now cmd n)) \<Longrightarrow>
    fst (execute now cmd n) = n\<lparr>totalCommands := totalCommands n + 1\<rparr>"
  by (auto simp: execute_def Let_def exec_error_no_effect
      split: CommandType.splits list.splits if_splits)

section \<open>Refinement, command by command\<close>

text \<open>The result of a command agrees with the specification's, or is an error without effect.\<close>

definition refines :: "node \<Rightarrow> node \<times> string \<Rightarrow> (spec_state \<times> string) option \<Rightarrow> bool" where
  "refines n r sp = (case sp of
     Some (s', reply) \<Rightarrow> node_abs (fst r) = s' \<and> snd r = reply
   | None \<Rightarrow> node_abs (fst r) = node_abs n \<and> is_error_reply (snd r))"

lemma expiryOf_fun:
  "expiryOf (cancel m k) = (expiryOf m)(k := None)" "expiryOf (schedule m k t) = (expiryOf m)(k \<mapsto> t)"
  by (auto simp: expiry_simps fun_eq_iff)

lemma incrementReply_refines:
  assumes "store_inv (store n)" and "kv_capacity (store n) = 0"
  shows "refines n (incrementReply n k d) (Some (spec_incr (node_abs n) k d))"
  using assms
  by (auto simp: refines_def incrementReply_def incrementBy_eq spec_incr_def node_abs_def store_simps
      split: sum.splits option.splits)

lemma kv_get_result:
  "store_inv s \<Longrightarrow> \<exists>s'. kv_get s k = (s', contents s k) \<and> contents s' = contents s"
  using entries_get(2) [of s k] contents_get [of s k] by (cases "kv_get s k") simp

lemma kv_del_result:
  "store_inv s \<Longrightarrow> \<exists>s'. kv_del s k = (s', contents s k \<noteq> None) \<and> contents s' = (contents s)(k := None)"
  using entries_del(2) [of s k] contents_del [of s k] by (cases "kv_del s k") simp

lemma exec_refines:
  assumes "store_inv (store n)" and "kv_capacity (store n) = 0"
  shows "refines n (exec_SET now cmd n) (spec_exec now SET (cmd_args cmd) (node_abs n))"
    and "refines n (exec_GET cmd n) (spec_exec now GET (cmd_args cmd) (node_abs n))"
    and "refines n (exec_DEL cmd n) (spec_exec now DEL (cmd_args cmd) (node_abs n))"
    and "refines n (exec_TTL now cmd n) (spec_exec now TTL (cmd_args cmd) (node_abs n))"
    and "refines n (exec_EXPIRE now cmd n) (spec_exec now EXPIRE (cmd_args cmd) (node_abs n))"
    and "refines n (exec_PERSIST cmd n) (spec_exec now PERSIST (cmd_args cmd) (node_abs n))"
proof -
  note i = assms
  note r = refines_def node_abs_def expiryOf_fun store_simps
  show "refines n (exec_SET now cmd n) (spec_exec now SET (cmd_args cmd) (node_abs n))"
    using i by (auto simp: r exec_SET_def kv_set_def split: list.splits option.splits)
  show "refines n (exec_GET cmd n) (spec_exec now GET (cmd_args cmd) (node_abs n))"
  proof (cases "\<exists>k. cmd_args cmd = [k]")
    case True
    then obtain k s' where "cmd_args cmd = [k]" "kv_get (store n) k = (s', contents (store n) k)"
      "contents s' = contents (store n)"
      using kv_get_result [OF i(1)] by blast
    then show ?thesis by (auto simp: exec_GET_def refines_def node_abs_def split: option.splits)
  qed (auto simp: exec_GET_def refines_def node_abs_def split: list.splits)
  show "refines n (exec_DEL cmd n) (spec_exec now DEL (cmd_args cmd) (node_abs n))"
  proof (cases "\<exists>k. cmd_args cmd = [k]")
    case True
    then obtain k s' where "cmd_args cmd = [k]" "kv_del (store n) k = (s', contents (store n) k \<noteq> None)"
      "contents s' = (contents (store n))(k := None)"
      using kv_del_result [OF i(1)] by blast
    then show ?thesis by (auto simp: exec_DEL_def refines_def node_abs_def expiryOf_fun)
  qed (auto simp: exec_DEL_def refines_def node_abs_def split: list.splits)
  show "refines n (exec_TTL now cmd n) (spec_exec now TTL (cmd_args cmd) (node_abs n))"
    using i by (auto simp: r exec_TTL_def Let_def max_def split: list.splits option.splits)
  show "refines n (exec_EXPIRE now cmd n) (spec_exec now EXPIRE (cmd_args cmd) (node_abs n))"
    using i by (auto simp: r exec_EXPIRE_def split: list.splits option.splits)
  show "refines n (exec_PERSIST cmd n) (spec_exec now PERSIST (cmd_args cmd) (node_abs n))"
    using i by (auto simp: r exec_PERSIST_def Let_def split: list.splits option.splits)
qed

lemma node_abs_count [simp]: "node_abs (n\<lparr>totalCommands := c\<rparr>) = node_abs n"
  by (simp add: node_abs_def)

lemma refines_count: "refines (n\<lparr>totalCommands := c\<rparr>) r sp = refines n r sp"
  by (simp add: refines_def split: option.splits)

lemma execute_data_refines:
  assumes "store_inv (store n)" and "kv_capacity (store n) = 0"
    and "cmd_type cmd \<in> {SET, GET, DEL, INCR, DECR, TTL, EXPIRE, PERSIST, PING}"
  shows "refines n (execute now cmd n) (spec_exec now (cmd_type cmd) (cmd_args cmd) (node_abs n))"
proof -
  let ?n = "n\<lparr>totalCommands := totalCommands n + 1\<rparr>"
  have i: "store_inv (store ?n)" "kv_capacity (store ?n) = 0" using assms by simp_all
  note r = exec_refines [OF i, unfolded refines_count node_abs_count]
    incrementReply_refines [OF i, unfolded refines_count node_abs_count]
  have err: "refines n (?n, arityError cmd) None" by (simp add: refines_def)
  obtain m t where abs: "node_abs n = (m, t)" by (cases "node_abs n")
  have incr: "refines n (case cmd_args cmd of [k] \<Rightarrow> incrementReply ?n k d | _ \<Rightarrow> (?n, arityError cmd))
      (case cmd_args cmd of [k] \<Rightarrow> Some (spec_incr (node_abs n) k d) | _ \<Rightarrow> None)" for d
    using r(7) err by (auto split: list.splits)
  from assms(3) show ?thesis
  proof (elim insertE emptyE)
    assume t: "cmd_type cmd = INCR"
    have "spec_exec now INCR (cmd_args cmd) (node_abs n) =
        (case cmd_args cmd of [k] \<Rightarrow> Some (spec_incr (node_abs n) k 1) | _ \<Rightarrow> None)"
      by (auto simp: abs split: list.splits)
    with t incr [of 1] show ?thesis by (simp add: execute_def Let_def)
  next
    assume t: "cmd_type cmd = DECR"
    have "spec_exec now DECR (cmd_args cmd) (node_abs n) =
        (case cmd_args cmd of [k] \<Rightarrow> Some (spec_incr (node_abs n) k (- 1)) | _ \<Rightarrow> None)"
      by (auto simp: abs split: list.splits)
    with t incr [of "- 1"] show ?thesis by (simp add: execute_def Let_def)
  next
    assume t: "cmd_type cmd = PING"
    then show ?thesis by (cases "cmd_args cmd") (simp_all add: execute_def Let_def refines_def abs)
  qed (use r in \<open>simp_all add: execute_def Let_def\<close>)
qed

lemma save_replicaof_abs:
  "node_abs (fst (exec_SAVE cmd n)) = node_abs n" "node_abs (fst (exec_REPLICAOF cmd n)) = node_abs n"
  by (auto simp: exec_defs node_abs_def split: list.splits option.splits prod.splits sum.splits)

lemma execute_other_abs:
  assumes "cmd_type cmd \<notin> {SET, GET, DEL, INCR, DECR, TTL, EXPIRE, PERSIST, PING}"
  shows "node_abs (fst (execute now cmd n)) = node_abs n"
  using assms save_replicaof_abs [of cmd "n\<lparr>totalCommands := totalCommands n + 1\<rparr>"]
  by (auto simp: execute_def Let_def split: CommandType.splits)

lemma capacity_pairs:
  "kv_get s k = (s', r) \<Longrightarrow> kv_capacity s' = kv_capacity s"
  "kv_del s k = (s', b) \<Longrightarrow> kv_capacity s' = kv_capacity s"
  using capacity_unchanged(3) [of s k] capacity_unchanged(4) [of s k] by simp_all

lemma exec_capacity:
  "kv_capacity (store (fst (exec_SET now cmd n))) = kv_capacity (store n)"
  "kv_capacity (store (fst (exec_GET cmd n))) = kv_capacity (store n)"
  "kv_capacity (store (fst (exec_DEL cmd n))) = kv_capacity (store n)"
  "kv_capacity (store (fst (incrementReply n k d))) = kv_capacity (store n)"
  "kv_capacity (store (fst (exec_TTL now cmd n))) = kv_capacity (store n)"
  "kv_capacity (store (fst (exec_EXPIRE now cmd n))) = kv_capacity (store n)"
  "kv_capacity (store (fst (exec_PERSIST cmd n))) = kv_capacity (store n)"
  "kv_capacity (store (fst (exec_SAVE cmd n))) = kv_capacity (store n)"
  "kv_capacity (store (fst (exec_REPLICAOF cmd n))) = kv_capacity (store n)"
  by (simp_all add: exec_defs incrementReply_def capacity_incr capacity_pairs Let_def
      split: list.splits option.splits prod.splits sum.splits)

lemma execute_capacity: "kv_capacity (store (fst (execute now cmd n))) = kv_capacity (store n)"
  by (simp add: execute_def Let_def exec_capacity split: CommandType.splits list.splits)

section \<open>Entries are words\<close>

definition clean_entries :: "KVStore \<Rightarrow> bool" where
  "clean_entries s \<longleftrightarrow> (\<forall>(k, v) \<in> set (entries s). is_word k \<and> is_word v)"

lemma set_lru_put: "set (lru_put cap k v es) \<subseteq> insert (k, v) (set es)"
  by (auto simp: lru_put_def Let_def dest!: in_set_takeD split: if_splits)

lemma clean_set:
  "store_inv s \<Longrightarrow> clean_entries s \<Longrightarrow> is_word k \<Longrightarrow> is_word v \<Longrightarrow> clean_entries (setLocked s k v)"
  using set_lru_put [of "kv_capacity s" k v "entries s"]
  by (auto simp: clean_entries_def entries_setLocked)

lemma clean_get: "store_inv s \<Longrightarrow> clean_entries s \<Longrightarrow> clean_entries (fst (kv_get s k))"
  by (auto simp: clean_entries_def entries_get lru_touch_def)

lemma clean_del: "store_inv s \<Longrightarrow> clean_entries s \<Longrightarrow> clean_entries (fst (kv_del s k))"
  by (auto simp: clean_entries_def entries_del lru_remove_def)

lemma clean_incr:
  "store_inv s \<Longrightarrow> clean_entries s \<Longrightarrow> is_word k \<Longrightarrow> incrementBy s k d = Inr (s', v) \<Longrightarrow> clean_entries s'"
  using incrementBy_Inr [of s k d s' v] clean_set [of s k "to_string v"] to_string_word by blast

lemma clean_pairs:
  "store_inv s \<Longrightarrow> clean_entries s \<Longrightarrow> kv_get s k = (s', r) \<Longrightarrow> clean_entries s'"
  "store_inv s \<Longrightarrow> clean_entries s \<Longrightarrow> kv_del s k = (s', b) \<Longrightarrow> clean_entries s'"
  using clean_get [of s k] clean_del [of s k] by simp_all

lemma exec_clean:
  assumes "store_inv (store n)" and "clean_entries (store n)" and "\<forall>w \<in> set (cmd_args cmd). is_word w"
  shows "clean_entries (store (fst (exec_SET now cmd n)))"
    and "clean_entries (store (fst (exec_GET cmd n)))"
    and "clean_entries (store (fst (exec_DEL cmd n)))"
    and "clean_entries (store (fst (case cmd_args cmd of [k] \<Rightarrow> incrementReply n k d | _ \<Rightarrow> (n, arityError cmd))))"
    and "clean_entries (store (fst (exec_TTL now cmd n)))"
    and "clean_entries (store (fst (exec_EXPIRE now cmd n)))"
    and "clean_entries (store (fst (exec_PERSIST cmd n)))"
    and "clean_entries (store (fst (exec_SAVE cmd n)))"
    and "clean_entries (store (fst (exec_REPLICAOF cmd n)))"
  using assms
  by (auto simp: exec_defs incrementReply_def kv_set_def Let_def
      intro: clean_set clean_pairs clean_incr split: list.splits option.splits prod.splits sum.splits)

lemma execute_clean:
  assumes "store_inv (store n)" and "clean_entries (store n)" and "\<forall>w \<in> set (cmd_args cmd). is_word w"
  shows "clean_entries (store (fst (execute now cmd n)))"
proof -
  let ?n = "n\<lparr>totalCommands := totalCommands n + 1\<rparr>"
  have "store_inv (store ?n)" "clean_entries (store ?n)" using assms by simp_all
  note c = exec_clean [OF this assms(3)]
  show ?thesis
    using c assms(2) by (simp add: execute_def Let_def split: CommandType.splits)
qed

text \<open>Replies are single lines.\<close>

lemma word_no_LF: "is_word w \<Longrightarrow> LF \<notin> set w"
  using space_chars(2) by (auto simp: is_word_def)

lemma clean_contents: "clean_entries s \<Longrightarrow> contents s k = Some v \<Longrightarrow> is_word v"
  by (auto simp: clean_entries_def contents_def dest!: map_of_SomeD)

lemma reply_one_line:
  "LF \<notin> set Reply_ok" "LF \<notin> set Reply_nil" "LF \<notin> set (Reply_integer i)"
  "is_word v \<Longrightarrow> LF \<notin> set (Reply_bulk v)" "is_word (cmd_name cmd) \<Longrightarrow> LF \<notin> set (arityError cmd)"
  by (simp_all add: reply_defs arityError_def word_no_LF to_string_word [THEN word_no_LF])

lemma get_reply_one_line:
  assumes "store_inv (store n)" and "clean_entries (store n)" and "is_word (cmd_name cmd)"
  shows "LF \<notin> set (snd (exec_GET cmd n))"
proof (cases "\<exists>k. cmd_args cmd = [k]")
  case True
  then obtain k s' where "cmd_args cmd = [k]" "kv_get (store n) k = (s', contents (store n) k)"
    using kv_get_result [OF assms(1)] by blast
  then show ?thesis
    using clean_contents [OF assms(2)]
    by (auto simp: exec_GET_def reply_one_line split: option.splits)
qed (auto simp: exec_GET_def reply_one_line assms(3) split: list.splits)

lemma execute_reply_one_line:
  assumes "store_inv (store n)" and "clean_entries (store n)" and "is_word (cmd_name cmd)"
  shows "LF \<notin> set (snd (execute now cmd n))"
proof -
  let ?n = "n\<lparr>totalCommands := totalCommands n + 1\<rparr>"
  have g: "LF \<notin> set (snd (exec_GET cmd ?n))" by (rule get_reply_one_line) (use assms in simp_all)
  note w = word_no_LF [OF assms(3)]
  have "LF \<notin> set (snd (exec_SET now cmd ?n))" "LF \<notin> set (snd (exec_DEL cmd ?n))"
    "LF \<notin> set (snd (exec_TTL now cmd ?n))" "LF \<notin> set (snd (exec_EXPIRE now cmd ?n))"
    "LF \<notin> set (snd (exec_PERSIST cmd ?n))" "LF \<notin> set (snd (exec_SAVE cmd ?n))"
    "LF \<notin> set (snd (exec_REPLICAOF cmd ?n))" "LF \<notin> set (snd (incrementReply ?n k d))" for k d
    by (auto simp: exec_defs incrementReply_def reply_one_line assms(3) Reply_error_def Let_def
        split: list.splits option.splits prod.splits sum.splits)
  with g w show ?thesis
    by (auto simp: execute_def Let_def reply_one_line assms(3) Reply_error_def
        split: CommandType.splits list.splits)
qed

text \<open>No command changes the registry of replicas, and only \<^verbatim>\<open>REPLICAOF\<close> the rest of the replication state.\<close>

lemma exec_registry:
  "replication (fst (exec_SET now cmd n)) = replication n" "replication (fst (exec_GET cmd n)) = replication n"
  "replication (fst (exec_DEL cmd n)) = replication n" "replication (fst (incrementReply n k d)) = replication n"
  "replication (fst (exec_TTL now cmd n)) = replication n" "replication (fst (exec_EXPIRE now cmd n)) = replication n"
  "replication (fst (exec_PERSIST cmd n)) = replication n" "replication (fst (exec_SAVE cmd n)) = replication n"
  "map_option registry (replication (fst (exec_REPLICAOF cmd n))) = map_option registry (replication n)"
  by (simp_all add: exec_defs incrementReply_def Let_def split: list.splits option.splits prod.splits sum.splits)

lemma execute_registry:
  "map_option registry (replication (fst (execute now cmd n))) = map_option registry (replication n)"
  by (simp add: execute_def Let_def exec_registry split: CommandType.splits list.splits)

section \<open>Deadlines\<close>

lemma deadline_after_exact:
  "in_int64 (now + s * nanosPerSecond) \<Longrightarrow> in_int64 (s * nanosPerSecond) \<Longrightarrow>
    deadline_after now s = now + s * nanosPerSecond"
  by (simp add: deadline_after_def wrap64_exact)

lemma seconds_left_exact:
  "now \<le> e \<Longrightarrow> in_int64 (e - now) \<Longrightarrow> seconds_left now e = (e - now) div nanosPerSecond"
  by (simp add: seconds_left_def wrap64_exact cpp_quotient_nonneg nanosPerSecond_def)

lemma seconds_left_past:
  "e \<le> now \<Longrightarrow> in_int64 (e - now) \<Longrightarrow> seconds_left now e \<le> 0"
  by (simp add: seconds_left_def wrap64_exact cpp_quotient_nonpos nanosPerSecond_def)

end
