(* ===== verification/Recovery.thy ===== *)
theory Recovery
  imports Command_Executor
begin

text \<open>
  The reading side of persistence: \<^verbatim>\<open>src/persistence/replay.cpp\<close>, the loading half of
  \<^verbatim>\<open>snapshot.cpp\<close> and \<^verbatim>\<open>aof.cpp\<close>, and \<^verbatim>\<open>PersistenceManager::recover\<close>. Replay feeds the
  lines of a file to the parser and the executor; the clock is a function of the number of
  the line, since every execution reads it anew. The lemmas reduce replay on a store without
  capacity to a fold over partial maps that does not depend on the clock, and show that loading
  a snapshot restores the entries it was taken from, in reverse order of recency.
\<close>

section \<open>Replay\<close>

fun replay_from :: "(nat \<Rightarrow> nanos) \<Rightarrow> nat \<Rightarrow> wire_line list \<Rightarrow> node \<Rightarrow> node" where
  "replay_from clk i [] n = n"
| "replay_from clk i (line # rest) n =
     (if line = [] then replay_from clk (Suc i) rest n
      else case parse line of
             Inl e \<Rightarrow> replay_from clk (Suc i) rest n
           | Inr cmd \<Rightarrow> replay_from clk (Suc i) rest (fst (execute (clk i) cmd n)))"

definition replayLines :: "(nat \<Rightarrow> nanos) \<Rightarrow> string \<Rightarrow> node \<Rightarrow> node" where
  "replayLines clk bytes n = replay_from clk 0 (getlines LF bytes) n"

definition SnapshotManager_load :: "(nat \<Rightarrow> nanos) \<Rightarrow> string \<Rightarrow> node \<Rightarrow> node" where
  "SnapshotManager_load clk bytes n = replayLines clk bytes n"

definition loadFromFile :: "(nat \<Rightarrow> nanos) \<Rightarrow> file_path \<Rightarrow> node \<Rightarrow> node \<times> bool" where
  "loadFromFile clk p n =
     (case read_file (node_disk n) p of
        None \<Rightarrow> (n, False)
      | Some bytes \<Rightarrow> (SnapshotManager_load clk bytes n, True))"

definition AofLoader_replay :: "(nat \<Rightarrow> nanos) \<Rightarrow> file_path \<Rightarrow> node \<Rightarrow> node \<times> bool" where
  "AofLoader_replay clk p n =
     (case read_file (node_disk n) p of
        None \<Rightarrow> (n, False)
      | Some bytes \<Rightarrow> (replayLines clk bytes n, True))"

definition recover :: "(nat \<Rightarrow> nanos) \<Rightarrow> (nat \<Rightarrow> nanos) \<Rightarrow> PersistenceConfig \<Rightarrow> node \<Rightarrow> node" where
  "recover clk1 clk2 c n =
     (let (n1, loadedSnapshot) = loadFromFile clk1 (snapshotPath c) n
      in if appendOnly c then fst (AofLoader_replay clk2 (aofPath c) n1) else n1)"

section \<open>The effect of a command on the data\<close>

definition content_step :: "Command \<Rightarrow> (key \<rightharpoonup> val) \<Rightarrow> (key \<rightharpoonup> val)" where
  "content_step cmd m =
     (case spec_exec 0 (cmd_type cmd) (cmd_args cmd) (m, Map.empty) of
        None \<Rightarrow> m | Some (s, r) \<Rightarrow> fst s)"

definition replay_map :: "wire_line list \<Rightarrow> (key \<rightharpoonup> val) \<Rightarrow> (key \<rightharpoonup> val)" where
  "replay_map lines m = fold (\<lambda>line m. case parse line of Inl e \<Rightarrow> m | Inr cmd \<Rightarrow> content_step cmd m) lines m"

lemma content_step_time_free:
  "(case spec_exec now (cmd_type cmd) (cmd_args cmd) (m, t) of None \<Rightarrow> m | Some (s, r) \<Rightarrow> fst s) = content_step cmd m"
  unfolding content_step_def
  by (cases "cmd_type cmd"; cases "cmd_args cmd" rule: args_cases;
      simp add: spec_incr_def split: option.split sum.split)

lemma contents_execute:
  assumes "store_inv (store n)" and "kv_capacity (store n) = 0"
  shows "contents (store (fst (execute now cmd n))) = content_step cmd (contents (store n))"
proof -
  let ?D = "{SET, GET, DEL, INCR, DECR, TTL, EXPIRE, PERSIST, PING}"
  let ?sp = "spec_exec now (cmd_type cmd) (cmd_args cmd) (node_abs n)"
  have c: "contents (store n') = fst (node_abs n')" for n' by (simp add: node_abs_def)
  have cs: "content_step cmd (contents (store n)) =
      (case ?sp of None \<Rightarrow> contents (store n) | Some (s, r) \<Rightarrow> fst s)"
    using content_step_time_free [of "contents (store n)" now cmd "expiryOf (expiry n)"]
    by (simp add: node_abs_def)
  show ?thesis
  proof (cases "cmd_type cmd \<in> ?D")
    case True
    from execute_data_refines [OF assms True, of now] show ?thesis
      unfolding cs by (auto simp: refines_def c split: option.splits)
  next
    case False
    then have "?sp = None" by (cases "cmd_type cmd"; cases "node_abs n"; simp)
    with execute_other_abs [OF False, of now n] show ?thesis unfolding cs by (simp add: c)
  qed
qed

lemma content_step_error:
  assumes "store_inv (store n)" and "kv_capacity (store n) = 0" and "is_error_reply (snd (execute now cmd n))"
  shows "content_step cmd (contents (store n)) = contents (store n)"
  using contents_execute [OF assms(1,2), of now cmd] execute_error_no_effect [OF assms(3)] by simp

lemma content_step_read: "\<not> isWriteCommand (cmd_type cmd) \<Longrightarrow> content_step cmd m = m"
  unfolding content_step_def
  by (cases "cmd_type cmd"; cases "cmd_args cmd" rule: args_cases; simp)

lemma replay_map_Nil [simp]: "replay_map [] m = m"
  and replay_map_Cons [simp]: "replay_map (l # ls) m =
    replay_map ls (case parse l of Inl e \<Rightarrow> m | Inr cmd \<Rightarrow> content_step cmd m)"
  and replay_map_append [simp]: "replay_map (ls @ ms) m = replay_map ms (replay_map ls m)"
  by (simp_all add: replay_map_def)

section \<open>Replay keeps the invariant and computes the map\<close>

lemma parse_Nil: "parse [] = Inl (ProtocolError ''empty command'')"
  by (simp add: parse_def)

lemma replay_from_inv:
  "node_inv n \<Longrightarrow> node_inv (replay_from clk i lines n) \<and>
    kv_capacity (store (replay_from clk i lines n)) = kv_capacity (store n)"
  by (induction clk i lines n rule: replay_from.induct)
    (auto simp: execute_node_inv execute_capacity split: sum.splits)

lemma replay_from_contents:
  assumes "node_inv n" and "kv_capacity (store n) = 0"
  shows "contents (store (replay_from clk i lines n)) = replay_map lines (contents (store n))"
  using assms
proof (induction lines arbitrary: i n)
  case (Cons line lines)
  have i: "store_inv (store n)" using Cons.prems(1) by (simp add: node_inv_def)
  show ?case
  proof (cases "parse line")
    case (Inl e)
    with Cons show ?thesis by simp
  next
    case (Inr cmd)
    then have "line \<noteq> []" by (auto simp: parse_Nil)
    with Inr Cons.IH [OF execute_node_inv [OF Cons.prems(1)], of "clk i" cmd "Suc i"] show ?thesis
      using contents_execute [OF i Cons.prems(2)] Cons.prems(2) execute_capacity by simp
  qed
qed simp

lemma replayLines_inv:
  "node_inv n \<Longrightarrow> node_inv (replayLines clk bytes n) \<and>
    kv_capacity (store (replayLines clk bytes n)) = kv_capacity (store n)"
  unfolding replayLines_def by (rule replay_from_inv)

lemma replayLines_contents:
  "node_inv n \<Longrightarrow> kv_capacity (store n) = 0 \<Longrightarrow>
    contents (store (replayLines clk bytes n)) = replay_map (getlines LF bytes) (contents (store n))"
  unfolding replayLines_def by (rule replay_from_contents)

section \<open>Loading a snapshot\<close>

text \<open>A snapshot line fits the parser's limit.\<close>

definition fits :: "key \<times> val \<Rightarrow> bool" where
  "fits e \<longleftrightarrow> length (fst e) + length (snd e) + 5 \<le> kMaxLineLength"

lemma snapshot_line_unwords: "snapshot_line k v = unwords [''SET'', k, v]"
  by (simp add: snapshot_line_def)

lemma parse_snapshot_line:
  assumes "is_word k" and "is_word v" and "fits (k, v)"
  shows "parse (snapshot_line k v) = Inr \<lparr>cmd_type = SET, cmd_name = ''SET'', cmd_args = [k, v]\<rparr>"
proof -
  have "is_word ''SET''" by (simp add: is_word_def isspace_def char_code_def)
  then have "\<forall>w \<in> set (''SET'' # [k, v]). is_word w" using assms by simp
  moreover have "length (unwords (''SET'' # [k, v])) \<le> kMaxLineLength"
    using assms(3) by (simp add: fits_def)
  ultimately show ?thesis
    unfolding snapshot_line_unwords by (subst parse_unwords) (simp_all add: text_simps)
qed

lemma snapshot_lines:
  assumes "clean_entries s"
  shows "getlines LF (SnapshotManager_save [] s) = map (\<lambda>(k, v). snapshot_line k v) (entries s)"
proof -
  have "LF \<notin> set (snapshot_line k v)" if "(k, v) \<in> set (entries s)" for k v
    using that assms word_no_LF by (auto simp: snapshot_line_def clean_entries_def)
  then show ?thesis
    unfolding SnapshotManager_save_eq
    using getlines_unlines [of "map (\<lambda>(k, v). snapshot_line k v) (entries s)" "[]"] by auto
qed

lemma content_step_SET: "content_step \<lparr>cmd_type = SET, cmd_name = ''SET'', cmd_args = [k, v]\<rparr> m = m(k \<mapsto> v)"
  by (simp add: content_step_def)

lemma replay_map_snapshot:
  assumes "\<forall>(k, v) \<in> set es. is_word k \<and> is_word v \<and> fits (k, v)"
  shows "replay_map (map (\<lambda>(k, v). snapshot_line k v) es) m = m ++ map_of (rev es)"
  using assms
proof (induction es arbitrary: m)
  case (Cons e es)
  obtain k v where e: "e = (k, v)" by (cases e)
  have p: "parse (snapshot_line k v) = Inr \<lparr>cmd_type = SET, cmd_name = ''SET'', cmd_args = [k, v]\<rparr>"
    using Cons.prems parse_snapshot_line unfolding e by simp
  have "m ++ map_of (rev (e # es)) = m(k \<mapsto> v) ++ map_of (rev es)"
    by (simp add: e map_of_append map_add_assoc [symmetric] del: map_add_assoc)
      (simp add: map_add_upd_left map_add_assoc)
  with Cons show ?case by (simp add: e p content_step_SET del: rev.simps)
qed simp

lemma store_execute_SET:
  "store (fst (execute now \<lparr>cmd_type = SET, cmd_name = nm, cmd_args = [k, v]\<rparr> n)) = kv_set (store n) k v"
  by (simp add: execute_def Let_def exec_SET_def)

lemma replay_snapshot_store:
  assumes "\<forall>(k, v) \<in> set es. is_word k \<and> is_word v \<and> fits (k, v)"
  shows "store (replay_from clk i (map (\<lambda>(k, v). snapshot_line k v) es) n) =
    fold (\<lambda>(k, v) s. kv_set s k v) es (store n)"
  using assms
proof (induction es arbitrary: i n)
  case (Cons e es)
  obtain k v where e: "e = (k, v)" by (cases e)
  have "parse (snapshot_line k v) = Inr \<lparr>cmd_type = SET, cmd_name = ''SET'', cmd_args = [k, v]\<rparr>"
    using Cons.prems parse_snapshot_line unfolding e by simp
  moreover have "snapshot_line k v \<noteq> []" by (simp add: snapshot_line_def)
  ultimately show ?case using Cons by (simp add: e store_execute_SET)
qed simp

lemma entries_fold_set:
  assumes "store_inv s" and "distinct (map fst es)" and "fst ` set es \<inter> fst ` set (entries s) = {}"
    and "kv_capacity s = 0 \<or> length es + length (entries s) \<le> kv_capacity s"
  shows "entries (fold (\<lambda>(k, v) s. kv_set s k v) es s) = rev es @ entries s"
  using assms
proof (induction es arbitrary: s)
  case (Cons e es)
  obtain k v where e: "e = (k, v)" by (cases e)
  let ?s = "setLocked s k v"
  have f: "filter (\<lambda>x. fst x \<noteq> k) (entries s) = entries s"
    using Cons.prems(3) by (auto simp: e intro!: filter_True)
  have es: "entries ?s = e # entries s"
    using Cons.prems(1,4) by (auto simp: e entries_setLocked lru_put_def f)
  have "entries (fold (\<lambda>(k, v) s. kv_set s k v) es ?s) = rev es @ entries ?s"
    using Cons.prems by (intro Cons.IH) (auto simp: e es store_inv_set)
  then show ?case by (simp add: e es kv_set_def)
qed simp

section \<open>Properties\<close>

text \<open>
  Saving a store and loading the snapshot into a fresh server of the same capacity restores
  every entry with its value, and exactly reverses the order of recency: what was used last
  before is the first to be evicted afterwards.
\<close>

theorem snapshot_roundtrip_reverses_recency:
  assumes "store_inv s" and "clean_entries s" and "\<forall>e \<in> set (entries s). fits e"
  shows "entries (store (SnapshotManager_load clk (SnapshotManager_save [] s) (new_node (kv_capacity s) d))) =
    rev (entries s)"
proof -
  let ?n = "new_node (kv_capacity s) d"
  have es: "\<forall>(k, v) \<in> set (entries s). is_word k \<and> is_word v \<and> fits (k, v)"
    using assms(2,3) by (auto simp: clean_entries_def)
  have n: "store ?n = new_KVStore (kv_capacity s)" by (simp add: new_node_def)
  have "kv_capacity s = 0 \<or> length (entries s) \<le> kv_capacity s"
    using assms(1) by (auto simp: store_inv_def entries_def)
  then have "entries (fold (\<lambda>(k, v) s. kv_set s k v) (entries s) (store ?n)) = rev (entries s)"
    unfolding n by (subst entries_fold_set) (auto simp: entries_distinct [OF assms(1)] entries_new)
  then show ?thesis
    by (simp add: SnapshotManager_load_def replayLines_def snapshot_lines [OF assms(2)]
        replay_snapshot_store [OF es])
qed

theorem snapshot_roundtrip_reverses_recency_witness:
  "let s = kv_set (kv_set (new_KVStore 2) ''a'' ''1'') ''b'' ''2''
   in entries s = [(''b'', ''2''), (''a'', ''1'')] \<and>
      entries (store (SnapshotManager_load (\<lambda>i. 0) (SnapshotManager_save [] s)
        (new_node 2 \<lparr>files = Mapping.empty, can_open = \<lambda>p. True\<rparr>))) =
        [(''a'', ''1''), (''b'', ''2'')]"
proof -
  let ?s = "kv_set (kv_set (new_KVStore 2) ''a'' ''1'') ''b'' ''2''"
  have i: "store_inv ?s" by (auto simp: kv_set_def)
  have e: "entries ?s = [(''b'', ''2''), (''a'', ''1'')]"
    by (simp add: kv_set_def entries_setLocked store_inv_set entries_new lru_put_def)
  have c: "clean_entries ?s" unfolding clean_entries_def e by (simp add: is_word_def isspace_def char_code_def)
  have f: "\<forall>x \<in> set (entries ?s). fits x" unfolding e by (simp add: fits_def kMaxLineLength_def)
  have cap: "kv_capacity ?s = 2" by simp
  from snapshot_roundtrip_reverses_recency [OF i c f, of "\<lambda>i. 0"
      "\<lparr>files = Mapping.empty, can_open = \<lambda>p. True\<rparr>"] show ?thesis
    unfolding Let_def cap e by simp
qed

text \<open>
  Loading a dump into a server without capacity that already holds data overlays the dump on
  it: keys of the dump take the dump's values, and keys the dump does not mention survive with
  their old values. A replica that resynchronises therefore keeps keys its primary has deleted.
\<close>

theorem dump_overlays_existing_data:
  assumes "store_inv s" and "clean_entries s" and "\<forall>e \<in> set (entries s). fits e"
    and "node_inv n" and "kv_capacity (store n) = 0"
  shows "contents (store (SnapshotManager_load clk (SnapshotManager_save [] s) n)) =
    contents (store n) ++ contents s"
proof -
  have es: "\<forall>(k, v) \<in> set (entries s). is_word k \<and> is_word v \<and> fits (k, v)"
    using assms(2,3) by (auto simp: clean_entries_def)
  have "store_inv (store n) \<and> kv_capacity (store n) = 0" using assms(4,5) by (simp add: node_inv_def)
  from store_map.look_puts [OF this, of "entries s"]
  have "contents (fold (\<lambda>(k, v) s. kv_set s k v) (entries s) (store n)) =
      contents (store n) ++ map_of (rev (entries s))"
    by (simp add: split_def)
  also have "map_of (rev (entries s)) = contents s"
    unfolding contents_def
    using entries_distinct [OF assms(1)] by (rule map_of_rev_distinct)
  finally show ?thesis
    by (simp add: SnapshotManager_load_def replayLines_def snapshot_lines [OF assms(2)]
        replay_snapshot_store [OF es])
qed

theorem dump_overlays_existing_data_witness:
  "let s = kv_set (new_KVStore 0) ''a'' ''1'';
       n = fst (execute 0 \<lparr>cmd_type = SET, cmd_name = ''SET'', cmd_args = [''b'', ''2'']\<rparr>
             (new_node 0 \<lparr>files = Mapping.empty, can_open = \<lambda>p. True\<rparr>))
   in contents s ''b'' = None \<and>
      contents (store (SnapshotManager_load (\<lambda>i. 0) (SnapshotManager_save [] s) n)) = [''b'' \<mapsto> ''2'', ''a'' \<mapsto> ''1'']"
proof -
  let ?s = "kv_set (new_KVStore 0) ''a'' ''1''" and ?d = "\<lparr>files = Mapping.empty, can_open = \<lambda>p. True\<rparr>"
  let ?n = "fst (execute 0 \<lparr>cmd_type = SET, cmd_name = ''SET'', cmd_args = [''b'', ''2'']\<rparr> (new_node 0 ?d))"
  have i: "store_inv ?s" by (auto simp: kv_set_def)
  have e: "entries ?s = [(''a'', ''1'')]"
    by (simp add: kv_set_def entries_setLocked store_inv_set entries_new lru_put_def)
  have c: "clean_entries ?s" unfolding clean_entries_def e by (simp add: is_word_def isspace_def char_code_def)
  have f: "\<forall>x \<in> set (entries ?s). fits x" unfolding e by (simp add: fits_def kMaxLineLength_def)
  have n: "node_inv ?n" by (rule execute_node_inv) simp
  have s0: "store ?n = kv_set (new_KVStore 0) ''b'' ''2''" unfolding store_execute_SET by (simp add: new_node_def)
  have cap: "kv_capacity (store ?n) = 0" unfolding s0 by simp
  have cn: "contents (store ?n) = [''b'' \<mapsto> ''2'']" unfolding s0
    by (simp add: contents_def kv_set_def entries_setLocked store_inv_set entries_new lru_put_def)
  have cs: "contents ?s = [''a'' \<mapsto> ''1'']" by (simp add: contents_def e)
  from dump_overlays_existing_data [OF i c f n cap, of "\<lambda>i. 0"] show ?thesis
    unfolding Let_def cn cs by simp
qed

end
