(* ===== verification/Server.thy ===== *)
theory Server
  imports Recovery
begin

text \<open>
  The server process, \<^verbatim>\<open>src/server_main.cpp\<close>: recording and propagating writes, the connection
  handler with its \<^verbatim>\<open>SYNC\<close> branch, the callback that applies lines of a primary, the expiry
  callback and start-up with recovery. The state is a \<^typ>\<open>node\<close> with the sockets of the
  process. A connection is its descriptor, its reader's buffer and the chunks its socket will
  deliver; the steady clock is a function of the number of the request line, since every
  execution reads it anew.

  The lemmas say what one request does to the data, the log, the registry and the sockets;
  the theorems on durability and replication build on them.
\<close>

section \<open>State\<close>

record server =
  svr_node :: node
  svr_socks :: "fd \<Rightarrow> sock"

definition svr_role :: "server \<Rightarrow> ServerRole" where
  "svr_role s = (case replication (svr_node s) of None \<Rightarrow> PRIMARY_ROLE | Some rm \<Rightarrow> role rm)"

definition svr_registry :: "server \<Rightarrow> ReplicaRegistry" where
  "svr_registry s = (case replication (svr_node s) of None \<Rightarrow> \<lparr>replicaFds = []\<rparr> | Some rm \<Rightarrow> registry rm)"

definition map_registry :: "(ReplicaRegistry \<Rightarrow> ReplicaRegistry) \<Rightarrow> server \<Rightarrow> server" where
  "map_registry f s = s\<lparr>svr_node := (svr_node s)\<lparr>replication :=
     map_option (\<lambda>rm. rm\<lparr>registry := f (registry rm)\<rparr>) (replication (svr_node s))\<rparr>\<rparr>"

section \<open>Recording and propagating\<close>

definition recordAndPropagateIfWrite :: "Command \<Rightarrow> wire_line \<Rightarrow> string \<Rightarrow> server \<Rightarrow> server" where
  "recordAndPropagateIfWrite cmd line response s =
     (let succeeded = (response \<noteq> [] \<and> hd response \<noteq> CHR ''-'')
      in if succeeded \<and> isWriteCommand (cmd_type cmd)
         then let s1 = s\<lparr>svr_node := (svr_node s)\<lparr>persistence :=
                           map_option (\<lambda>pm. recordWrite pm line) (persistence (svr_node s))\<rparr>\<rparr>
              in s1\<lparr>svr_socks := registry_propagate (svr_registry s1) line (svr_socks s1)\<rparr>
         else s)"

definition execute_on :: "nanos \<Rightarrow> Command \<Rightarrow> server \<Rightarrow> server \<times> string" where
  "execute_on now cmd s = (case execute now cmd (svr_node s) of (n', r) \<Rightarrow> (s\<lparr>svr_node := n'\<rparr>, r))"

definition write_reply :: "fd \<Rightarrow> wire_line \<Rightarrow> server \<Rightarrow> server \<times> bool" where
  "write_reply fd line s = (case writeLine (svr_socks s fd) line of
     (k', ok) \<Rightarrow> (s\<lparr>svr_socks := (svr_socks s)(fd := k')\<rparr>, ok))"

section \<open>The replica stream\<close>

text \<open>
  \<^verbatim>\<open>handleSyncConnection\<close> in the three pieces between which other connections run: registering,
  dumping, and watching until the replica disconnects.
\<close>

definition sync_register :: "fd \<Rightarrow> server \<Rightarrow> server" where
  "sync_register fd s = map_registry (\<lambda>r. registry_add r fd) s"

definition sync_dump :: "fd \<Rightarrow> server \<Rightarrow> server \<times> bool" where
  "sync_dump fd s = (case writeRaw (svr_socks s fd) (SnapshotManager_save [] (store (svr_node s))) of
     (k', ok) \<Rightarrow> (let s1 = s\<lparr>svr_socks := (svr_socks s)(fd := k')\<rparr>
                  in if \<not> ok then (map_registry (\<lambda>r. registry_remove r fd) s1, False) else (s1, True)))"

text \<open>Lines the replica still sends are read and discarded, by a reader of its own; then it is forgotten.\<close>

function drain :: "string \<Rightarrow> string list \<Rightarrow> string list" where
  "drain buffer chunks =
     (case readLine buffer chunks of
        (None, buffer', chunks') \<Rightarrow> chunks'
      | (Some line, buffer', chunks') \<Rightarrow> drain buffer' chunks')"
  by pat_completeness auto
termination
  by (relation "measure (\<lambda>(b, cs). length b + length (concat cs))")
    (auto simp: readLine_consumes [OF sym])

declare drain.simps [simp del]

definition set_rx :: "fd \<Rightarrow> string list \<Rightarrow> server \<Rightarrow> server" where
  "set_rx fd chunks s = s\<lparr>svr_socks := (svr_socks s)(fd := (svr_socks s fd)\<lparr>sk_rx := chunks\<rparr>)\<rparr>"

definition sync_watch :: "fd \<Rightarrow> server \<Rightarrow> server" where
  "sync_watch fd s =
     map_registry (\<lambda>r. registry_remove r fd) (set_rx fd (drain [] (sk_rx (svr_socks s fd))) s)"

definition handleSyncConnection :: "fd \<Rightarrow> server \<Rightarrow> server" where
  "handleSyncConnection fd s =
     (let (s1, ok) = sync_dump fd (sync_register fd s) in if ok then sync_watch fd s1 else s1)"

section \<open>The connection handler\<close>

text \<open>How a turn of the loop ends: with the next line, with \<^verbatim>\<open>break\<close>, or as a replica stream.\<close>

datatype conn_next = NextLine | CloseConn | ReplicaStream

definition reply_with :: "fd \<Rightarrow> wire_line \<Rightarrow> server \<Rightarrow> server \<times> conn_next" where
  "reply_with fd r s = (case write_reply fd r s of (s', ok) \<Rightarrow> (s', if ok then NextLine else CloseConn))"

definition handle_line :: "nanos \<Rightarrow> fd \<Rightarrow> wire_line \<Rightarrow> server \<Rightarrow> server \<times> conn_next" where
  "handle_line now fd line s =
     (if line = [] then (s, NextLine)
      else case parse line of
             Inl (ProtocolError what) \<Rightarrow> reply_with fd (Reply_error what) s
           | Inr cmd \<Rightarrow>
               if cmd_type cmd = SYNC then (s, ReplicaStream)
               else if isWriteCommand (cmd_type cmd) \<and> svr_role s = REPLICA_ROLE
               then reply_with fd Reply_readOnlyError s
               else let (s1, response) = execute_on now cmd s;
                        s2 = recordAndPropagateIfWrite cmd line response s1
                    in reply_with fd response s2)"

lemma rx_writeLine: "sk_rx (fst (writeLine k line)) = sk_rx k"
  using writeLine_result [of k line] by (cases "writeLine k line") auto

lemma rx_propagate: "sk_rx (registry_propagate r line socks fd) = sk_rx (socks fd)"
proof -
  have "sk_rx (fold (\<lambda>fd socks. socks(fd := fst (writeLine (socks fd) line))) fds socks fd) = sk_rx (socks fd)" for fds
    by (induction fds arbitrary: socks) (auto simp: rx_writeLine)
  then show ?thesis by (simp add: registry_propagate_def)
qed

lemma rx_record: "sk_rx (svr_socks (recordAndPropagateIfWrite cmd line r s) fd) = sk_rx (svr_socks s fd)"
  by (simp add: recordAndPropagateIfWrite_def Let_def rx_propagate)

lemma rx_reply_with: "sk_rx (svr_socks (fst (reply_with fd r s)) fd') = sk_rx (svr_socks s fd')"
  using rx_writeLine [of "svr_socks s fd" r]
  by (auto simp: reply_with_def write_reply_def split: prod.splits)

lemma socks_execute_on [simp]: "svr_socks (fst (execute_on now cmd s)) = svr_socks s"
  by (simp add: execute_on_def split: prod.splits)

lemma execute_on_socks: "execute_on now cmd s = (s1, r) \<Longrightarrow> svr_socks s1 = svr_socks s"
  using socks_execute_on [of now cmd s] by simp

lemma rx_handle_line: "sk_rx (svr_socks (fst (handle_line now fd line s)) fd') = sk_rx (svr_socks s fd')"
  by (auto simp: handle_line_def rx_reply_with rx_record dest: execute_on_socks split: sum.splits ProtocolError.splits prod.splits)

function handleConnection :: "(nat \<Rightarrow> nanos) \<Rightarrow> nat \<Rightarrow> fd \<Rightarrow> string \<Rightarrow> server \<Rightarrow> server" where
  "handleConnection clk i fd buffer s =
     (case readLine buffer (sk_rx (svr_socks s fd)) of
        (None, buffer', chunks') \<Rightarrow> set_rx fd chunks' s
      | (Some line, buffer', chunks') \<Rightarrow>
          (case handle_line (clk i) fd line (set_rx fd chunks' s) of
             (s', NextLine) \<Rightarrow> handleConnection clk (Suc i) fd buffer' s'
           | (s', CloseConn) \<Rightarrow> s'
           | (s', ReplicaStream) \<Rightarrow> handleSyncConnection fd s'))"
  by pat_completeness auto
termination
proof (relation "measure (\<lambda>(clk, i, fd, b, s). length b + length (concat (sk_rx (svr_socks s fd))))", goal_cases)
  case (2 clk i fd buffer s r q line buffer' chunks' s' nx)
  then have r: "readLine buffer (sk_rx (svr_socks s fd)) = (Some line, buffer', chunks')" by simp
  have h: "handle_line (clk i) fd line (set_rx fd chunks' s) = (s', NextLine)" using 2 by simp
  have "sk_rx (svr_socks s' fd) = chunks'"
    using rx_handle_line [of "clk i" fd line "set_rx fd chunks' s" fd] unfolding h by (simp add: set_rx_def)
  with readLine_consumes [OF r] show ?case by simp
qed simp

declare handleConnection.simps [simp del]

text \<open>The carriage return a reader drops is white space to the parser.\<close>

lemma parse_strip_cr: "length l \<le> kMaxLineLength \<Longrightarrow> parse (strip_cr l) = parse l"
proof (cases "l \<noteq> [] \<and> last l = CR")
  case True
  assume len: "length l \<le> kMaxLineLength"
  from True have "l = butlast l @ [CR]" by (metis append_butlast_last_id)
  then have "tokenize (butlast l) = tokenize l" using tokenize_snoc [of CR "butlast l"] by simp
  moreover have "length (butlast l) \<le> kMaxLineLength" using len by simp
  ultimately show ?thesis using len True by (simp add: parse_def strip_cr_def)
qed (auto simp: strip_cr_def)

section \<open>Callbacks and start-up\<close>

text \<open>The callback for a line received from this server's own primary.\<close>

definition apply_line :: "nanos \<Rightarrow> wire_line \<Rightarrow> server \<Rightarrow> server" where
  "apply_line now line s =
     (case parse line of
        Inl e \<Rightarrow> s
      | Inr cmd \<Rightarrow> (case execute_on now cmd s of
          (s1, response) \<Rightarrow> recordAndPropagateIfWrite cmd line response s1))"

text \<open>The callback of the expiry manager.\<close>

definition on_expire :: "key \<Rightarrow> server \<Rightarrow> server" where
  "on_expire k s = s\<lparr>svr_node := (svr_node s)\<lparr>store := fst (kv_del (store (svr_node s)) k)\<rparr>\<rparr>"

text \<open>A background task of the persistence manager, and the stream's own writing out.\<close>

definition background :: "bg_task \<Rightarrow> server \<Rightarrow> server" where
  "background t s =
     (case persistence (svr_node s) of
        None \<Rightarrow> s
      | Some pm \<Rightarrow> (case run_bg_task t (store (svr_node s)) (node_disk (svr_node s), pm) of
          (d', pm') \<Rightarrow> s\<lparr>svr_node := (svr_node s)\<lparr>node_disk := d', persistence := Some pm'\<rparr>\<rparr>))"

definition spill_log :: "nat \<Rightarrow> server \<Rightarrow> server" where
  "spill_log k s =
     (case persistence (svr_node s) of
        None \<Rightarrow> s
      | Some pm \<Rightarrow> (case aof_spill k (node_disk (svr_node s), pm_aof pm) of
          (d', w') \<Rightarrow> s\<lparr>svr_node := (svr_node s)\<lparr>node_disk := d', persistence := Some (pm\<lparr>pm_aof := w'\<rparr>)\<rparr>\<rparr>))"

text \<open>\<^verbatim>\<open>main\<close> up to the point where connections are accepted.\<close>

definition boot :: "(nat \<Rightarrow> nanos) \<Rightarrow> (nat \<Rightarrow> nanos) \<Rightarrow> nat \<Rightarrow> PersistenceConfig \<Rightarrow> disk \<Rightarrow> node" where
  "boot clk1 clk2 maxKeys c d =
     (case new_PersistenceManager d c of
        (d', pm) \<Rightarrow> recover clk1 clk2 c
          (setReplication new_ReplicationManager (setPersistence pm (new_node maxKeys d'))))"

end
