(* ===== verification/Server_Durability.thy ===== *)
theory Server_Durability
  imports Server
begin

text \<open>
  Durability end to end: requests, lines of a primary, background flushes and snapshots and
  partial writes of the stream's buffer act on a server whose log and snapshot are in order,
  and restarting from the disk gives back the data. The key notion is \<open>log_map\<close>, the data a
  restart would see once the buffer is written out; the lemmas say how every event changes it.
\<close>

section \<open>Lengths\<close>

lemma digits_length: "n < 10 ^ k \<Longrightarrow> 0 < k \<Longrightarrow> length (digits n) \<le> k"
proof (induction n arbitrary: k rule: digits.induct)
  case (1 n)
  show ?case
  proof (cases "n < 10")
    case True
    then show ?thesis using "1.prems"(2) by (simp add: digits.simps [of n])
  next
    case False
    then obtain j where k: "k = Suc j" "0 < j"
      using "1.prems" by (cases k; cases "k - 1") auto
    have "n div 10 < 10 ^ j" using "1.prems"(1) k(1) by (simp add: less_mult_imp_div_less)
    from "1.IH" [OF False this k(2)] show ?thesis using False k by (simp add: digits.simps [of n])
  qed
qed

lemma to_string_length: "in_int64 x \<Longrightarrow> length (to_string x) \<le> 20"
proof -
  assume h: "in_int64 x"
  then have "nat x < 10 ^ 19" and "nat (- x) < 10 ^ 19" by (simp_all add: nat_less_iff) linarith+
  then have "length (digits (nat x)) \<le> 19" and "length (digits (nat (- x))) \<le> 19"
    using digits_length by simp_all
  then show ?thesis by (simp add: to_string_def)
qed

section \<open>Data that survives a snapshot\<close>

definition storable :: "(key \<rightharpoonup> val) \<Rightarrow> bool" where
  "storable m \<longleftrightarrow> (\<forall>k v. m k = Some v \<longrightarrow> is_word k \<and> is_word v \<and> fits (k, v))"

text \<open>A request line that leaves room for the longest number \<^verbatim>\<open>INCR\<close> can store.\<close>

definition safe_line :: "wire_line \<Rightarrow> bool" where
  "safe_line line \<longleftrightarrow> LF \<notin> set line \<and> length line \<le> 8172"

lemma storable_empty [simp]: "storable Map.empty"
  by (simp add: storable_def)

lemma storable_upd: "storable m \<Longrightarrow> is_word k \<Longrightarrow> is_word v \<Longrightarrow> fits (k, v) \<Longrightarrow> storable (m(k \<mapsto> v))"
  by (simp add: storable_def)

lemma storable_del: "storable m \<Longrightarrow> storable (m(k := None))"
  by (simp add: storable_def)

lemma unwords_length3: "length (unwords (a # b # c # ds)) \<ge> length a + length b + length c + 2"
  by (cases ds) simp_all

lemma content_step_storable:
  assumes p: "parse line = Inr cmd" and l: "length line \<le> 8172" and m: "storable m"
  shows "storable (content_step cmd m)"
proof -
  note w = parse_args_words [OF p]
  have len: "length (unwords (cmd_name cmd # cmd_args cmd)) \<le> 8172"
    using tokenize_length [of line] parse_InrD(2) [OF p] l by simp
  note t = parse_InrD(3) [OF p]
  have set_ok: "storable (m(k \<mapsto> v))" if "cmd_type cmd = SET" and a: "cmd_args cmd = k # v # r" for k v r
  proof (rule storable_upd [OF m])
    show "is_word k" and "is_word v" using w a by simp_all
    have "length (cmd_name cmd) = 3" using commandType_length(1) that(1) t by simp
    then show "fits (k, v)"
      using unwords_length3 [of "cmd_name cmd" k v r] len a by (simp add: fits_def kMaxLineLength_def)
  qed
  have incr_ok: "storable (fst (fst (spec_incr (m, u) k d)))"
    if "cmd_type cmd = INCR \<or> cmd_type cmd = DECR" and a: "cmd_args cmd = [k]" for k d u
  proof -
    have "length (cmd_name cmd) = 4" using commandType_length(2,3) that(1) t by metis
    then have "length k \<le> 8167" using len a by simp
    then have "fits (k, to_string (wrap64 x))" for x
      using to_string_length [OF wrap64_range, of x] by (simp add: fits_def kMaxLineLength_def)
    moreover have "is_word k" using w a by simp
    ultimately have "storable (m(k \<mapsto> to_string (wrap64 x)))" for x
      using storable_upd [OF m] to_string_word by blast
    with m show ?thesis by (auto simp: spec_incr_def split: sum.splits)
  qed
  show ?thesis
    using set_ok incr_ok m storable_del [OF m]
    by (cases "cmd_type cmd"; cases "cmd_args cmd" rule: args_cases)
      (auto simp: content_step_def split_beta split: option.splits)
qed

lemma entries_iff: "store_inv s \<Longrightarrow> (k, v) \<in> set (entries s) \<longleftrightarrow> contents s k = Some v"
  by (auto simp: contents_def entries_distinct)

lemma storable_entries:
  assumes "store_inv s" and "storable (contents s)"
  shows "clean_entries s" and "\<forall>(k, v) \<in> set (entries s). is_word k \<and> is_word v \<and> fits (k, v)"
  using assms by (auto simp: clean_entries_def storable_def entries_iff)

text \<open>A snapshot of the store replays to its contents.\<close>

lemma replay_snapshot_contents:
  assumes "store_inv s" and "storable (contents s)"
  shows "replay_map (getlines LF (SnapshotManager_save [] s)) Map.empty = contents s"
  using snapshot_lines [OF storable_entries(1) [OF assms]]
    replay_map_snapshot [OF storable_entries(2) [OF assms], of Map.empty]
    map_of_rev_distinct [OF entries_distinct [OF assms(1)]]
  by (simp add: contents_def)

section \<open>The log\<close>


text \<open>
  Both files can be opened, are different files, and hold only lines that parse to write commands
  (or not at all); the log consists of whole lines.
\<close>

definition write_line :: "wire_line \<Rightarrow> bool" where
  "write_line l \<longleftrightarrow> (case parse l of Inl e \<Rightarrow> True | Inr cmd \<Rightarrow> isWriteCommand (cmd_type cmd))"

definition log_ok :: "node \<Rightarrow> bool" where
  "log_ok n \<longleftrightarrow> (case persistence n of None \<Rightarrow> False | Some pm \<Rightarrow>
     let c = pm_config pm; dw = (node_disk n, pm_aof pm)
     in appendOnly c \<and> aof_path (pm_aof pm) = aofPath c \<and> aofPath c \<noteq> snapshotPath c \<and>
        can_open (node_disk n) (snapshotPath c) \<and> aof_ok dw \<and>
        unlines (getlines LF (aof_logical dw)) = aof_logical dw \<and>
        list_all write_line (getlines LF (aof_logical dw)) \<and>
        list_all write_line (getlines LF (file_bytes (node_disk n) (snapshotPath c))))"

definition log_map :: "node \<Rightarrow> (key \<rightharpoonup> val)" where
  "log_map n = (case persistence n of None \<Rightarrow> Map.empty | Some pm \<Rightarrow>
     replay_map (getlines LF (aof_logical (node_disk n, pm_aof pm)))
       (replay_map (getlines LF (file_bytes (node_disk n) (snapshotPath (pm_config pm)))) Map.empty))"

definition data_ok :: "node \<Rightarrow> bool" where
  "data_ok n \<longleftrightarrow> node_inv n \<and> kv_capacity (store n) = 0 \<and> storable (contents (store n))"

lemma data_ok_store_inv: "data_ok n \<Longrightarrow> store_inv (store n)"
  by (simp add: data_ok_def node_inv_def)

lemma exec_keeps_files:
  "persistence (fst (exec_SET now cmd n)) = persistence n \<and> node_disk (fst (exec_SET now cmd n)) = node_disk n"
  "persistence (fst (exec_GET cmd n)) = persistence n \<and> node_disk (fst (exec_GET cmd n)) = node_disk n"
  "persistence (fst (exec_DEL cmd n)) = persistence n \<and> node_disk (fst (exec_DEL cmd n)) = node_disk n"
  "persistence (fst (incrementReply n k d)) = persistence n \<and> node_disk (fst (incrementReply n k d)) = node_disk n"
  "persistence (fst (exec_TTL now cmd n)) = persistence n \<and> node_disk (fst (exec_TTL now cmd n)) = node_disk n"
  "persistence (fst (exec_EXPIRE now cmd n)) = persistence n \<and> node_disk (fst (exec_EXPIRE now cmd n)) = node_disk n"
  "persistence (fst (exec_PERSIST cmd n)) = persistence n \<and> node_disk (fst (exec_PERSIST cmd n)) = node_disk n"
  "persistence (fst (exec_REPLICAOF cmd n)) = persistence n \<and> node_disk (fst (exec_REPLICAOF cmd n)) = node_disk n"
  by (simp_all add: exec_defs incrementReply_def Let_def
      split: list.splits option.splits prod.splits sum.splits)

lemma execute_keeps_files:
  "cmd_type cmd \<noteq> SAVE \<Longrightarrow> persistence (fst (execute now cmd n)) = persistence n \<and>
    node_disk (fst (execute now cmd n)) = node_disk n"
  by (simp add: execute_def Let_def exec_keeps_files split: CommandType.splits list.splits)

lemma execute_data_ok:
  assumes "data_ok n" and "parse line = Inr cmd" and "length line \<le> 8172"
  shows "data_ok (fst (execute now cmd n))"
    and "contents (store (fst (execute now cmd n))) = content_step cmd (contents (store n))"
proof -
  show c: "contents (store (fst (execute now cmd n))) = content_step cmd (contents (store n))"
    using contents_execute [OF data_ok_store_inv [OF assms(1)]] assms(1) by (simp add: data_ok_def)
  show "data_ok (fst (execute now cmd n))"
    using assms c content_step_storable [OF assms(2,3)] execute_node_inv execute_capacity
    by (simp add: data_ok_def)
qed

lemma log_ok_lines:
  "unlines (getlines LF b) = b \<Longrightarrow> LF \<notin> set l \<Longrightarrow>
    getlines LF (b @ l @ [LF]) = getlines LF b @ [l] \<and> unlines (getlines LF (b @ l @ [LF])) = b @ l @ [LF]"
  using getlines_unlines [of "getlines LF b" "l @ [LF]"] getlines_delim_free [of _ LF b]
    getlines_line [of LF l "[]"] by auto

text \<open>Appending a line to the log of an orderly node.\<close>

lemma recordWrite_log:
  assumes "log_ok n" and "persistence n = Some pm" and "LF \<notin> set line" and "write_line line"
  shows "log_ok (n\<lparr>persistence := Some (recordWrite pm line)\<rparr>)"
    and "log_map (n\<lparr>persistence := Some (recordWrite pm line)\<rparr>) =
      (case parse line of Inl e \<Rightarrow> log_map n | Inr cmd \<Rightarrow> content_step cmd (log_map n))"
proof -
  let ?dw = "(node_disk n, pm_aof pm)" and ?dw' = "(node_disk n, aof_append line (pm_aof pm))"
  have a: "aof_ok ?dw" "appendOnly (pm_config pm)" and u: "unlines (getlines LF (aof_logical ?dw)) = aof_logical ?dw"
    using assms(1,2) by (simp_all add: log_ok_def Let_def)
  have ok: "aof_ok ?dw'" and lg: "aof_logical ?dw' = aof_logical ?dw @ line @ [LF]"
    using aof.ok_append [OF a(1), of line] aof.logical_append [OF a(1), of line] by simp_all
  have p: "aof_path (aof_append line (pm_aof pm)) = aof_path (pm_aof pm)" by (simp add: aof_append_def)
  note l = log_ok_lines [OF u assms(3)]
  show "log_ok (n\<lparr>persistence := Some (recordWrite pm line)\<rparr>)"
    using assms(1,2,4) a ok lg l p by (simp add: log_ok_def Let_def recordWrite_def)
  show "log_map (n\<lparr>persistence := Some (recordWrite pm line)\<rparr>) =
      (case parse line of Inl e \<Rightarrow> log_map n | Inr cmd \<Rightarrow> content_step cmd (log_map n))"
    using assms(2) a l lg by (simp add: log_map_def recordWrite_def split: sum.split)
qed

text \<open>A snapshot moves everything from the log into the snapshot file.\<close>

lemma save_log:
  assumes "data_ok n" and "log_ok n" and "persistence n = Some pm"
    and "PersistenceManager_save (node_disk n) pm (store n) = (d', pm')"
  shows "log_ok (n\<lparr>node_disk := d', persistence := Some pm'\<rparr>)"
    and "log_map (n\<lparr>node_disk := d', persistence := Some pm'\<rparr>) = contents (store n)"
proof -
  let ?c = "pm_config pm"
  have h: "appendOnly ?c" "aof_path (pm_aof pm) = aofPath ?c" "aofPath ?c \<noteq> snapshotPath ?c"
    "can_open (node_disk n) (snapshotPath ?c)" "aof_open (pm_aof pm)" "can_open (node_disk n) (aofPath ?c)"
    using assms(2,3) by (auto simp: log_ok_def aof_ok_def Let_def)
  have st: "store_inv (store n)" "storable (contents (store n))"
    using assms(1) data_ok_store_inv by (simp_all add: data_ok_def)
  have pm': "pm' = pm\<lparr>pm_aof := (pm_aof pm)\<lparr>aof_open := True, aof_buffer := []\<rparr>\<rparr>"
    and b: "file_bytes d' (snapshotPath ?c) = SnapshotManager_save [] (store n)" "file_bytes d' (aofPath ?c) = []"
    and o: "can_open d' = can_open (node_disk n)"
    using assms(4) h
    by (auto simp: PersistenceManager_save_def saveToFile_def aof_reset_def aof_flush_def disk_simps Let_def)
  have "write_line (snapshot_line k v)" if "(k, v) \<in> set (entries (store n))" for k v
    using parse_snapshot_line [of k v] storable_entries(2) [OF st] that by (auto simp: write_line_def)
  then have "list_all write_line (getlines LF (SnapshotManager_save [] (store n)))"
    unfolding snapshot_lines [OF storable_entries(1) [OF st]] by (auto simp: list_all_iff)
  then show "log_ok (n\<lparr>node_disk := d', persistence := Some pm'\<rparr>)"
    using h by (simp add: log_ok_def Let_def pm' o aof_ok_def aof_logical_def b)
  show "log_map (n\<lparr>node_disk := d', persistence := Some pm'\<rparr>) = contents (store n)"
    using replay_snapshot_contents [OF st] h by (simp add: log_map_def pm' aof_logical_def b)
qed

lemma log_unaffected:
  assumes "persistence n' = persistence n" and "node_disk n' = node_disk n"
  shows "log_ok n' = log_ok n" and "log_map n' = log_map n"
  unfolding log_ok_def log_map_def assms by (rule refl)+

text \<open>Flushing and spilling do not change what the log says.\<close>

lemma same_log:
  assumes "log_ok n" and "persistence n = Some pm"
    and "aof_ok (d', w')" and "aof_logical (d', w') = aof_logical (node_disk n, pm_aof pm)"
    and "aof_path w' = aof_path (pm_aof pm)"
    and "can_open d' = can_open (node_disk n)"
    and "file_bytes d' (snapshotPath (pm_config pm)) = file_bytes (node_disk n) (snapshotPath (pm_config pm))"
  shows "log_ok (n\<lparr>node_disk := d', persistence := Some (pm\<lparr>pm_aof := w'\<rparr>)\<rparr>)"
    and "log_map (n\<lparr>node_disk := d', persistence := Some (pm\<lparr>pm_aof := w'\<rparr>)\<rparr>) = log_map n"
  using assms by (simp_all add: log_ok_def log_map_def Let_def)

lemma spill_flush_log:
  assumes "log_ok n" and "persistence n = Some pm"
    and "(d', w') = aof_spill k (node_disk n, pm_aof pm) \<or> (d', w') = aof_flush (node_disk n, pm_aof pm)"
  shows "log_ok (n\<lparr>node_disk := d', persistence := Some (pm\<lparr>pm_aof := w'\<rparr>)\<rparr>)"
    and "log_map (n\<lparr>node_disk := d', persistence := Some (pm\<lparr>pm_aof := w'\<rparr>)\<rparr>) = log_map n"
proof -
  have a: "aof_ok (node_disk n, pm_aof pm)" and ne: "aof_path (pm_aof pm) \<noteq> snapshotPath (pm_config pm)"
    using assms(1,2) by (auto simp: log_ok_def Let_def)
  have 1: "aof_ok (d', w')" and 2: "aof_logical (d', w') = aof_logical (node_disk n, pm_aof pm)"
    using assms(3) aof.ok_spill [OF a] aof.ok_flush [OF a] aof.logical_spill [OF a] aof.logical_flush [OF a]
    by metis+
  have 3: "aof_path w' = aof_path (pm_aof pm) \<and> can_open d' = can_open (node_disk n) \<and>
      file_bytes d' (snapshotPath (pm_config pm)) = file_bytes (node_disk n) (snapshotPath (pm_config pm))"
    using assms(3) ne by (auto simp: aof_spill_def aof_flush_def disk_simps split: if_splits)
  show "log_ok (n\<lparr>node_disk := d', persistence := Some (pm\<lparr>pm_aof := w'\<rparr>)\<rparr>)"
    and "log_map (n\<lparr>node_disk := d', persistence := Some (pm\<lparr>pm_aof := w'\<rparr>)\<rparr>) = log_map n"
    using same_log [OF assms(1,2) 1 2] 3 by simp_all
qed

section \<open>Executing and recording\<close>

lemma exec_reply_nonempty:
  "snd (exec_SET now cmd n) \<noteq> []" "snd (exec_GET cmd n) \<noteq> []" "snd (exec_DEL cmd n) \<noteq> []"
  "snd (incrementReply n k d) \<noteq> []" "snd (exec_TTL now cmd n) \<noteq> []" "snd (exec_EXPIRE now cmd n) \<noteq> []"
  "snd (exec_PERSIST cmd n) \<noteq> []" "snd (exec_SAVE cmd n) \<noteq> []" "snd (exec_REPLICAOF cmd n) \<noteq> []"
  by (simp_all add: exec_defs incrementReply_def arityError_def reply_first_byte [THEN conjunct1] Let_def
      split: list.splits option.splits prod.splits sum.splits)

lemma execute_reply_nonempty: "snd (execute now cmd n) \<noteq> []"
  by (simp add: execute_def Let_def exec_reply_nonempty arityError_def reply_first_byte [THEN conjunct1]
      split: CommandType.splits list.splits)

lemma record_node:
  "svr_node (recordAndPropagateIfWrite cmd line r s) =
    (if r \<noteq> [] \<and> \<not> is_error_reply r \<and> isWriteCommand (cmd_type cmd)
     then (svr_node s)\<lparr>persistence := map_option (\<lambda>pm. recordWrite pm line) (persistence (svr_node s))\<rparr>
     else svr_node s)"
  by (auto simp: recordAndPropagateIfWrite_def is_error_reply_def Let_def)

lemma data_ok_persistence [simp]: "data_ok (n\<lparr>persistence := p\<rparr>) = data_ok n"
  and data_ok_disk [simp]: "data_ok (n\<lparr>node_disk := d\<rparr>) = data_ok n"
  and data_ok_count [simp]: "data_ok (n\<lparr>totalCommands := c\<rparr>) = data_ok n"
  by (simp_all add: data_ok_def node_inv_def)

text \<open>What becomes of the log when a command is executed and recorded.\<close>

definition log_after :: "Command \<Rightarrow> string \<Rightarrow> node \<Rightarrow> (key \<rightharpoonup> val)" where
  "log_after cmd r n =
     (if is_error_reply r then log_map n
      else if cmd_type cmd = SAVE then contents (store n)
      else content_step cmd (log_map n))"

lemma exec_SAVE_log:
  assumes "data_ok n" and "log_ok n" and "\<not> is_error_reply (snd (exec_SAVE cmd n))"
  shows "log_ok (fst (exec_SAVE cmd n)) \<and> log_map (fst (exec_SAVE cmd n)) = contents (store n)"
proof -
  obtain pm where p: "persistence n = Some pm" using assms(2) by (auto simp: log_ok_def split: option.splits)
  obtain d' pm' where v: "PersistenceManager_save (node_disk n) pm (store n) = (d', pm')" by fastforce
  have a: "cmd_args cmd = []" using assms(3) by (auto simp: exec_SAVE_def split: if_splits)
  then have e: "fst (exec_SAVE cmd n) = n\<lparr>node_disk := d', persistence := Some pm'\<rparr>"
    by (simp add: exec_SAVE_def p v)
  show ?thesis unfolding e using save_log [OF assms(1,2) p v] by simp
qed

lemma execute_on_node:
  "execute_on now cmd s = (s1, r) \<Longrightarrow>
    svr_node s1 = fst (execute now cmd (svr_node s)) \<and> r = snd (execute now cmd (svr_node s)) \<and> r \<noteq> []"
  using execute_reply_nonempty [of now cmd "svr_node s"] by (auto simp: execute_on_def split: prod.splits)

lemma record_error_log:
  assumes "log_ok (svr_node s)" and "execute_on now cmd s = (s1, r)" and "is_error_reply r"
  shows "log_ok (svr_node (recordAndPropagateIfWrite cmd line r s1))"
    and "log_map (svr_node (recordAndPropagateIfWrite cmd line r s1)) = log_map (svr_node s)"
proof -
  let ?n2 = "svr_node (recordAndPropagateIfWrite cmd line r s1)"
  have "?n2 = (svr_node s)\<lparr>totalCommands := totalCommands (svr_node s) + 1\<rparr>"
    using execute_error_no_effect [of now cmd "svr_node s"] execute_on_node [OF assms(2)] assms(3)
    by (simp add: record_node)
  then show "log_ok ?n2" and "log_map ?n2 = log_map (svr_node s)"
    using assms(1) log_unaffected [of ?n2 "svr_node s"] by simp_all
qed

lemma record_save_log:
  assumes "data_ok (svr_node s)" and "log_ok (svr_node s)" and "execute_on now cmd s = (s1, r)"
    and "\<not> is_error_reply r" and "cmd_type cmd = SAVE"
  shows "log_ok (svr_node (recordAndPropagateIfWrite cmd line r s1))"
    and "log_map (svr_node (recordAndPropagateIfWrite cmd line r s1)) = contents (store (svr_node s))"
proof -
  let ?m = "(svr_node s)\<lparr>totalCommands := totalCommands (svr_node s) + 1\<rparr>"
  have x: "execute now cmd (svr_node s) = exec_SAVE cmd ?m" using assms(5) by (simp add: execute_def Let_def)
  have lm: "log_ok ?m" using assms(2) log_unaffected [of ?m "svr_node s"] by simp
  have "\<not> is_error_reply (snd (exec_SAVE cmd ?m))" using assms(4) execute_on_node [OF assms(3)] by (simp add: x)
  from exec_SAVE_log [OF _ lm this] assms(1)
  have "log_ok (fst (exec_SAVE cmd ?m)) \<and> log_map (fst (exec_SAVE cmd ?m)) = contents (store (svr_node s))" by simp
  moreover have "svr_node (recordAndPropagateIfWrite cmd line r s1) = fst (exec_SAVE cmd ?m)"
    using assms(5) execute_on_node [OF assms(3)] by (simp add: record_node x)
  ultimately show "log_ok (svr_node (recordAndPropagateIfWrite cmd line r s1))"
    and "log_map (svr_node (recordAndPropagateIfWrite cmd line r s1)) = contents (store (svr_node s))" by simp_all
qed

lemma record_other_log:
  assumes "log_ok (svr_node s)" and "parse line = Inr cmd" and "LF \<notin> set line"
    and "execute_on now cmd s = (s1, r)" and "\<not> is_error_reply r" and "cmd_type cmd \<noteq> SAVE"
  shows "log_ok (svr_node (recordAndPropagateIfWrite cmd line r s1))"
    and "log_map (svr_node (recordAndPropagateIfWrite cmd line r s1)) = content_step cmd (log_map (svr_node s))"
proof -
  let ?n1 = "svr_node s1" and ?n2 = "svr_node (recordAndPropagateIfWrite cmd line r s1)"
  have "persistence ?n1 = persistence (svr_node s) \<and> node_disk ?n1 = node_disk (svr_node s)"
    using execute_keeps_files [OF assms(6)] execute_on_node [OF assms(4)] by simp
  then have l1: "log_ok ?n1" and m1: "log_map ?n1 = log_map (svr_node s)"
    using log_unaffected [of ?n1 "svr_node s"] assms(1) by simp_all
  obtain pm where pm: "persistence ?n1 = Some pm" using l1 by (auto simp: log_ok_def split: option.splits)
  have "log_ok ?n2 \<and> log_map ?n2 = content_step cmd (log_map (svr_node s))"
  proof (cases "isWriteCommand (cmd_type cmd)")
    case True
    then have wl: "write_line line" by (simp add: write_line_def assms(2))
    have "?n2 = ?n1\<lparr>persistence := Some (recordWrite pm line)\<rparr>"
      using True assms(5) execute_on_node [OF assms(4), THEN conjunct2, THEN conjunct2] pm by (simp add: record_node)
    with recordWrite_log [OF l1 pm assms(3) wl] show ?thesis by (simp add: assms(2) m1)
  next
    case False
    with l1 m1 content_step_read [OF False] show ?thesis by (simp add: record_node)
  qed
  then show "log_ok ?n2" and "log_map ?n2 = content_step cmd (log_map (svr_node s))" by simp_all
qed

lemma exec_record:
  assumes d: "data_ok (svr_node s)" and l: "log_ok (svr_node s)"
    and p: "parse line = Inr cmd" and sl: "safe_line line"
    and e: "execute_on now cmd s = (s1, r)" and s2: "s2 = recordAndPropagateIfWrite cmd line r s1"
  shows "data_ok (svr_node s2)" and "log_ok (svr_node s2)"
    and "contents (store (svr_node s2)) = content_step cmd (contents (store (svr_node s)))"
    and "log_map (svr_node s2) = log_after cmd r (svr_node s)"
    and "is_error_reply r \<longrightarrow> contents (store (svr_node s2)) = contents (store (svr_node s))"
proof -
  have len: "length line \<le> 8172" and lf: "LF \<notin> set line" using sl by (simp_all add: safe_line_def)
  note n1 = execute_on_node [OF e]
  show "data_ok (svr_node s2)"
    and "contents (store (svr_node s2)) = content_step cmd (contents (store (svr_node s)))"
    using execute_data_ok [OF d p len, of now] n1 by (simp_all add: s2 record_node)
  show "is_error_reply r \<longrightarrow> contents (store (svr_node s2)) = contents (store (svr_node s))"
    using execute_error_no_effect [of now cmd "svr_node s"] n1 by (simp add: s2 record_node)
  show "log_ok (svr_node s2)"
    unfolding s2 using record_error_log(1) [OF l e] record_save_log(1) [OF d l e] record_other_log(1) [OF l p lf e] by blast
  show "log_map (svr_node s2) = log_after cmd r (svr_node s)"
    unfolding s2 log_after_def
    using record_error_log(2) [OF l e] record_save_log(2) [OF d l e] record_other_log(2) [OF l p lf e] by simp
qed

end
