(* ===== verification/Log_Agreement.thy ===== *)
theory Log_Agreement
  imports Server_Durability
begin

text \<open>
  How far the lines a server writes down (in its log, or to a replica) speak for its data. Where nothing expires they
  replay to the data exactly; where keys expire, which is written down nowhere, they know at least every value there is,
  provided that no counters are used. The locale \<open>lagging_log\<close> states what both relations have in common; its
  clients are the durability of a server, of its threads, replication, and the life of a cluster.
\<close>

section \<open>A command touches one key\<close>

lemma content_step_other: "k \<noteq> cmd_key cmd \<Longrightarrow> content_step cmd m k = m k"
  unfolding content_step_def cmd_key_def
  by (cases "cmd_type cmd"; cases "cmd_args cmd" rule: args_cases;
      simp add: spec_incr_def split: option.split sum.split)

lemma content_step_local:
  "m (cmd_key cmd) = m' (cmd_key cmd) \<Longrightarrow> content_step cmd m (cmd_key cmd) = content_step cmd m' (cmd_key cmd)"
  unfolding content_step_def cmd_key_def
  by (cases "cmd_type cmd"; cases "cmd_args cmd" rule: args_cases;
      simp add: spec_incr_def split: option.split sum.split)

section \<open>Lines and relations\<close>

text \<open>Lines that leave room for numbers and hold commands of a kind.\<close>

definition line_of :: "(Command \<Rightarrow> bool) \<Rightarrow> wire_line \<Rightarrow> bool" where
  "line_of usable line \<longleftrightarrow> safe_line line \<and> (case parse line of Inl e \<Rightarrow> True | Inr cmd \<Rightarrow> usable cmd)"

lemma line_of_any [simp]: "line_of (\<lambda>cmd. True) line = safe_line line"
  by (simp add: line_of_def split: sum.split)

lemma line_of_safe: "line_of usable line \<Longrightarrow> safe_line line"
  by (simp add: line_of_def)

text \<open>Commands whose effect on a key does not depend on its old value.\<close>

definition no_counter :: "Command \<Rightarrow> bool" where
  "no_counter cmd \<longleftrightarrow> cmd_type cmd \<notin> {INCR, DECR}"

definition agree_maps :: "(val option \<Rightarrow> val option \<Rightarrow> bool) \<Rightarrow> (key \<rightharpoonup> val) \<Rightarrow> (key \<rightharpoonup> val) \<Rightarrow> bool" where
  "agree_maps agrees m m' \<longleftrightarrow> (\<forall>k. agrees (m k) (m' k))"

text \<open>The values there are, are known.\<close>

definition all_logged :: "val option \<Rightarrow> val option \<Rightarrow> bool" where
  "all_logged a b \<longleftrightarrow> a = None \<or> a = b"

lemma agree_maps_eq [simp]: "agree_maps (=) m m' \<longleftrightarrow> m = m'"
  by (auto simp: agree_maps_def)

lemma agree_maps_le [simp]: "agree_maps all_logged m m' \<longleftrightarrow> m \<subseteq>\<^sub>m m'"
  by (auto simp: agree_maps_def all_logged_def map_le_def dom_def) (metis not_None_eq)

section \<open>The interface\<close>

text \<open>
  A relation between a value and what the lines know of it, the commands that respect it, and whether values
  may vanish.
\<close>

locale lagging_log =
  fixes agrees :: "val option \<Rightarrow> val option \<Rightarrow> bool"
    and usable :: "Command \<Rightarrow> bool"
    and expiring :: bool
  assumes follows: "usable cmd \<Longrightarrow> agrees (m (cmd_key cmd)) (m' (cmd_key cmd)) \<Longrightarrow>
      agrees (content_step cmd m (cmd_key cmd)) (content_step cmd m' (cmd_key cmd))"
    and vanished: "expiring \<Longrightarrow> agrees None x"
    and same: "agrees x x"
    and harmless: "\<not> isWriteCommand (cmd_type cmd) \<Longrightarrow> usable cmd"
begin

lemma agree_same: "agree_maps agrees m m"
  by (simp add: agree_maps_def same)

lemma agree_step: "usable cmd \<Longrightarrow> agree_maps agrees m m' \<Longrightarrow> agree_maps agrees (content_step cmd m) (content_step cmd m')"
  unfolding agree_maps_def using follows content_step_other by metis

lemma agree_vanished: "expiring \<Longrightarrow> agree_maps agrees m m' \<Longrightarrow> agree_maps agrees (m(k := None)) m'"
  by (simp add: agree_maps_def vanished)

end

interpretation exact_log: lagging_log "(=)" "\<lambda>cmd. True" False
  by unfold_locales (erule content_step_local, simp_all)

interpretation covering_log: lagging_log all_logged no_counter True
proof unfold_locales
  fix cmd :: Command and m m' :: "key \<rightharpoonup> val"
  assume "no_counter cmd" and "all_logged (m (cmd_key cmd)) (m' (cmd_key cmd))"
  then show "all_logged (content_step cmd m (cmd_key cmd)) (content_step cmd m' (cmd_key cmd))"
    unfolding content_step_def cmd_key_def
    by (cases "cmd_type cmd"; cases "cmd_args cmd" rule: args_cases;
        auto simp: all_logged_def no_counter_def split: option.split)
qed (auto simp: all_logged_def no_counter_def)

end
