(* ===== verification/Durability_Theorems.thy ===== *)
theory Durability_Theorems
  imports Log_Agreement
begin

text \<open>
  The durability theorems of the server: what a restart finds after any sequence of events, what
  it finds after a crash, and the three ways in which the log and the data part company
  (expiry, which is not logged; a torn last line, which swallows the next write; and writes that
  are logged in another order than they were executed).
\<close>

section \<open>Events\<close>

datatype event =
    Request fd nanos wire_line
  | FromPrimary nanos wire_line
  | Background bg_task
  | Spill nat
  | Expired key

text \<open>What the sweeper does with a key that is due: it takes the deadline, then the callback deletes the key.\<close>

definition sweep_out :: "key \<Rightarrow> server \<Rightarrow> server" where
  "sweep_out k s =
     (let m = expiry (svr_node s);
          m' = (case Mapping.lookup (exp_current m) k of None \<Rightarrow> m
                | Some w \<Rightarrow> m\<lparr>exp_heap := exp_heap m - {#(w, k)#}, exp_current := Mapping.delete k (exp_current m)\<rparr>)
      in on_expire k (s\<lparr>svr_node := (svr_node s)\<lparr>expiry := m'\<rparr>\<rparr>))"

fun run_event :: "event \<Rightarrow> server \<Rightarrow> server" where
  "run_event (Request fd now line) s = fst (handle_line now fd line s)"
| "run_event (FromPrimary now line) s = apply_line now line s"
| "run_event (Background t) s = background t s"
| "run_event (Spill k) s = spill_log k s"
| "run_event (Expired k) s = sweep_out k s"

definition run_events :: "event list \<Rightarrow> server \<Rightarrow> server" where
  "run_events es s = fold run_event es s"

text \<open>Requests of \<open>usable\<close> commands, and expiry only where \<open>expiring\<close>; in particular any commands and no expiry, or expiry and no counters.\<close>

fun usable_event :: "(Command \<Rightarrow> bool) \<Rightarrow> bool \<Rightarrow> event \<Rightarrow> bool" where
  "usable_event usable expiring (Request fd now line) \<longleftrightarrow> line_of usable line"
| "usable_event usable expiring (FromPrimary now line) \<longleftrightarrow> line_of usable line"
| "usable_event usable expiring (Background t) \<longleftrightarrow> True"
| "usable_event usable expiring (Spill k) \<longleftrightarrow> True"
| "usable_event usable expiring (Expired k) \<longleftrightarrow> expiring"

abbreviation safe_event :: "event \<Rightarrow> bool" where
  "safe_event \<equiv> usable_event (\<lambda>cmd. True) False"

abbreviation plain_event :: "event \<Rightarrow> bool" where
  "plain_event \<equiv> usable_event no_counter True"

section \<open>One event\<close>

definition sound :: "server \<Rightarrow> bool" where
  "sound s \<longleftrightarrow> data_ok (svr_node s) \<and> log_ok (svr_node s)"

text \<open>
  An event either executes and records a command, or leaves data and log alone, or saves the
  data, or removes one key from the data only.
\<close>

definition live :: "server \<Rightarrow> (key \<rightharpoonup> val)" where
  "live s = contents (store (svr_node s))"

definition logged :: "server \<Rightarrow> (key \<rightharpoonup> val)" where
  "logged s = log_map (svr_node s)"

inductive effect :: "server \<Rightarrow> server \<Rightarrow> wire_line option \<Rightarrow> bool" where
  eff_command: "sound s' \<Longrightarrow> parse line = Inr cmd \<Longrightarrow> live s' = content_step cmd (live s) \<Longrightarrow>
    logged s' = content_step cmd (logged s) \<Longrightarrow> effect s s' (Some line)"
| eff_none: "sound s' \<Longrightarrow> live s' = live s \<Longrightarrow> logged s' = logged s \<Longrightarrow> effect s s' l"
| eff_save: "sound s' \<Longrightarrow> live s' = live s \<Longrightarrow> logged s' = live s \<Longrightarrow> effect s s' l"

lemma sound_reply: "sound (fst (reply_with fd r s)) = sound s" "live (fst (reply_with fd r s)) = live s"
  "logged (fst (reply_with fd r s)) = logged s"
  by (simp_all add: reply_with_def write_reply_def sound_def live_def logged_def split: prod.splits)

lemma effect_executed:
  assumes "sound s" and "parse line = Inr cmd" and "safe_line line" and "execute_on now cmd s = (s1, r)"
  shows "effect s (recordAndPropagateIfWrite cmd line r s1) (Some line)"
proof -
  let ?s2 = "recordAndPropagateIfWrite cmd line r s1"
  have h: "data_ok (svr_node s)" "log_ok (svr_node s)" using assms(1) by (simp_all add: sound_def)
  note e = exec_record [OF h assms(2,3,4) refl]
  have snd2: "sound ?s2" using e(1,2) by (simp add: sound_def)
  consider (err) "is_error_reply r" | (save) "\<not> is_error_reply r" "cmd_type cmd = SAVE"
    | (ok) "\<not> is_error_reply r" "cmd_type cmd \<noteq> SAVE" by blast
  then show ?thesis
  proof cases
    case err
    then show ?thesis
      using e(4,5) by (intro eff_none [OF snd2]) (simp_all add: live_def logged_def log_after_def)
  next
    case save
    then have "\<not> isWriteCommand (cmd_type cmd)" by simp
    with save show ?thesis
      using e(3,4) content_step_read
      by (intro eff_save [OF snd2]) (simp_all add: live_def logged_def log_after_def)
  next
    case ok
    then show ?thesis
      using e(3,4) by (intro eff_command [OF snd2 assms(2)]) (simp_all add: live_def logged_def log_after_def)
  qed
qed

lemma effect_reply: "effect s (fst (reply_with fd r s')) l = effect s s' l"
  by (simp add: effect.simps sound_reply)

lemma effect_request:
  assumes "sound s" and "safe_line line"
  shows "effect s (fst (handle_line now fd line s)) (Some line)"
proof (cases "parse line")
  case (Inl e)
  then show ?thesis
    using assms(1) by (cases e) (auto simp: handle_line_def effect_reply intro: eff_none)
next
  case (Inr cmd)
  obtain s1 r where e: "execute_on now cmd s = (s1, r)" by fastforce
  show ?thesis
    using effect_executed [OF assms(1) Inr assms(2) e] Inr e assms(1)
    by (auto simp: handle_line_def effect_reply intro: eff_none)
qed

lemma effect_apply:
  assumes "sound s" and "safe_line line"
  shows "effect s (apply_line now line s) (Some line)"
proof (cases "parse line")
  case (Inl e)
  then show ?thesis using assms(1) by (auto simp: apply_line_def intro: eff_none)
next
  case (Inr cmd)
  obtain s1 r where e: "execute_on now cmd s = (s1, r)" by fastforce
  show ?thesis
    using effect_executed [OF assms(1) Inr assms(2) e] by (simp add: apply_line_def Inr e)
qed

lemma effect_background: "sound s \<Longrightarrow> effect s (background t s) l"
proof -
  assume s: "sound s"
  then have d: "data_ok (svr_node s)" and lo: "log_ok (svr_node s)" by (simp_all add: sound_def)
  from lo obtain pm where p: "persistence (svr_node s) = Some pm" by (auto simp: log_ok_def split: option.splits)
  show ?thesis
  proof (cases t)
    case FlushTask
    obtain d' w' where f: "aof_flush (node_disk (svr_node s), pm_aof pm) = (d', w')" by fastforce
    show ?thesis
      using spill_flush_log [OF lo p, of d' w'] f d FlushTask p
      by (intro eff_none) (simp_all add: sound_def live_def logged_def background_def run_bg_task_def)
  next
    case SaveTask
    obtain d' pm' where f: "PersistenceManager_save (node_disk (svr_node s)) pm (store (svr_node s)) = (d', pm')"
      by fastforce
    show ?thesis
      using save_log [OF d lo p f] f d SaveTask p
      by (intro eff_save) (simp_all add: sound_def live_def logged_def background_def run_bg_task_def)
  qed
qed

lemma effect_spill: "sound s \<Longrightarrow> effect s (spill_log k s) l"
proof -
  assume s: "sound s"
  then have d: "data_ok (svr_node s)" and lo: "log_ok (svr_node s)" by (simp_all add: sound_def)
  from lo obtain pm where p: "persistence (svr_node s) = Some pm" by (auto simp: log_ok_def split: option.splits)
  obtain d' w' where f: "aof_spill k (node_disk (svr_node s), pm_aof pm) = (d', w')" by fastforce
  show ?thesis
    using spill_flush_log [OF lo p, of d' w' k] f d p
    by (intro eff_none) (simp_all add: sound_def live_def logged_def spill_log_def)
qed

lemma expire_data:
  assumes "data_ok (svr_node s)"
  shows "data_ok (svr_node (on_expire k s))" and "live (on_expire k s) = (live s)(k := None)"
proof -
  let ?n = "svr_node s"
  have i: "store_inv (store ?n)" using assms by (rule data_ok_store_inv)
  have c: "contents (fst (kv_del (store ?n) k)) = (contents (store ?n))(k := None)"
    using kv_del_result [OF i, of k] by auto
  show "data_ok (svr_node (on_expire k s))"
    using assms c store_inv_del [OF i] storable_del by (simp add: data_ok_def node_inv_def on_expire_def)
  show "live (on_expire k s) = (live s)(k := None)" using c by (simp add: live_def on_expire_def)
qed

lemma expire_effect:
  assumes "sound s"
  shows "sound (on_expire k s) \<and> live (on_expire k s) = (live s)(k := None) \<and> logged (on_expire k s) = logged s"
  using assms expire_data [of s k] log_unaffected [of "svr_node (on_expire k s)" "svr_node s"]
  by (simp add: sound_def logged_def on_expire_def)

lemma expiry_changed:
  assumes "data_ok (svr_node s)" and "heap_covers m" and "s' = s\<lparr>svr_node := (svr_node s)\<lparr>expiry := m\<rparr>\<rparr>"
  shows "data_ok (svr_node s')" and "live s' = live s" and "log_ok (svr_node s') = log_ok (svr_node s)" and "logged s' = logged s"
  using assms log_unaffected [of "svr_node s'" "svr_node s"]
  by (simp_all add: data_ok_def node_inv_def live_def logged_def)

lemma sweep_out_heap:
  assumes "heap_covers m" and "Mapping.lookup (exp_current m) k = Some w"
  shows "heap_covers (m\<lparr>exp_heap := exp_heap m - {#(w, k)#}, exp_current := Mapping.delete k (exp_current m)\<rparr>)"
proof (rule heap_coversI)
  fix j v
  assume "Mapping.lookup (exp_current (m\<lparr>exp_heap := exp_heap m - {#(w, k)#}, exp_current := Mapping.delete k (exp_current m)\<rparr>)) j = Some v"
  then have "j \<noteq> k" "Mapping.lookup (exp_current m) j = Some v" by (auto simp: lookup_delete_if split: if_splits)
  with heap_coversD [OF assms(1), of j v]
  show "(v, j) \<in># exp_heap (m\<lparr>exp_heap := exp_heap m - {#(w, k)#}, exp_current := Mapping.delete k (exp_current m)\<rparr>)"
    by (simp add: in_diff_count)
qed

lemma sweep_out_data:
  assumes "data_ok (svr_node s)"
  shows "data_ok (svr_node (sweep_out k s))" and "live (sweep_out k s) = (live s)(k := None)"
    and "log_ok (svr_node (sweep_out k s)) = log_ok (svr_node s)" and "logged (sweep_out k s) = logged s"
proof -
  let ?m = "expiry (svr_node s)"
  let ?m' = "case Mapping.lookup (exp_current ?m) k of None \<Rightarrow> ?m
      | Some w \<Rightarrow> ?m\<lparr>exp_heap := exp_heap ?m - {#(w, k)#}, exp_current := Mapping.delete k (exp_current ?m)\<rparr>"
  let ?s = "s\<lparr>svr_node := (svr_node s)\<lparr>expiry := ?m'\<rparr>\<rparr>"
  have so: "sweep_out k s = on_expire k ?s" by (simp add: sweep_out_def Let_def)
  have "heap_covers ?m" using assms by (simp add: data_ok_def node_inv_def)
  then have "heap_covers ?m'" using sweep_out_heap by (simp split: option.split)
  note c = expiry_changed [OF assms this refl]
  show "data_ok (svr_node (sweep_out k s))" "live (sweep_out k s) = (live s)(k := None)" using expire_data [OF c(1), of k] c(2) so by simp_all
  show "log_ok (svr_node (sweep_out k s)) = log_ok (svr_node s)" "logged (sweep_out k s) = logged s"
    using log_unaffected [of "svr_node (sweep_out k s)" "svr_node ?s"] c(3,4) by (simp_all add: so on_expire_def logged_def)
qed

section \<open>Runs\<close>

text \<open>Data and log of a server, in the sense of a relation of \<open>lagging_log\<close>.\<close>

definition tracks :: "(val option \<Rightarrow> val option \<Rightarrow> bool) \<Rightarrow> server \<Rightarrow> bool" where
  "tracks agrees s \<longleftrightarrow> sound s \<and> agree_maps agrees (live s) (logged s)"

lemma event_effect:
  assumes "sound s" and "usable_event usable expiring e" and "\<And>k. e \<noteq> Expired k"
  shows "\<exists>l. effect s (run_event e s) l \<and> (\<forall>line. l = Some line \<longrightarrow> line_of usable line)"
proof (cases e)
  case (Request fd now line)
  with effect_request [OF assms(1)] assms(2) line_of_safe show ?thesis by (intro exI [of _ "Some line"]) simp
next
  case (FromPrimary now line)
  with effect_apply [OF assms(1)] assms(2) line_of_safe show ?thesis by (intro exI [of _ "Some line"]) simp
qed (use assms effect_background effect_spill in \<open>auto intro!: exI [of _ None]\<close>)

lemma effect_storable:
  "effect s s' l \<Longrightarrow> (\<And>line. l = Some line \<Longrightarrow> safe_line line) \<Longrightarrow> sound s \<Longrightarrow> storable (logged s) \<Longrightarrow> storable (logged s')"
proof (induction rule: effect.induct)
  case (eff_command s' line cmd s)
  then show ?case using content_step_storable [OF eff_command(2)] by (simp add: safe_line_def)
qed (simp_all add: sound_def data_ok_def live_def)

context lagging_log
begin

lemma effect_tracks:
  "effect s s' l \<Longrightarrow> (\<And>line. l = Some line \<Longrightarrow> line_of usable line) \<Longrightarrow> agree_maps agrees (live s) (logged s) \<Longrightarrow> tracks agrees s'"
proof (induction rule: effect.induct)
  case (eff_command s' line cmd s)
  then have "usable cmd" using eff_command(2) by (auto simp: line_of_def)
  with eff_command agree_step show ?case by (simp add: tracks_def)
qed (simp_all add: tracks_def agree_same)

lemma tracks_event:
  assumes "tracks agrees s" and "usable_event usable expiring e"
  shows "tracks agrees (run_event e s)" and "storable (logged s) \<Longrightarrow> storable (logged (run_event e s))"
proof -
  have so: "sound s" and a: "agree_maps agrees (live s) (logged s)" using assms(1) by (simp_all add: tracks_def)
  have "tracks agrees (run_event e s) \<and> (storable (logged s) \<longrightarrow> storable (logged (run_event e s)))"
  proof (cases "\<exists>k. e = Expired k")
    case True
    then obtain k where k: "e = Expired k" by blast
    have d: "data_ok (svr_node s)" using so by (simp add: sound_def)
    then show ?thesis
      using so a agree_vanished assms(2) k sweep_out_data [OF d, of k] by (simp add: tracks_def sound_def)
  next
    case False
    with event_effect [OF so assms(2)] obtain l where l: "effect s (run_event e s) l" "\<forall>line. l = Some line \<longrightarrow> line_of usable line"
      by blast
    have "tracks agrees (run_event e s)" using effect_tracks [OF l(1) _ a] l(2) by blast
    moreover have "storable (logged s) \<longrightarrow> storable (logged (run_event e s))"
      using effect_storable [OF l(1) _ so] l(2) line_of_safe by blast
    ultimately show ?thesis by simp
  qed
  then show "tracks agrees (run_event e s)" and "storable (logged s) \<Longrightarrow> storable (logged (run_event e s))" by simp_all
qed

lemma tracks_run: "tracks agrees s \<Longrightarrow> list_all (usable_event usable expiring) es \<Longrightarrow> tracks agrees (run_events es s)"
  by (induction es arbitrary: s) (simp_all add: run_events_def tracks_event(1))

end

lemma run_exact:
  "sound s \<Longrightarrow> live s = logged s \<Longrightarrow> list_all safe_event es \<Longrightarrow>
    sound (run_events es s) \<and> live (run_events es s) = logged (run_events es s)"
  using exact_log.tracks_run [of s es] by (simp add: tracks_def)

lemma run_plain:
  "sound s \<Longrightarrow> live s \<subseteq>\<^sub>m logged s \<Longrightarrow> list_all plain_event es \<Longrightarrow>
    sound (run_events es s) \<and> live (run_events es s) \<subseteq>\<^sub>m logged (run_events es s)"
  using covering_log.tracks_run [of s es] by (simp add: tracks_def)

section \<open>Restarting\<close>

lemma write_keeps_replication: "isWriteCommand (cmd_type cmd) \<Longrightarrow> replication (fst (execute now cmd n)) = replication n"
  by (cases "cmd_type cmd") (simp_all add: execute_def Let_def exec_registry split: list.split)

lemma replay_keeps_files:
  "list_all write_line lines \<Longrightarrow> persistence (replay_from clk i lines n) = persistence n \<and>
    node_disk (replay_from clk i lines n) = node_disk n \<and> replication (replay_from clk i lines n) = replication n"
proof (induction clk i lines n rule: replay_from.induct)
  case (2 clk i line rest n)
  show ?case
  proof (cases "line = [] \<or> (\<exists>e. parse line = Inl e)")
    case True
    with 2 show ?thesis by (auto simp: parse_Nil)
  next
    case False
    then obtain cmd where p: "parse line = Inr cmd" by (cases "parse line") auto
    with 2 have w: "isWriteCommand (cmd_type cmd)" by (simp add: write_line_def)
    then have "cmd_type cmd \<noteq> SAVE" by auto
    with 2 False p execute_keeps_files write_keeps_replication [OF w] show ?thesis by simp
  qed
qed simp

lemma loaded:
  assumes "node_inv n" and "kv_capacity (store n) = 0"
    and "n' = fst (loadFromFile clk p n) \<or> n' = fst (AofLoader_replay clk p n)"
  shows "node_inv n' \<and> kv_capacity (store n') = 0 \<and>
    contents (store n') = replay_map (getlines LF (file_bytes (node_disk n) p)) (contents (store n)) \<and>
    (list_all write_line (getlines LF (file_bytes (node_disk n) p)) \<longrightarrow>
      persistence n' = persistence n \<and> node_disk n' = node_disk n \<and> replication n' = replication n)"
proof (cases "read_file (node_disk n) p")
  case None
  then show ?thesis using assms by (auto simp: loadFromFile_def AofLoader_replay_def file_bytes_def)
next
  case (Some bytes)
  then have b: "file_bytes (node_disk n) p = bytes" by (simp add: file_bytes_def)
  have n': "n' = replayLines clk bytes n"
    using assms(3) Some by (auto simp: loadFromFile_def AofLoader_replay_def SnapshotManager_load_def)
  have "list_all write_line (getlines LF bytes) \<longrightarrow>
      persistence n' = persistence n \<and> node_disk n' = node_disk n \<and> replication n' = replication n"
    using replay_keeps_files [of "getlines LF bytes" clk 0 n] by (simp add: n' replayLines_def)
  with assms(1,2) replayLines_inv [of n clk bytes] replayLines_contents [of n clk bytes] show ?thesis
    by (simp add: n' b)
qed

text \<open>The files are as a server leaves them: two openable files of write commands.\<close>

definition disk_ok :: "PersistenceConfig \<Rightarrow> disk \<Rightarrow> bool" where
  "disk_ok c d \<longleftrightarrow> appendOnly c \<and> aofPath c \<noteq> snapshotPath c \<and> can_open d (aofPath c) \<and>
     can_open d (snapshotPath c) \<and> list_all write_line (getlines LF (file_bytes d (aofPath c))) \<and>
     list_all write_line (getlines LF (file_bytes d (snapshotPath c)))"

definition disk_map :: "PersistenceConfig \<Rightarrow> disk \<Rightarrow> (key \<rightharpoonup> val)" where
  "disk_map c d = replay_map (getlines LF (file_bytes d (aofPath c)))
     (replay_map (getlines LF (file_bytes d (snapshotPath c))) Map.empty)"

lemma boot_node:
  assumes "appendOnly c" and "can_open d (aofPath c)"
    and "list_all write_line (getlines LF (file_bytes d (snapshotPath c)))"
  shows "contents (store (boot clk1 clk2 0 c d)) = disk_map c d"
    and "node_inv (boot clk1 clk2 0 c d)" and "kv_capacity (store (boot clk1 clk2 0 c d)) = 0"
    and "list_all write_line (getlines LF (file_bytes d (aofPath c))) \<Longrightarrow> persistence (boot clk1 clk2 0 c d) =
      Some \<lparr>pm_config = c, pm_aof = \<lparr>aof_path = aofPath c, aof_open = True, aof_buffer = []\<rparr>\<rparr>"
    and "list_all write_line (getlines LF (file_bytes d (aofPath c))) \<Longrightarrow>
      node_disk (boot clk1 clk2 0 c d) = write_file d (aofPath c) (file_bytes d (aofPath c))"
    and "list_all write_line (getlines LF (file_bytes d (aofPath c))) \<Longrightarrow> replication (boot clk1 clk2 0 c d) = Some new_ReplicationManager"
proof -
  let ?d = "write_file d (aofPath c) (file_bytes d (aofPath c))"
  let ?pm = "\<lparr>pm_config = c, pm_aof = \<lparr>aof_path = aofPath c, aof_open = True, aof_buffer = []\<rparr>\<rparr>"
  let ?n = "setReplication new_ReplicationManager (setPersistence ?pm (new_node 0 ?d))"
  let ?n1 = "fst (loadFromFile clk1 (snapshotPath c) ?n)" and ?b = "boot clk1 clk2 0 c d"
  have b: "?b = fst (AofLoader_replay clk2 (aofPath c) ?n1)"
    using assms by (simp add: boot_def new_PersistenceManager_def new_AofWriter_def recover_def split_beta)
  have i: "node_inv ?n" by (simp add: node_inv_def setReplication_def setPersistence_def new_node_def store_inv_new)
  have z: "kv_capacity (store ?n) = 0" "persistence ?n = Some ?pm" "node_disk ?n = ?d"
    "contents (store ?n) = Map.empty" "replication ?n = Some new_ReplicationManager"
    by (simp_all add: setReplication_def setPersistence_def new_node_def contents_def entries_new)
  have f: "file_bytes ?d (aofPath c) = file_bytes d (aofPath c)"
    "file_bytes ?d (snapshotPath c) = file_bytes d (snapshotPath c)"
    by (simp_all add: disk_simps)
  note l1 = loaded [OF i z(1), of ?n1 clk1 "snapshotPath c", unfolded z f, simplified]
  have l1': "persistence ?n1 = Some ?pm" "node_disk ?n1 = ?d" "replication ?n1 = Some new_ReplicationManager" using l1 assms(3) by simp_all
  note l2 = loaded [of ?n1 ?b clk2 "aofPath c", unfolded l1' f]
  show "contents (store ?b) = disk_map c d" and "node_inv ?b" and "kv_capacity (store ?b) = 0"
    and "list_all write_line (getlines LF (file_bytes d (aofPath c))) \<Longrightarrow> persistence ?b = Some ?pm"
    and "list_all write_line (getlines LF (file_bytes d (aofPath c))) \<Longrightarrow> node_disk ?b = ?d"
    and "list_all write_line (getlines LF (file_bytes d (aofPath c))) \<Longrightarrow> replication ?b = Some new_ReplicationManager"
    using l1 l2 b by (simp_all add: disk_map_def)
qed

lemma boot_sound:
  assumes "disk_ok c d" and "storable (disk_map c d)"
    and "unlines (getlines LF (file_bytes d (aofPath c))) = file_bytes d (aofPath c)"
  shows "sound \<lparr>svr_node = boot clk1 clk2 0 c d, svr_socks = k\<rparr>"
    and "live \<lparr>svr_node = boot clk1 clk2 0 c d, svr_socks = k\<rparr> = disk_map c d"
    and "logged \<lparr>svr_node = boot clk1 clk2 0 c d, svr_socks = k\<rparr> = disk_map c d"
proof -
  have d: "appendOnly c" "aofPath c \<noteq> snapshotPath c" "can_open d (aofPath c)" "can_open d (snapshotPath c)"
    "list_all write_line (getlines LF (file_bytes d (aofPath c)))"
    "list_all write_line (getlines LF (file_bytes d (snapshotPath c)))"
    using assms(1) by (simp_all add: disk_ok_def)
  note b = boot_node [OF d(1,3,6), of clk1 clk2]
  show "sound \<lparr>svr_node = boot clk1 clk2 0 c d, svr_socks = k\<rparr>"
    using b d assms(2,3)
    by (simp add: sound_def data_ok_def log_ok_def Let_def aof_ok_def aof_logical_def disk_simps)
  show "live \<lparr>svr_node = boot clk1 clk2 0 c d, svr_socks = k\<rparr> = disk_map c d"
    using b by (simp add: live_def)
  show "logged \<lparr>svr_node = boot clk1 clk2 0 c d, svr_socks = k\<rparr> = disk_map c d"
    using b d by (simp add: logged_def log_map_def aof_logical_def disk_simps disk_map_def)
qed

definition svr_config :: "server \<Rightarrow> PersistenceConfig" where
  "svr_config s = (case persistence (svr_node s) of None \<Rightarrow> default_PersistenceConfig | Some pm \<Rightarrow> pm_config pm)"

text \<open>After a flush the disk says what the log says.\<close>

lemma flushed_disk:
  assumes "sound s" and "s' = background FlushTask s" and "d = node_disk (svr_node s')"
  shows "sound s'" and "live s' = live s" and "logged s' = logged s" and "disk_ok (svr_config s) d"
    and "disk_map (svr_config s) d = logged s"
    and "unlines (getlines LF (file_bytes d (aofPath (svr_config s)))) = file_bytes d (aofPath (svr_config s))"
proof -
  have lo: "log_ok (svr_node s)" using assms(1) by (simp add: sound_def)
  then obtain pm where p: "persistence (svr_node s) = Some pm" by (auto simp: log_ok_def split: option.splits)
  obtain d' w' where f: "aof_flush (node_disk (svr_node s), pm_aof pm) = (d', w')" by fastforce
  have s': "svr_node s' = (svr_node s)\<lparr>node_disk := d', persistence := Some (pm\<lparr>pm_aof := w'\<rparr>)\<rparr>"
    by (simp add: assms(2) background_def p run_bg_task_def f)
  have lo': "log_ok (svr_node s')" and lm: "logged s' = logged s"
    using spill_flush_log [OF lo p, of d' w'] f unfolding s' logged_def by simp_all
  show "sound s'" using assms(1) lo' unfolding s' by (simp add: sound_def s')
  show "live s' = live s" by (simp add: live_def s')
  show "logged s' = logged s" by (rule lm)
  have a: "aof_ok (node_disk (svr_node s), pm_aof pm)" using lo by (simp add: log_ok_def p Let_def)
  have buf: "aof_buffer w' = []" using f a by (auto simp: aof_flush_def aof_ok_def)
  have c: "svr_config s = pm_config pm" by (simp add: svr_config_def p)
  have d: "d = d'" by (simp add: assms(3) s')
  from lo' have h: "appendOnly (pm_config pm)" "aof_path w' = aofPath (pm_config pm)"
    "aofPath (pm_config pm) \<noteq> snapshotPath (pm_config pm)" "can_open d' (snapshotPath (pm_config pm))"
    "aof_ok (d', w')" "unlines (getlines LF (aof_logical (d', w'))) = aof_logical (d', w')"
    "list_all write_line (getlines LF (aof_logical (d', w')))"
    "list_all write_line (getlines LF (file_bytes d' (snapshotPath (pm_config pm))))"
    unfolding s' by (simp_all add: log_ok_def Let_def)
  have lg: "aof_logical (d', w') = file_bytes d' (aofPath (pm_config pm))" by (simp add: aof_logical_def buf h(2))
  show "disk_ok (svr_config s) d" using h lg by (simp add: disk_ok_def c d aof_ok_def)
  show "disk_map (svr_config s) d = logged s"
    using lg unfolding lm [symmetric] by (simp add: disk_map_def c d logged_def log_map_def s')
  show "unlines (getlines LF (file_bytes d (aofPath (svr_config s)))) = file_bytes d (aofPath (svr_config s))"
    using h(6) lg by (simp add: c d)
qed

text \<open>A server started on an empty disk.\<close>

definition empty_disk :: disk where
  "empty_disk = \<lparr>files = Mapping.empty, can_open = \<lambda>p. True\<rparr>"

definition fresh_server :: server where
  "fresh_server = \<lparr>svr_node = boot (\<lambda>i. 0) (\<lambda>i. 0) 0 default_PersistenceConfig empty_disk,
     svr_socks = \<lambda>fd. \<lparr>sk_rx = [], sk_tx = [], sk_out = []\<rparr>\<rparr>"

lemma fresh_server_sound: "sound fresh_server" "live fresh_server = Map.empty" "logged fresh_server = Map.empty"
proof -
  have m: "disk_map default_PersistenceConfig empty_disk = Map.empty"
    by (simp add: disk_map_def file_bytes_def read_file_def empty_disk_def)
  have d: "disk_ok default_PersistenceConfig empty_disk"
    by (simp add: disk_ok_def default_PersistenceConfig_def aofPath_def snapshotPath_def file_bytes_def
        read_file_def empty_disk_def)
  have u: "unlines (getlines LF (file_bytes empty_disk p)) = file_bytes empty_disk p" for p
    by (simp add: file_bytes_def read_file_def empty_disk_def)
  show "sound fresh_server" "live fresh_server = Map.empty" "logged fresh_server = Map.empty"
    using boot_sound [OF d _ u] unfolding fresh_server_def m by simp_all
qed

text \<open>The bytes of a prefix of a log are some of its lines and at most one torn line.\<close>

lemma getlines_prefix:
  "\<forall>l \<in> set ls. LF \<notin> set l \<Longrightarrow> unlines ls = b @ x \<Longrightarrow>
    \<exists>j t. getlines LF b = take j ls @ t \<and> unlines (take j ls) @ concat t = b \<and>
      (t = [] \<or> (\<exists>p. t = [p] \<and> j < length ls \<and> prefix p (ls ! j)))"
proof (induction ls arbitrary: b)
  case Nil
  then show ?case by (intro exI [of _ 0] exI [of _ "[]"]) simp
next
  case (Cons l ls)
  show ?case
  proof (cases "length b \<le> length l")
    case True
    then have p: "b = take (length b) l" using Cons.prems(2)
      by (metis append_eq_append_conv_if unlines_Cons)
    have nb: "LF \<notin> set b" using Cons.prems(1) by (subst p) (auto dest: in_set_takeD)
    have "prefix b l" by (subst p) (rule take_is_prefix)
    then show ?thesis
      using getlines_no_delim [OF nb]
      by (intro exI [of _ 0] exI [of _ "if b = [] then [] else [b]"]) auto
  next
    case False
    obtain b' where b: "b = l @ LF # b'"
      using Cons.prems(2) False by (auto simp: append_eq_append_conv2 Cons_eq_append_conv)
    then have "unlines ls = b' @ x" using Cons.prems(2) by simp
    with Cons.IH Cons.prems(1) obtain j t where "getlines LF b' = take j ls @ t"
      "unlines (take j ls) @ concat t = b'" "t = [] \<or> (\<exists>p. t = [p] \<and> j < length ls \<and> prefix p (ls ! j))"
      by (metis list.set_intros(2))
    then show ?thesis
      using Cons.prems(1) by (intro exI [of _ "Suc j"] exI [of _ t]) (auto simp: b getlines_line)
  qed
qed

text \<open>The disk after a flush, started again.\<close>

lemma flushed_boot_logged:
  assumes "sound s"
  shows "contents (store (boot clk1 clk2 0 (svr_config s) (node_disk (svr_node (background FlushTask s))))) = logged s"
proof -
  note f = flushed_disk [OF assms refl refl]
  have d: "appendOnly (svr_config s)" "can_open (node_disk (svr_node (background FlushTask s))) (aofPath (svr_config s))"
    "list_all write_line (getlines LF (file_bytes (node_disk (svr_node (background FlushTask s))) (snapshotPath (svr_config s))))"
    using f(4) by (simp_all add: disk_ok_def)
  show ?thesis unfolding boot_node(1) [OF d] f(5) ..
qed

lemma flushed_boot:
  assumes "sound s" and "live s = logged s"
  shows "contents (store (boot clk1 clk2 0 (svr_config s) (node_disk (svr_node (background FlushTask s))))) = live s"
  using flushed_boot_logged [OF assms(1)] assms(2) by simp

text \<open>The new process: the same data, in order again, and a primary without replicas.\<close>

definition restarted :: "(nat \<Rightarrow> nanos) \<Rightarrow> (nat \<Rightarrow> nanos) \<Rightarrow> (fd \<Rightarrow> sock) \<Rightarrow> server \<Rightarrow> server" where
  "restarted clk1 clk2 socks s =
     \<lparr>svr_node = boot clk1 clk2 0 (svr_config s) (node_disk (svr_node (background FlushTask s))), svr_socks = socks\<rparr>"

lemma restarted_node:
  assumes "sound s" and "storable (logged s)"
  shows "live (restarted clk1 clk2 k s) = logged s" and "sound (restarted clk1 clk2 k s)"
    and "logged (restarted clk1 clk2 k s) = logged s"
    and "replication (svr_node (restarted clk1 clk2 k s)) = Some new_ReplicationManager"
proof -
  note f = flushed_disk [OF assms(1) refl refl]
  have st: "storable (disk_map (svr_config s) (node_disk (svr_node (background FlushTask s))))"
    unfolding f(5) by (rule assms(2))
  note b = boot_sound [OF f(4) st f(6), of clk1 clk2 k]
  show "live (restarted clk1 clk2 k s) = logged s" "sound (restarted clk1 clk2 k s)" "logged (restarted clk1 clk2 k s) = logged s"
    using b f(5) by (simp_all add: restarted_def)
  show "replication (svr_node (restarted clk1 clk2 k s)) = Some new_ReplicationManager"
    using boot_node(6) f(4) by (simp add: restarted_def disk_ok_def)
qed

lemma sound_storable: "sound s \<Longrightarrow> storable (live s)"
  by (simp add: sound_def data_ok_def live_def)

definition log_lines :: "server \<Rightarrow> wire_line list" where
  "log_lines s = (case persistence (svr_node s) of None \<Rightarrow> [] | Some pm \<Rightarrow>
     getlines LF (aof_logical (node_disk (svr_node s), pm_aof pm)))"

definition snapshot_data :: "server \<Rightarrow> (key \<rightharpoonup> val)" where
  "snapshot_data s = replay_map (getlines LF (file_bytes (node_disk (svr_node s)) (snapshotPath (svr_config s)))) Map.empty"

lemma logged_lines: "sound s \<Longrightarrow> logged s = replay_map (log_lines s) (snapshot_data s)"
  by (auto simp: sound_def log_ok_def logged_def log_map_def log_lines_def snapshot_data_def svr_config_def
      split: option.splits)

section \<open>Properties\<close>

text \<open>
  C1: durability. Take a server whose log and snapshot agree with its data, let it serve any
  requests, lines from a primary, background flushes, snapshots and partial buffer writes, and
  flush its log: restarting from the disk it leaves gives exactly its data, and a server of which
  the same can be said again.
\<close>

theorem restart_restores_data:
  assumes "sound s" and "live s = logged s" and "list_all safe_event es"
  shows "let s1 = background FlushTask (run_events es s);
             s2 = \<lparr>svr_node = boot clk1 clk2 0 (svr_config (run_events es s)) (node_disk (svr_node s1)), svr_socks = k\<rparr>
         in live s2 = live (run_events es s) \<and> sound s2 \<and> live s2 = logged s2"
proof -
  have "sound (run_events es s)" "live (run_events es s) = logged (run_events es s)" using run_exact [OF assms] by simp_all
  with sound_storable [of "run_events es s"] restarted_node [of "run_events es s" clk1 clk2 k] show ?thesis
    unfolding Let_def restarted_def by simp
qed

theorem restart_restores_data_witness:
  "let es = [Request 5 1 ''SET k v'', Spill 3, Request 6 2 ''INCR n'', Background SaveTask, FromPrimary 3 ''DEL k''];
       s1 = background FlushTask (run_events es fresh_server);
       s2 = \<lparr>svr_node = boot (\<lambda>i. 9) (\<lambda>i. 9) 0 (svr_config (run_events es fresh_server)) (node_disk (svr_node s1)),
             svr_socks = svr_socks fresh_server\<rparr>
   in live s2 = live (run_events es fresh_server) \<and> sound s2 \<and> live s2 = logged s2"
proof -
  have e: "list_all safe_event
      [Request 5 1 ''SET k v'', Spill 3, Request 6 2 ''INCR n'', Background SaveTask, FromPrimary 3 ''DEL k'']"
    by (simp add: safe_line_def)
  have l: "live fresh_server = logged fresh_server" by (simp add: fresh_server_sound)
  from restart_restores_data [OF fresh_server_sound(1) l e, of "\<lambda>i. 9" "\<lambda>i. 9" "svr_socks fresh_server"]
  show ?thesis unfolding Let_def .
qed

text \<open>
  With expiring keys, and as long as no counter command is used, a restart never loses an
  acknowledged value: everything in the data at the time of the flush is found again, with its
  value. (Expired keys may come back, since expiry is not logged.)
\<close>

theorem restart_keeps_live_keys:
  assumes "sound s" and "live s \<subseteq>\<^sub>m logged s" and "list_all plain_event es"
  shows "let s1 = background FlushTask (run_events es s)
         in live (run_events es s) \<subseteq>\<^sub>m
            contents (store (boot clk1 clk2 0 (svr_config (run_events es s)) (node_disk (svr_node s1))))"
  using run_plain [OF assms] flushed_boot_logged [of "run_events es s"] by simp

theorem restart_keeps_live_keys_witness:
  "let es = [Request 5 1 ''SET k v'', Request 6 2 ''SET t w EX 10'', Expired ''t'', Spill 7];
       s1 = background FlushTask (run_events es fresh_server)
   in live (run_events es fresh_server) \<subseteq>\<^sub>m
      contents (store (boot (\<lambda>i. 9) (\<lambda>i. 9) 0 (svr_config (run_events es fresh_server)) (node_disk (svr_node s1))))"
proof -
  have "line_of no_counter ''SET k v''" "line_of no_counter ''SET t w EX 10''" by code_simp+
  then have e: "list_all plain_event
      [Request 5 1 ''SET k v'', Request 6 2 ''SET t w EX 10'', Expired ''t'', Spill 7]"
    by (simp add: safe_line_def)
  have l: "live fresh_server \<subseteq>\<^sub>m logged fresh_server" by (simp add: fresh_server_sound)
  from restart_keeps_live_keys [OF fresh_server_sound(1) l e, of "\<lambda>i. 9" "\<lambda>i. 9"]
  show ?thesis unfolding Let_def .
qed

text \<open>
  C25: a crash loses only what was not yet written. The data after restarting from the files as
  they are is the snapshot with the first lines of the log replayed on it, up to the last byte
  written, where the last of these lines may be cut short.
\<close>

theorem crash_keeps_written_prefix:
  assumes "sound s"
  shows "\<exists>j t. contents (store (boot clk1 clk2 0 (svr_config s) (node_disk (svr_node s)))) =
      replay_map (take j (log_lines s) @ t) (snapshot_data s) \<and>
    unlines (take j (log_lines s)) @ concat t = file_bytes (node_disk (svr_node s)) (aofPath (svr_config s)) \<and>
    (t = [] \<or> (\<exists>p. t = [p] \<and> j < length (log_lines s) \<and> prefix p (log_lines s ! j)))"
proof -
  let ?c = "svr_config s" and ?d = "node_disk (svr_node s)"
  obtain pm where p: "persistence (svr_node s) = Some pm"
    using assms by (auto simp: sound_def log_ok_def split: option.splits)
  have c: "?c = pm_config pm" by (simp add: svr_config_def p)
  have h: "appendOnly ?c" "can_open ?d (aofPath ?c)" "aof_path (pm_aof pm) = aofPath ?c"
    "list_all write_line (getlines LF (file_bytes ?d (snapshotPath ?c)))"
    and u: "unlines (getlines LF (aof_logical (?d, pm_aof pm))) = aof_logical (?d, pm_aof pm)"
    using assms by (auto simp: sound_def log_ok_def p c Let_def aof_ok_def)
  have ll: "log_lines s = getlines LF (aof_logical (?d, pm_aof pm))" by (simp add: log_lines_def p)
  have "unlines (log_lines s) = file_bytes ?d (aofPath ?c) @ aof_buffer (pm_aof pm)"
    using u h(3) by (simp add: ll aof_logical_def)
  moreover have "\<forall>l \<in> set (log_lines s). LF \<notin> set l" by (auto simp: ll dest: getlines_delim_free)
  ultimately obtain j t where "getlines LF (file_bytes ?d (aofPath ?c)) = take j (log_lines s) @ t"
    "unlines (take j (log_lines s)) @ concat t = file_bytes ?d (aofPath ?c)"
    "t = [] \<or> (\<exists>p. t = [p] \<and> j < length (log_lines s) \<and> prefix p (log_lines s ! j))"
    using getlines_prefix by blast
  then show ?thesis
    unfolding boot_node(1) [OF h(1,2,4)] by (intro exI [of _ j] exI [of _ t]) (simp add: disk_map_def snapshot_data_def)
qed

theorem crash_keeps_written_prefix_witness:
  "let s = run_events [Request 5 1 ''SET k v'', Spill 3] fresh_server
   in \<exists>j t. contents (store (boot (\<lambda>i. 9) (\<lambda>i. 9) 0 (svr_config s) (node_disk (svr_node s)))) =
        replay_map (take j (log_lines s) @ t) (snapshot_data s)"
proof -
  let ?s = "run_events [Request 5 1 ''SET k v'', Spill 3] fresh_server"
  have "sound ?s"
    using run_exact [of fresh_server "[Request 5 1 ''SET k v'', Spill 3]"]
    by (simp add: fresh_server_sound safe_line_def)
  from crash_keeps_written_prefix [OF this, of "\<lambda>i. 9" "\<lambda>i. 9"] show ?thesis unfolding Let_def by blast
qed

text \<open>
  A torn last line swallows the next write. After a crash in the middle of a line the file
  does not end in a newline; the restarted server appends its next record to the torn line, so
  that a reader of the file finds the two glued together instead of the acknowledged write.
\<close>

theorem torn_tail_swallows_next_write:
  assumes "can_open d (aofPath c)" and "appendOnly c"
    and "file_bytes d (aofPath c) = unlines ls @ torn" and "\<forall>l \<in> set ls. LF \<notin> set l"
    and "LF \<notin> set torn" and "LF \<notin> set line"
  shows "let (d1, pm1) = new_PersistenceManager d c;
             pm2 = recordWrite pm1 line;
             (d2, pm3) = run_bg_task FlushTask st (d1, pm2)
         in getlines LF (file_bytes d2 (aofPath c)) = ls @ [torn @ line]"
proof -
  have "getlines LF (unlines ls @ torn @ line @ [LF]) = ls @ [torn @ line]"
    using getlines_unlines [OF assms(4), of "torn @ line @ [LF]"] getlines_line [of LF "torn @ line" "[]"] assms(5,6)
    by simp
  then show ?thesis
    using assms(1-3)
    by (simp add: new_PersistenceManager_def new_AofWriter_def recordWrite_def aof_append_def run_bg_task_def
        aof_flush_def disk_simps)
qed

theorem torn_tail_swallows_next_write_witness:
  "let c = default_PersistenceConfig; d = write_file empty_disk (aofPath c) ''SET a'';
       (d1, pm1) = new_PersistenceManager d c;
       pm2 = recordWrite pm1 ''SET k v'';
       (d2, pm3) = run_bg_task FlushTask (new_KVStore 0) (d1, pm2)
   in getlines LF (file_bytes d2 (aofPath c)) = [''SET aSET k v'']"
proof -
  let ?c = default_PersistenceConfig
  have "can_open (write_file empty_disk (aofPath ?c) ''SET a'') (aofPath ?c)" "appendOnly ?c"
    "file_bytes (write_file empty_disk (aofPath ?c) ''SET a'') (aofPath ?c) = unlines [] @ ''SET a''"
    by (simp_all add: disk_simps empty_disk_def default_PersistenceConfig_def)
  from torn_tail_swallows_next_write [OF this, of "''SET k v''" "new_KVStore 0"] show ?thesis
    unfolding Let_def by simp
qed

end
