(* ===== verification/Hash_Ring.thy ===== *)
theory Hash_Ring
  imports Cpp_Text
begin

text \<open>
  Consistent hashing, \<^verbatim>\<open>src/sharding/consistent_hash_ring.cpp\<close>. Hashes are 64-bit words; the
  \<^verbatim>\<open>std::map\<close> of positions is the list of its entries in ascending order. The interface
  \<open>ordered_ring\<close> says what the ring needs of its ordered map (lookup after insertion and
  erasure, and the next position clockwise); its facts bound how many keys change hands when a
  node comes or goes.
\<close>

unbundle bit_operations_syntax

section \<open>Hash function\<close>

definition kOffsetBasis :: "64 word" where
  "kOffsetBasis = 1469598103934665603"

definition kPrime :: "64 word" where
  "kPrime = 1099511628211"

definition fnv_step :: "64 word \<Rightarrow> char \<Rightarrow> 64 word" where
  "fnv_step hash c = (hash XOR of_nat (char_code c)) * kPrime"

definition fmix64 :: "64 word \<Rightarrow> 64 word" where
  "fmix64 hash0 =
     (let hash1 = hash0 XOR drop_bit 33 hash0;
          hash2 = hash1 * 0xff51afd7ed558ccd;
          hash3 = hash2 XOR drop_bit 33 hash2;
          hash4 = hash3 * 0xc4ceb9fe1a85ec53
      in hash4 XOR drop_bit 33 hash4)"

definition fnv1a64 :: "string \<Rightarrow> 64 word" where
  "fnv1a64 data = fmix64 (foldl fnv_step kOffsetBasis data)"

section \<open>The ordered map of positions\<close>

type_synonym positions = "(64 word \<times> string) list"

primrec ring_put :: "64 word \<Rightarrow> string \<Rightarrow> positions \<Rightarrow> positions" where
  "ring_put h n [] = [(h, n)]"
| "ring_put h n (e # es) =
     (if h < fst e then (h, n) # e # es
      else if h = fst e then (h, n) # es
      else e # ring_put h n es)"

definition ring_erase :: "64 word \<Rightarrow> positions \<Rightarrow> positions" where
  "ring_erase h es = filter (\<lambda>e. fst e \<noteq> h) es"

definition lower_bound :: "64 word \<Rightarrow> positions \<Rightarrow> positions" where
  "lower_bound h es = dropWhile (\<lambda>e. fst e < h) es"

section \<open>ConsistentHashRing\<close>

record ConsistentHashRing =
  virtualNodesPerNode :: int
  ring :: positions
  ring_nodes :: "string list"

definition new_ConsistentHashRing :: "int \<Rightarrow> ConsistentHashRing" where
  "new_ConsistentHashRing v = \<lparr>virtualNodesPerNode = v, ring = [], ring_nodes = []\<rparr>"

definition vnode_pos :: "string \<Rightarrow> nat \<Rightarrow> 64 word" where
  "vnode_pos nodeId i = fnv1a64 (nodeId @ ''#'' @ to_string (int i))"

definition addNode :: "ConsistentHashRing \<Rightarrow> string \<Rightarrow> ConsistentHashRing" where
  "addNode r nodeId =
     r\<lparr>ring := fold (\<lambda>i es. ring_put (vnode_pos nodeId i) nodeId es) [0..<nat (virtualNodesPerNode r)] (ring r),
       ring_nodes := ring_nodes r @ [nodeId]\<rparr>"

definition removeNode :: "ConsistentHashRing \<Rightarrow> string \<Rightarrow> ConsistentHashRing" where
  "removeNode r nodeId =
     r\<lparr>ring := fold (\<lambda>i es. ring_erase (vnode_pos nodeId i) es) [0..<nat (virtualNodesPerNode r)] (ring r),
       ring_nodes := filter (\<lambda>n. n \<noteq> nodeId) (ring_nodes r)\<rparr>"

definition owner :: "positions \<Rightarrow> 64 word \<Rightarrow> string" where
  "owner es h =
     (if es = [] then []
      else case lower_bound h es of [] \<Rightarrow> snd (hd es) | it # rest \<Rightarrow> snd it)"

definition getNode :: "ConsistentHashRing \<Rightarrow> key \<Rightarrow> string" where
  "getNode r k = owner (ring r) (fnv1a64 k)"

definition nodeCount :: "ConsistentHashRing \<Rightarrow> nat" where
  "nodeCount r = length (ring_nodes r)"

section \<open>The finalizer is injective\<close>

lemma xorshift_involution: "(x XOR drop_bit 33 x) XOR drop_bit 33 (x XOR drop_bit 33 x) = (x :: 64 word)"
proof -
  have "drop_bit 33 (drop_bit 33 x) = 0"
    by (rule bit_word_eqI) (simp add: bit_simps)
  then show ?thesis by (simp add: drop_bit_xor xor.assoc)
qed

lemma xorshift_inject: "x XOR drop_bit 33 x = y XOR drop_bit 33 (y :: 64 word) \<Longrightarrow> x = y"
  using xorshift_involution [of x] xorshift_involution [of y] by simp

lemma mult_inject_inverse: "c * c' = 1 \<Longrightarrow> x * c = y * c \<Longrightarrow> x = (y :: 64 word)"
proof -
  assume c: "c * c' = 1" and "x * c = y * c"
  then have "x * c * c' = y * c * c'" by (simp only:)
  then show ?thesis by (simp only: mult.assoc c mult_1_right)
qed

lemma fmix64_factors_invertible:
  "0xff51afd7ed558ccd * 0x4f74430c22a54005 = (1 :: 64 word)"
  "0xc4ceb9fe1a85ec53 * 0x9cb4b2f8129337db = (1 :: 64 word)"
  by simp_all

lemma fmix64_inject: "fmix64 x = fmix64 y \<Longrightarrow> x = y"
  unfolding fmix64_def Let_def
  by (drule xorshift_inject, drule mult_inject_inverse [OF fmix64_factors_invertible(2)],
      drule xorshift_inject, drule mult_inject_inverse [OF fmix64_factors_invertible(1)],
      erule xorshift_inject)

section \<open>The interface of the ordered map\<close>

locale ordered_ring =
  fixes inv :: "'r \<Rightarrow> bool"
    and vacant :: "'r \<Rightarrow> bool"
    and at :: "'r \<Rightarrow> 'h \<Rightarrow> 'n option"
    and put :: "'h \<Rightarrow> 'n \<Rightarrow> 'r \<Rightarrow> 'r"
    and erase :: "'h \<Rightarrow> 'r \<Rightarrow> 'r"
    and own :: "'r \<Rightarrow> 'h \<Rightarrow> 'n"
  assumes inv_put: "inv r \<Longrightarrow> inv (put h n r)"
    and inv_erase: "inv r \<Longrightarrow> inv (erase h r)"
    and put_not_vacant: "inv r \<Longrightarrow> \<not> vacant (put h n r)"
    and own_put: "inv r \<Longrightarrow> own (put h n r) x = n \<or> \<not> vacant r \<and> own (put h n r) x = own r x"
    and at_erase: "inv r \<Longrightarrow> at (erase h r) g = (if g = h then None else at r g)"
    and own_erase: "inv r \<Longrightarrow> \<not> vacant r \<Longrightarrow> at r h = None \<or> at r h = Some n \<Longrightarrow> own r x \<noteq> n \<Longrightarrow>
      \<not> vacant (erase h r) \<and> own (erase h r) x = own r x"
begin

lemma inv_puts: "inv r \<Longrightarrow> inv (fold (\<lambda>i. put (p i) n) is r)"
  by (induction "is" arbitrary: r) (simp_all add: inv_put)

lemma inv_erases: "inv r \<Longrightarrow> inv (fold (\<lambda>i. erase (p i)) is r)"
  by (induction "is" arbitrary: r) (simp_all add: inv_erase)

text \<open>Adding a node's positions moves keys only to that node.\<close>

lemma own_puts:
  "inv r \<Longrightarrow> is \<noteq> [] \<Longrightarrow> own (fold (\<lambda>i. put (p i) n) is r) x = n \<or>
    \<not> vacant r \<and> own (fold (\<lambda>i. put (p i) n) is r) x = own r x"
proof (induction "is" arbitrary: r)
  case (Cons i "is")
  show ?case
  proof (cases "is = []")
    case True
    with own_put [OF Cons.prems(1)] show ?thesis by simp
  next
    case False
    from Cons.IH [OF inv_put [OF Cons.prems(1)] False, of "p i" n] own_put [OF Cons.prems(1), of "p i" n x]
    show ?thesis by auto
  qed
qed simp

text \<open>Removing a node's positions moves only keys of that node.\<close>

lemma own_erases:
  "inv r \<Longrightarrow> \<not> vacant r \<Longrightarrow> \<forall>i \<in> set is. at r (p i) = None \<or> at r (p i) = Some n \<Longrightarrow> own r x \<noteq> n \<Longrightarrow>
    own (fold (\<lambda>i. erase (p i)) is r) x = own r x"
proof (induction "is" arbitrary: r)
  case (Cons i "is")
  have e: "\<not> vacant (erase (p i) r)" "own (erase (p i) r) x = own r x"
    using own_erase [OF Cons.prems(1,2) _ Cons.prems(4), of "p i"] Cons.prems(3) by auto
  have a: "\<forall>j \<in> set is. at (erase (p i) r) (p j) = None \<or> at (erase (p i) r) (p j) = Some n"
    using Cons.prems(1,3) by (auto simp: at_erase)
  have "own (erase (p i) r) x \<noteq> n" using e(2) Cons.prems(4) by simp
  from Cons.IH [OF inv_erase [OF Cons.prems(1)] e(1) a this] e(2) show ?case by simp
qed simp

end

section \<open>The list of positions implements it\<close>

definition ring_sorted :: "positions \<Rightarrow> bool" where
  "ring_sorted es \<longleftrightarrow> sorted_wrt (<) (map fst es)"

lemma ring_sorted_simps [ring_simps]:
  "ring_sorted []" "ring_sorted (e # es) \<longleftrightarrow> (\<forall>x \<in> set es. fst e < fst x) \<and> ring_sorted es"
  by (simp_all add: ring_sorted_def)

lemma set_ring_put: "set (ring_put h n es) \<subseteq> insert (h, n) (set es)"
  by (induction es) auto

lemma ring_sorted_put: "ring_sorted es \<Longrightarrow> ring_sorted (ring_put h n es)"
proof (induction es)
  case (Cons e es)
  then show ?case using set_ring_put [of h n es] by (auto simp: ring_simps)
qed (simp add: ring_simps)

lemma ring_sorted_filter: "ring_sorted es \<Longrightarrow> ring_sorted (filter P es)"
  by (induction es) (auto simp: ring_simps)

lemma lower_bound_filter: "ring_sorted es \<Longrightarrow> lower_bound x es = filter (\<lambda>e. x \<le> fst e) es"
proof (induction es)
  case (Cons e es)
  show ?case
  proof (cases "x \<le> fst e")
    case True
    moreover have "filter (\<lambda>e. x \<le> fst e) es = es"
      using Cons.prems True by (intro filter_True) (auto simp: ring_simps intro: order.trans less_imp_le)
    ultimately show ?thesis by (simp add: lower_bound_def)
  next
    case False
    with Cons show ?thesis by (simp add: lower_bound_def ring_simps)
  qed
qed (simp add: lower_bound_def)

text \<open>The entry clockwise from a hash.\<close>

definition next_entry :: "64 word \<Rightarrow> positions \<Rightarrow> 64 word \<times> string" where
  "next_entry x es = hd (filter (\<lambda>e. x \<le> fst e) es @ es)"

lemma owner_next: "ring_sorted es \<Longrightarrow> es \<noteq> [] \<Longrightarrow> owner es x = snd (next_entry x es)"
  by (simp add: owner_def next_entry_def lower_bound_filter split: list.split)

lemma next_entry_mem: "es \<noteq> [] \<Longrightarrow> next_entry x es \<in> set es"
  using hd_in_set [of "filter (\<lambda>e. x \<le> fst e) es @ es"] by (auto simp: next_entry_def)

lemma hd_ring_put: "hd (ring_put h n es) = (h, n) \<or> es \<noteq> [] \<and> hd (ring_put h n es) = hd es"
  by (cases es) auto

lemma filter_ring_put:
  "ring_sorted es \<Longrightarrow> filter (\<lambda>e. x \<le> fst e) (ring_put h n es) =
    (if x \<le> h then ring_put h n (filter (\<lambda>e. x \<le> fst e) es) else filter (\<lambda>e. x \<le> fst e) es)"
proof (induction es)
  case (Cons e es)
  have t: "x \<le> fst e \<Longrightarrow> filter (\<lambda>e. x \<le> fst e) es = es"
    using Cons.prems by (intro filter_True) (auto simp: ring_simps intro: order.trans less_imp_le)
  have "ring_put h n (filter (\<lambda>e. x \<le> fst e) es) = (h, n) # filter (\<lambda>e. x \<le> fst e) es"
    if "h < fst e"
  proof -
    have "\<forall>y \<in> set es. h < fst y" using that Cons.prems by (auto simp: ring_simps)
    then show ?thesis by (cases "filter (\<lambda>e. x \<le> fst e) es") (auto dest: filter_eq_ConsD)
  qed
  moreover have "ring_put h n (filter (\<lambda>e. x \<le> fst e) es) = (h, n) # filter (\<lambda>e. x \<le> fst e) es"
    if "h = fst e"
  proof -
    have "\<forall>y \<in> set es. h < fst y" using that Cons.prems by (auto simp: ring_simps)
    then show ?thesis by (cases "filter (\<lambda>e. x \<le> fst e) es") (auto dest: filter_eq_ConsD)
  qed
  ultimately show ?case using Cons t by (auto simp: ring_simps)
qed simp

lemma ring_put_nonempty [simp]: "ring_put h n es \<noteq> []"
  by (cases es) auto

lemma next_entry_put:
  assumes "ring_sorted es"
  shows "next_entry x (ring_put h n es) = (h, n) \<or> es \<noteq> [] \<and> next_entry x (ring_put h n es) = next_entry x es"
proof (cases "x \<le> h")
  case True
  then show ?thesis
    using hd_ring_put [of h n "filter (\<lambda>e. x \<le> fst e) es"]
    by (auto simp: next_entry_def filter_ring_put [OF assms])
next
  case False
  then show ?thesis
    using hd_ring_put [of h n es] by (auto simp: next_entry_def filter_ring_put [OF assms] hd_append)
qed

lemma hd_filter_same: "xs \<noteq> [] \<Longrightarrow> P (hd xs) \<Longrightarrow> filter P xs \<noteq> [] \<and> hd (filter P xs) = hd xs"
  by (cases xs) auto

lemma next_entry_filter:
  assumes "es \<noteq> []" and "P (next_entry x es)"
  shows "filter P es \<noteq> [] \<and> next_entry x (filter P es) = next_entry x es"
proof -
  let ?g = "\<lambda>es. filter (\<lambda>e. x \<le> fst e) es @ es"
  have "?g (filter P es) = filter P (?g es)" by (simp add: conj_commute)
  moreover have "filter P (?g es) \<noteq> [] \<and> hd (filter P (?g es)) = hd (?g es)"
    by (rule hd_filter_same) (use assms in \<open>simp_all add: next_entry_def\<close>)
  moreover have "filter P es \<noteq> []"
    using next_entry_mem [OF assms(1), of x] assms(2) by (auto simp: filter_empty_conv)
  ultimately show ?thesis by (simp add: next_entry_def)
qed

lemma ring_entry_unique:
  "ring_sorted es \<Longrightarrow> (h, a) \<in> set es \<Longrightarrow> map_of es h = Some a"
  by (induction es) (auto simp: ring_simps)

interpretation position_list: ordered_ring ring_sorted "\<lambda>es. es = []" map_of ring_put ring_erase owner
proof unfold_locales
  fix es :: positions and h x n
  assume s: "ring_sorted es"
  have sp: "ring_sorted (ring_put h n es)" using s by (rule ring_sorted_put)
  show "owner (ring_put h n es) x = n \<or> es \<noteq> [] \<and> owner (ring_put h n es) x = owner es x"
    using next_entry_put [OF s, of x h n] owner_next [OF sp ring_put_nonempty] owner_next [OF s] by auto
next
  fix es :: positions and h x n
  assume s: "ring_sorted es" and ne: "es \<noteq> []" and a: "map_of es h = None \<or> map_of es h = Some n"
    and o: "owner es x \<noteq> n"
  have "fst (next_entry x es) \<noteq> h"
  proof
    assume "fst (next_entry x es) = h"
    then have "(h, owner es x) \<in> set es"
      using next_entry_mem [OF ne, of x] owner_next [OF s ne, of x] by (metis prod.collapse)
    then show False using ring_entry_unique [OF s] a o by auto
  qed
  then have "filter (\<lambda>e. fst e \<noteq> h) es \<noteq> [] \<and> next_entry x (filter (\<lambda>e. fst e \<noteq> h) es) = next_entry x es"
    by (intro next_entry_filter [OF ne]) simp
  then show "ring_erase h es \<noteq> [] \<and> owner (ring_erase h es) x = owner es x"
    using owner_next [OF s ne] owner_next [OF ring_sorted_filter [OF s]] by (simp add: ring_erase_def)
qed (simp_all add: ring_sorted_put ring_sorted_filter ring_erase_def map_of_filter_fst [of "\<lambda>k. k \<noteq> _"])

section \<open>Rings\<close>

definition ring_inv :: "ConsistentHashRing \<Rightarrow> bool" where
  "ring_inv r \<longleftrightarrow> ring_sorted (ring r) \<and> snd ` set (ring r) \<subseteq> set (ring_nodes r)"

lemma set_ring_puts:
  "set (fold (\<lambda>i. ring_put (p i) n) is es) \<subseteq> set es \<union> (\<lambda>i. (p i, n)) ` set is"
proof (induction "is" arbitrary: es)
  case (Cons i "is")
  from Cons [of "ring_put (p i) n es"] set_ring_put [of "p i" n es] show ?case by auto
qed simp

lemma fold_ring_erase:
  "fold (\<lambda>i. ring_erase (p i)) is es = filter (\<lambda>e. fst e \<notin> p ` set is) es"
  by (induction "is" arbitrary: es) (auto simp: ring_erase_def intro!: filter_cong)

lemma fold_ring_put_nonempty: "is \<noteq> [] \<or> es \<noteq> [] \<Longrightarrow> fold (\<lambda>i. ring_put (p i) n) is es \<noteq> []"
proof (induction "is" arbitrary: es)
  case (Cons i "is")
  from Cons.IH [of "ring_put (p i) n es"] show ?case by simp
qed simp

lemma ring_inv_new: "ring_inv (new_ConsistentHashRing v)"
  by (simp add: ring_inv_def new_ConsistentHashRing_def ring_simps)

lemma ring_inv_addNode: "ring_inv r \<Longrightarrow> ring_inv (addNode r n)"
proof -
  assume r: "ring_inv r"
  let ?es = "fold (\<lambda>i. ring_put (vnode_pos n i) n) [0..<nat (virtualNodesPerNode r)] (ring r)"
  have "snd ` set ?es \<subseteq> snd ` set (ring r) \<union> {n}"
    using image_mono [OF set_ring_puts [of "vnode_pos n" n "[0..<nat (virtualNodesPerNode r)]" "ring r"], of snd] by auto
  with r position_list.inv_puts [of "ring r" "vnode_pos n" n "[0..<nat (virtualNodesPerNode r)]"] show ?thesis
    by (auto simp: ring_inv_def addNode_def)
qed

lemma filter_put_away:
  "h \<in> S \<Longrightarrow> filter (\<lambda>e. fst e \<notin> S) (ring_put h n es) = filter (\<lambda>e. fst e \<notin> S) es"
  by (induction es) auto

lemma filter_puts_away:
  "set is \<subseteq> J \<Longrightarrow> filter (\<lambda>e. fst e \<notin> p ` J) (fold (\<lambda>i. ring_put (p i) n) is es) = filter (\<lambda>e. fst e \<notin> p ` J) es"
proof (induction "is" arbitrary: es)
  case (Cons i "is")
  have "p i \<in> p ` J" using Cons.prems by simp
  with Cons show ?case by (simp add: filter_put_away)
qed simp

text \<open>The ring of a router: every shard is added once, in order.\<close>

lemma ring_of_nodes:
  "ring_inv r \<Longrightarrow> ring_inv (foldl addNode r ids) \<and> ring_nodes (foldl addNode r ids) = ring_nodes r @ ids \<and>
    (0 < virtualNodesPerNode r \<longrightarrow> ids \<noteq> [] \<longrightarrow> ring (foldl addNode r ids) \<noteq> [])"
proof (induction ids arbitrary: r)
  case (Cons n ids)
  have v: "virtualNodesPerNode (addNode r n) = virtualNodesPerNode r" "ring_nodes (addNode r n) = ring_nodes r @ [n]"
    by (simp_all add: addNode_def)
  have "0 < virtualNodesPerNode r \<longrightarrow> ring (addNode r n) \<noteq> []"
    using fold_ring_put_nonempty [of "[0..<nat (virtualNodesPerNode r)]" "ring r" "vnode_pos n" n]
    by (simp add: addNode_def)
  then show ?case
    using Cons.IH [OF ring_inv_addNode [OF Cons.prems], of n] v by (cases ids) auto
qed simp

section \<open>Distances\<close>

lemma clockwise_order:
  fixes x a b :: "64 word"
  shows "x \<le> a \<Longrightarrow> a \<le> b \<Longrightarrow> a - x \<le> b - x" "x \<le> a \<Longrightarrow> b < x \<Longrightarrow> a - x \<le> b - x"
    "a < x \<Longrightarrow> b < x \<Longrightarrow> a \<le> b \<Longrightarrow> a - x \<le> b - x"
proof -
  have "unat a < 2 ^ LENGTH(64)" by (rule unsigned_less)
  then show "x \<le> a \<Longrightarrow> b < x \<Longrightarrow> a - x \<le> b - x" by (auto simp: word_le_nat_alt word_less_nat_alt unat_sub_if')
qed (auto simp: word_le_nat_alt word_less_nat_alt unat_sub_if')

text \<open>The entry clockwise from a hash is the one at the least distance, where distances wrap around.\<close>

lemma next_entry_nearest:
  assumes "ring_sorted es" and "e \<in> set es"
  shows "fst (next_entry x es) - x \<le> fst e - x"
proof (cases "filter (\<lambda>e. x \<le> fst e) es")
  case Nil
  then have all: "\<forall>y \<in> set es. fst y < x" by (auto simp: filter_empty_conv)
  obtain f fs where es: "es = f # fs" using assms(2) by (cases es) auto
  then have "fst f \<le> fst e" using assms by (auto simp: ring_simps)
  moreover have "next_entry x es = f" unfolding next_entry_def Nil by (simp add: es)
  ultimately show ?thesis using all es assms(2) by (auto intro: clockwise_order(3))
next
  case (Cons f fs)
  then have n: "next_entry x es = f" by (simp add: next_entry_def)
  have f: "x \<le> fst f" using Cons by (metis (mono_tags, lifting) filter_eq_Cons_iff)
  show ?thesis
  proof (cases "x \<le> fst e")
    case True
    then have "e \<in> set (f # fs)" using assms(2) unfolding Cons [symmetric] by simp
    moreover have "ring_sorted (f # fs)" using ring_sorted_filter [OF assms(1)] unfolding Cons [symmetric] .
    ultimately have "fst f \<le> fst e" by (auto simp: ring_simps)
    with f n show ?thesis by (simp add: clockwise_order(1))
  next
    case False
    with f n show ?thesis by (simp add: clockwise_order(2))
  qed
qed

lemma nearest_unique:
  assumes "ring_sorted es" and "e \<in> set es" and "e' \<in> set es" and "fst e - x = fst e' - (x :: 64 word)"
  shows "e = e'"
proof -
  have "fst e = fst e'" using assms(4) by simp
  moreover have "map_of es (fst e) = Some (snd e)" "map_of es (fst e') = Some (snd e')"
    using ring_entry_unique [OF assms(1)] assms(2,3) by simp_all
  ultimately show ?thesis by (simp add: prod_eq_iff)
qed

section \<open>Properties\<close>

text \<open>
  C33: a key belongs to the nearest position clockwise. The binary search in the ordered map, with its
  wrap-around at the end, gives the same node as the definition of consistent hashing: the node of
  the position whose clockwise distance from the hash of the key, as a 64-bit difference, is least.
\<close>

theorem getNode_is_nearest_clockwise:
  assumes "ring_inv r" and "ring r \<noteq> []"
  shows "getNode r k = snd (arg_min_list (\<lambda>e. fst e - fnv1a64 k) (ring r))"
proof -
  let ?f = "\<lambda>e. fst e - fnv1a64 k" and ?n = "next_entry (fnv1a64 k) (ring r)"
  let ?a = "arg_min_list ?f (ring r)"
  have s: "ring_sorted (ring r)" using assms(1) by (simp add: ring_inv_def)
  have m: "?n \<in> set (ring r)" "?a \<in> set (ring r)" using next_entry_mem [OF assms(2)] arg_min_list_in [OF assms(2)] by auto
  have "?f ?a = Min (?f ` set (ring r))" by (rule f_arg_min_list_f [OF assms(2)])
  also have "\<dots> = ?f ?n" using next_entry_nearest [OF s] m(1) by (intro Min_eqI) auto
  finally have "?a = ?n" using nearest_unique [OF s m(2,1)] by blast
  then show ?thesis using owner_next [OF s assms(2)] by (simp add: getNode_def)
qed

theorem getNode_is_nearest_clockwise_witness:
  "let r = addNode (addNode (new_ConsistentHashRing 2) ''a'') ''b''
   in getNode r ''k'' = snd (arg_min_list (\<lambda>e. fst e - fnv1a64 ''k'') (ring r))"
proof -
  let ?r = "addNode (addNode (new_ConsistentHashRing 2) ''a'') ''b''"
  have "ring_inv ?r" by (intro ring_inv_addNode ring_inv_new)
  moreover have "ring ?r \<noteq> []" by (simp add: addNode_def new_ConsistentHashRing_def fold_ring_put_nonempty)
  ultimately show ?thesis unfolding Let_def by (rule getNode_is_nearest_clockwise)
qed

text \<open>
  C34: adding a node to a ring moves keys only to the new node: every key either goes to the new
  node or stays with the node that had it.
\<close>

theorem addNode_moves_keys_only_to_new_node:
  assumes "ring_inv r" and "0 < virtualNodesPerNode r"
  shows "getNode (addNode r n) k = n \<or> getNode (addNode r n) k = getNode r k"
  using position_list.own_puts [of "ring r" "[0..<nat (virtualNodesPerNode r)]" "vnode_pos n" n "fnv1a64 k"] assms
  by (auto simp: getNode_def addNode_def ring_inv_def)

theorem addNode_moves_keys_only_to_new_node_witness:
  "getNode (addNode (addNode (new_ConsistentHashRing 2) ''a'') ''b'') ''k'' \<in> {''a'', ''b''}"
proof -
  have i: "ring_inv (new_ConsistentHashRing 2)" "0 < virtualNodesPerNode (new_ConsistentHashRing 2)"
    by (rule ring_inv_new) (simp add: new_ConsistentHashRing_def)
  have v: "0 < virtualNodesPerNode (addNode (new_ConsistentHashRing 2) ''a'')"
    by (simp add: addNode_def new_ConsistentHashRing_def)
  have "getNode (addNode (new_ConsistentHashRing 2) ''a'') ''k'' = ''a''"
    using position_list.own_puts [of "[]" "[0..<2]" "vnode_pos ''a''" "''a''" "fnv1a64 ''k''"]
    by (simp add: getNode_def addNode_def new_ConsistentHashRing_def ring_simps)
  then show ?thesis
    using addNode_moves_keys_only_to_new_node [OF ring_inv_addNode [OF i(1)] v, of "''b''" "''k''"] by auto
qed

text \<open>
  Removing a node from a ring leaves every key of another node where it was, provided no
  position of the node has been taken over by another node (a collision of 64-bit hashes).
\<close>

theorem removeNode_keeps_other_keys:
  assumes "ring_inv r" and "getNode r k \<noteq> n"
    and "\<forall>i < nat (virtualNodesPerNode r). map_of (ring r) (vnode_pos n i) \<in> {None, Some n}"
  shows "getNode (removeNode r n) k = getNode r k"
proof (cases "ring r = []")
  case True
  then show ?thesis by (simp add: getNode_def removeNode_def fold_ring_erase)
next
  case False
  with position_list.own_erases [of "ring r" "[0..<nat (virtualNodesPerNode r)]" "vnode_pos n" n "fnv1a64 k"] assms
  show ?thesis by (auto simp: getNode_def removeNode_def ring_inv_def)
qed

lemma vnode_positions_differ: "vnode_pos ''b'' 0 \<noteq> vnode_pos ''a'' 0"
  by code_simp

theorem removeNode_keeps_other_keys_witness:
  "getNode (removeNode (addNode (new_ConsistentHashRing 1) ''a'') ''b'') ''k'' = ''a''"
proof -
  let ?r = "addNode (new_ConsistentHashRing 1) ''a''"
  have r: "ring ?r = [(vnode_pos ''a'' 0, ''a'')]" "virtualNodesPerNode ?r = 1"
    by (simp_all add: addNode_def new_ConsistentHashRing_def)
  have o: "getNode ?r ''k'' = ''a''" by (simp add: getNode_def owner_def lower_bound_def r)
  have "\<forall>i < nat (virtualNodesPerNode ?r). map_of (ring ?r) (vnode_pos ''b'' i) \<in> {None, Some ''b''}"
    using vnode_positions_differ by (simp add: r)
  with removeNode_keeps_other_keys [OF ring_inv_addNode [OF ring_inv_new], of 1 "''a''" "''k''" "''b''"] o
  show ?thesis by simp
qed

text \<open>
  Adding a node and removing it again restores the ring exactly, if its positions were free.
\<close>

theorem add_remove_roundtrip:
  assumes "\<forall>i < nat (virtualNodesPerNode r). map_of (ring r) (vnode_pos n i) = None" and "n \<notin> set (ring_nodes r)"
  shows "removeNode (addNode r n) n = r"
proof -
  let ?I = "[0..<nat (virtualNodesPerNode r)]"
  have "filter (\<lambda>e. fst e \<notin> vnode_pos n ` set ?I) (ring r) = ring r"
    using assms(1) by (intro filter_True) (fastforce simp: map_of_eq_None_iff image_iff)
  then have "fold (\<lambda>i. ring_erase (vnode_pos n i)) ?I (fold (\<lambda>i. ring_put (vnode_pos n i) n) ?I (ring r)) = ring r"
    unfolding fold_ring_erase by (subst filter_puts_away) simp_all
  moreover have "filter (\<lambda>m. m \<noteq> n) (ring_nodes r) = ring_nodes r"
    using assms(2) by (intro filter_True) auto
  ultimately show ?thesis by (simp add: removeNode_def addNode_def)
qed

theorem add_remove_roundtrip_witness:
  "removeNode (addNode (addNode (new_ConsistentHashRing 1) ''a'') ''b'') ''b'' = addNode (new_ConsistentHashRing 1) ''a''"
proof -
  let ?r = "addNode (new_ConsistentHashRing 1) ''a''"
  have r: "ring ?r = [(vnode_pos ''a'' 0, ''a'')]" "virtualNodesPerNode ?r = 1" "ring_nodes ?r = [''a'']"
    by (simp_all add: addNode_def new_ConsistentHashRing_def)
  show ?thesis
    by (rule add_remove_roundtrip) (use vnode_positions_differ in \<open>simp_all add: r\<close>)
qed

text \<open>
  Two strings have the same ring position only if plain FNV-1a already maps them to the same
  value: the finalizer loses nothing.
\<close>

theorem finalizer_adds_no_collisions:
  "fnv1a64 a = fnv1a64 b \<longleftrightarrow> foldl fnv_step kOffsetBasis a = foldl fnv_step kOffsetBasis b"
  using fmix64_inject by (auto simp: fnv1a64_def)

end
