(* ===== verification/Config_File.thy ===== *)
theory Config_File
  imports Durability
begin

text \<open>
  Configuration, \<^verbatim>\<open>src/config.cpp\<close>, and what the three programs make of it and of their command
  lines (\<^verbatim>\<open>src/server_main.cpp\<close>, \<^verbatim>\<open>src/router_main.cpp\<close>, \<^verbatim>\<open>src/cli_main.cpp\<close>). A file is its bytes
  or absent. A number on the command line that \<^verbatim>\<open>std::stoi\<close> refuses ends the program: the
  result is an error.
\<close>

section \<open>Config\<close>

record Config =
  config_values :: "(string, string) mapping"

definition new_Config :: Config where
  "new_Config = \<lparr>config_values = Mapping.empty\<rparr>"

definition is_blank :: "char \<Rightarrow> bool" where
  "is_blank c \<longleftrightarrow> c \<in> {SP, CHR 0x09, CR, LF}"

definition trim :: "string \<Rightarrow> string" where
  "trim s = rev (dropWhile is_blank (rev (dropWhile is_blank s)))"

definition config_set :: "Config \<Rightarrow> string \<Rightarrow> string \<Rightarrow> Config" where
  "config_set c k v = c\<lparr>config_values := Mapping.update k v (config_values c)\<rparr>"

definition config_line :: "wire_line \<Rightarrow> Config \<Rightarrow> Config" where
  "config_line line c =
     (let trimmed = trim line
      in if trimmed = [] \<or> hd trimmed = CHR ''#'' then c
         else case find_char (CHR ''='') trimmed of
                None \<Rightarrow> c
              | Some eq \<Rightarrow>
                  let k = trim (take eq trimmed); v = trim (drop (eq + 1) trimmed)
                  in if k \<noteq> [] then c\<lparr>config_values := Mapping.update k v (config_values c)\<rparr> else c)"

definition config_loadFromFile :: "Config \<Rightarrow> string option \<Rightarrow> Config \<times> bool" where
  "config_loadFromFile c file =
     (case file of
        None \<Rightarrow> (c, False)
      | Some bytes \<Rightarrow> (fold config_line (getlines LF bytes) c, True))"

definition getString :: "Config \<Rightarrow> string \<Rightarrow> string \<Rightarrow> string" where
  "getString c k def = (case Mapping.lookup (config_values c) k of None \<Rightarrow> def | Some v \<Rightarrow> v)"

definition getInt :: "Config \<Rightarrow> string \<Rightarrow> int \<Rightarrow> int" where
  "getInt c k def =
     (case Mapping.lookup (config_values c) k of
        None \<Rightarrow> def
      | Some v \<Rightarrow> (case stoi v of Inl e \<Rightarrow> def | Inr i \<Rightarrow> i))"

definition getBool :: "Config \<Rightarrow> string \<Rightarrow> bool \<Rightarrow> bool" where
  "getBool c k def =
     (case Mapping.lookup (config_values c) k of
        None \<Rightarrow> def
      | Some v0 \<Rightarrow>
          let v = map tolower v0
          in if v = ''true'' \<or> v = ''1'' \<or> v = ''yes'' then True
             else if v = ''false'' \<or> v = ''0'' \<or> v = ''no'' then False
             else def)"

section \<open>Command lines\<close>

record Args =
  configPath :: string
  arg_host :: string
  arg_port :: int
  arg_maxKeys :: int

text \<open>The options a program knows: the server has no host, the router and the client no \<^verbatim>\<open>--max-keys\<close>.\<close>

fun server_parseArgs :: "string list \<Rightarrow> Args \<Rightarrow> conv_error + Args" where
  "server_parseArgs (arg # nxt # rest) a =
     (if arg = ''--config'' then server_parseArgs rest (a\<lparr>configPath := nxt\<rparr>)
      else if arg = ''--port'' then
        (case stoi nxt of Inl e \<Rightarrow> Inl e | Inr p \<Rightarrow> server_parseArgs rest (a\<lparr>arg_port := p\<rparr>))
      else if arg = ''--max-keys'' then
        (case stoi nxt of Inl e \<Rightarrow> Inl e | Inr m \<Rightarrow> server_parseArgs rest (a\<lparr>arg_maxKeys := m\<rparr>))
      else server_parseArgs (nxt # rest) a)"
| "server_parseArgs _ a = Inr a"

fun router_parseArgs :: "string list \<Rightarrow> Args \<Rightarrow> conv_error + Args" where
  "router_parseArgs (arg # nxt # rest) a =
     (if arg = ''--config'' then router_parseArgs rest (a\<lparr>configPath := nxt\<rparr>)
      else if arg = ''--port'' then
        (case stoi nxt of Inl e \<Rightarrow> Inl e | Inr p \<Rightarrow> router_parseArgs rest (a\<lparr>arg_port := p\<rparr>))
      else router_parseArgs (nxt # rest) a)"
| "router_parseArgs _ a = Inr a"

fun cli_parseArgs :: "string list \<Rightarrow> Args \<Rightarrow> conv_error + Args" where
  "cli_parseArgs (arg # nxt # rest) a =
     (if arg = ''--config'' then cli_parseArgs rest (a\<lparr>configPath := nxt\<rparr>)
      else if arg = ''--port'' then
        (case stoi nxt of Inl e \<Rightarrow> Inl e | Inr p \<Rightarrow> cli_parseArgs rest (a\<lparr>arg_port := p\<rparr>))
      else if arg = ''--host'' then cli_parseArgs rest (a\<lparr>arg_host := nxt\<rparr>)
      else cli_parseArgs (nxt # rest) a)"
| "cli_parseArgs _ a = Inr a"

definition server_Args :: Args where
  "server_Args = \<lparr>configPath = ''tinykv.conf'', arg_host = [], arg_port = - 1, arg_maxKeys = - 1\<rparr>"

definition router_Args :: Args where
  "router_Args = \<lparr>configPath = ''router.conf'', arg_host = [], arg_port = - 1, arg_maxKeys = - 1\<rparr>"

definition cli_Args :: Args where
  "cli_Args = \<lparr>configPath = ''tinykv.conf'', arg_host = ''127.0.0.1'', arg_port = - 1, arg_maxKeys = - 1\<rparr>"

section \<open>Settings\<close>

definition effective_port :: "Args \<Rightarrow> Config \<Rightarrow> int \<Rightarrow> int" where
  "effective_port a c def = (if arg_port a \<noteq> - 1 then arg_port a else getInt c ''port'' def)"

definition effective_maxKeys :: "Args \<Rightarrow> Config \<Rightarrow> nat" where
  "effective_maxKeys a c =
     (let maxKeysRaw = (if arg_maxKeys a \<noteq> - 1 then arg_maxKeys a else getInt c ''max_keys'' 0)
      in if maxKeysRaw > 0 then nat maxKeysRaw else 0)"

definition persistConfig :: "Config \<Rightarrow> PersistenceConfig" where
  "persistConfig c =
     \<lparr>appendOnly = getBool c ''appendonly'' True,
       dir = getString c ''dir'' ''./data'',
       dbFilename = getString c ''dbfilename'' ''dump.tkv'',
       appendFilename = getString c ''appendfilename'' ''tinykv.aof'',
       saveIntervalSeconds = getInt c ''save_interval'' 300\<rparr>"

section \<open>Lines that mean what they say\<close>

text \<open>A key and a value as they are written in a file, without blanks around them.\<close>

definition plain_binding :: "string \<times> string \<Rightarrow> bool" where
  "plain_binding kv = (case kv of (k, v) \<Rightarrow>
     k \<noteq> [] \<and> \<not> is_blank (hd k) \<and> \<not> is_blank (last k) \<and> hd k \<noteq> CHR ''#'' \<and> CHR ''='' \<notin> set k \<and> LF \<notin> set k \<and>
     LF \<notin> set v \<and> (v = [] \<or> \<not> is_blank (hd v) \<and> \<not> is_blank (last v)))"

lemma trim_id: "s = [] \<or> \<not> is_blank (hd s) \<and> \<not> is_blank (last s) \<Longrightarrow> trim s = s"
proof (cases "s = []")
  case False
  assume "s = [] \<or> \<not> is_blank (hd s) \<and> \<not> is_blank (last s)"
  with False have h: "\<not> is_blank (hd s)" "\<not> is_blank (hd (rev s))" by (simp_all add: hd_rev)
  have "dropWhile is_blank xs = xs" if "\<not> is_blank (hd xs)" for xs using that by (cases xs) auto
  from this [OF h(1)] this [OF h(2)] show ?thesis by (simp add: trim_def)
qed (simp add: trim_def)

lemma config_line_binding:
  assumes "plain_binding (k, v)"
  shows "config_line (k @ ''='' @ v) c = config_set c k v"
proof -
  note b = assms [unfolded plain_binding_def, simplified]
  have e: "\<not> is_blank (CHR ''='')" by (simp add: is_blank_def)
  have "trim (k @ ''='' @ v) = k @ ''='' @ v"
    using b e by (intro trim_id) (cases v; auto)
  moreover have "find_char (CHR ''='') (k @ ''='' @ v) = Some (length k)"
    using find_char_append [of "CHR ''=''" k v] b by simp
  moreover have "trim k = k" "trim v = v" using b by (auto intro: trim_id)
  ultimately show ?thesis using b by (simp add: config_line_def config_set_def Let_def)
qed

lemma getString_set: "getString (config_set c k v) k' d = (if k' = k then v else getString c k' d)"
  by (auto simp: getString_def config_set_def lookup_update_if)

section \<open>Properties\<close>

text \<open>
  Loading a file of plain bindings sets exactly these, the last one winning for a key that
  appears more than once, and keeps every other setting.
\<close>

theorem config_roundtrip:
  assumes "list_all plain_binding kvs"
  shows "getString (fst (config_loadFromFile c (Some (unlines (map (\<lambda>(k, v). k @ ''='' @ v) kvs))))) k d =
    (case map_of (rev kvs) k of Some v \<Rightarrow> v | None \<Rightarrow> getString c k d)"
proof -
  have "\<forall>l \<in> set (map (\<lambda>(k, v). k @ ''='' @ v) kvs). LF \<notin> set l"
    using assms by (auto simp: list_all_iff plain_binding_def)
  from getlines_unlines [OF this, of "[]"]
  have "getlines LF (unlines (map (\<lambda>(k, v). k @ ''='' @ v) kvs)) = map (\<lambda>(k, v). k @ ''='' @ v) kvs" by simp
  moreover have "getString (fold config_line (map (\<lambda>(k, v). k @ ''='' @ v) kvs) c) k d =
      (case map_of (rev kvs) k of Some v \<Rightarrow> v | None \<Rightarrow> getString c k d)"
    using assms
  proof (induction kvs arbitrary: c)
    case (Cons kv kvs)
    obtain k0 v0 where kv: "kv = (k0, v0)" by (cases kv)
    have "config_line (k0 @ ''='' @ v0) c = config_set c k0 v0" using Cons.prems kv by (intro config_line_binding) simp
    with Cons show ?case by (auto simp: kv getString_set map_add_def split: option.splits)
  qed simp
  ultimately show ?thesis by (simp add: config_loadFromFile_def)
qed

theorem config_roundtrip_witness:
  "getString (fst (config_loadFromFile new_Config (Some (''port=1'' @ [LF] @ ''dir=/x y'' @ [LF] @ ''port=2'' @ [LF]))))
     ''port'' ''0'' = ''2''"
  using config_roundtrip [of "[(''port'', ''1''), (''dir'', ''/x y''), (''port'', ''2'')]" new_Config "''port''" "''0''"]
  by (simp add: plain_binding_def is_blank_def)

end
