(* ===== verification/Shard_Topology.thy ===== *)
theory Shard_Topology
  imports Config_File
begin

text \<open>
  The shard table of the router, \<^verbatim>\<open>src/sharding/shard_topology.cpp\<close>: which shards there are, the
  health of their nodes as pings report it, and the address that serves each of them. Miss
  counters are 32-bit. The interface \<open>failover_table\<close> is what the health checker and the router
  rely on; its facts say that failing over happens once and is never undone.
\<close>

section \<open>State\<close>

datatype NodeRole = PRIMARY | REPLICA

datatype NodeHealth = UP | DOWN

record ShardNode =
  address :: string
  health :: NodeHealth
  consecutiveMisses :: int

record Shard =
  shard_id :: string
  primary :: ShardNode
  has_replica :: bool
  replica :: ShardNode
  activeAddress :: string
  failedOver :: bool

type_synonym ShardTopology = "Shard list"

definition new_ShardNode :: "string \<Rightarrow> ShardNode" where
  "new_ShardNode a = \<lparr>address = a, health = UP, consecutiveMisses = 0\<rparr>"

section \<open>Parsing\<close>

definition splitCsv :: "string \<Rightarrow> string list" where
  "splitCsv csv = filter (\<lambda>token. token \<noteq> []) (getlines (CHR '','') csv)"

definition parseShard :: "Config \<Rightarrow> string \<Rightarrow> Shard" where
  "parseShard config i =
     (let primaryAddr = getString config (i @ ''.primary'') [];
          replicaAddr = getString config (i @ ''.replica'') []
      in \<lparr>shard_id = i, primary = new_ShardNode primaryAddr, has_replica = (replicaAddr \<noteq> []),
           replica = new_ShardNode replicaAddr, activeAddress = primaryAddr, failedOver = False\<rparr>)"

definition parseShards :: "Config \<Rightarrow> ShardTopology" where
  "parseShards config = map (parseShard config) (splitCsv (getString config ''shards'' []))"

section \<open>Operations\<close>

definition findShard :: "ShardTopology \<Rightarrow> string \<Rightarrow> Shard option" where
  "findShard t i = find (\<lambda>s. shard_id s = i) t"

text \<open>A change through the pointer \<^verbatim>\<open>findShard\<close> returns.\<close>

primrec update_shard :: "(Shard \<Rightarrow> Shard) \<Rightarrow> string \<Rightarrow> ShardTopology \<Rightarrow> ShardTopology" where
  "update_shard f i [] = []"
| "update_shard f i (s # t) = (if shard_id s = i then f s # t else s # update_shard f i t)"

definition shardIds :: "ShardTopology \<Rightarrow> string list" where
  "shardIds t = map shard_id t"

definition activeAddressFor :: "ShardTopology \<Rightarrow> string \<Rightarrow> string" where
  "activeAddressFor t i = (case findShard t i of None \<Rightarrow> [] | Some s \<Rightarrow> activeAddress s)"

definition hasReplica :: "ShardTopology \<Rightarrow> string \<Rightarrow> bool" where
  "hasReplica t i = (case findShard t i of None \<Rightarrow> False | Some s \<Rightarrow> has_replica s)"

definition primaryAddress :: "ShardTopology \<Rightarrow> string \<Rightarrow> string" where
  "primaryAddress t i = (case findShard t i of None \<Rightarrow> [] | Some s \<Rightarrow> address (primary s))"

definition replicaAddress :: "ShardTopology \<Rightarrow> string \<Rightarrow> string" where
  "replicaAddress t i = (case findShard t i of None \<Rightarrow> [] | Some s \<Rightarrow> address (replica s))"

definition alreadyFailedOver :: "ShardTopology \<Rightarrow> string \<Rightarrow> bool" where
  "alreadyFailedOver t i = (case findShard t i of None \<Rightarrow> False | Some s \<Rightarrow> failedOver s)"

definition ping_node :: "bool \<Rightarrow> int \<Rightarrow> ShardNode \<Rightarrow> ShardNode" where
  "ping_node success maxMissedPings node =
     (if success then node\<lparr>consecutiveMisses := 0, health := UP\<rparr>
      else let misses = wrap32 (consecutiveMisses node + 1);
               node1 = node\<lparr>consecutiveMisses := misses\<rparr>
           in if misses \<ge> maxMissedPings then node1\<lparr>health := DOWN\<rparr> else node1)"

definition recordPingResult :: "ShardTopology \<Rightarrow> string \<Rightarrow> NodeRole \<Rightarrow> bool \<Rightarrow> int \<Rightarrow> ShardTopology" where
  "recordPingResult t i r success maxMissedPings =
     (case findShard t i of
        None \<Rightarrow> t
      | Some s0 \<Rightarrow> update_shard (\<lambda>s. case r of
          PRIMARY \<Rightarrow> s\<lparr>primary := ping_node success maxMissedPings (primary s)\<rparr>
        | REPLICA \<Rightarrow> s\<lparr>replica := ping_node success maxMissedPings (replica s)\<rparr>) i t)"

definition healthOf :: "ShardTopology \<Rightarrow> string \<Rightarrow> NodeRole \<Rightarrow> NodeHealth" where
  "healthOf t i r =
     (case findShard t i of
        None \<Rightarrow> DOWN
      | Some s \<Rightarrow> (case r of PRIMARY \<Rightarrow> health (primary s) | REPLICA \<Rightarrow> health (replica s)))"

definition promoteReplica :: "ShardTopology \<Rightarrow> string \<Rightarrow> ShardTopology \<times> bool" where
  "promoteReplica t i =
     (case findShard t i of
        None \<Rightarrow> (t, False)
      | Some s0 \<Rightarrow>
          if \<not> has_replica s0 \<or> failedOver s0 then (t, False)
          else (update_shard (\<lambda>s. s\<lparr>activeAddress := address (replica s), failedOver := True\<rparr>) i t, True))"

record NodeSnapshot =
  ns_shardId :: string
  ns_role :: NodeRole
  ns_address :: string
  ns_health :: NodeHealth
  ns_active :: bool

definition shard_snapshot :: "Shard \<Rightarrow> NodeSnapshot list" where
  "shard_snapshot s =
     \<lparr>ns_shardId = shard_id s, ns_role = PRIMARY, ns_address = address (primary s), ns_health = health (primary s),
       ns_active = (activeAddress s = address (primary s))\<rparr> #
     (if has_replica s
      then [\<lparr>ns_shardId = shard_id s, ns_role = REPLICA, ns_address = address (replica s),
              ns_health = health (replica s), ns_active = (activeAddress s = address (replica s))\<rparr>]
      else [])"

definition topology_snapshot :: "ShardTopology \<Rightarrow> NodeSnapshot list" where
  "topology_snapshot t = concat (map shard_snapshot t)"

section \<open>Finding and updating\<close>

lemma findShard_Cons [topo_simps]: "findShard (s # t) i = (if shard_id s = i then Some s else findShard t i)"
  and findShard_Nil [topo_simps]: "findShard [] i = None"
  by (simp_all add: findShard_def)

lemma findShard_update [topo_simps]:
  "(\<And>s. shard_id (f s) = shard_id s) \<Longrightarrow>
    findShard (update_shard f i t) j = (if i = j then map_option f (findShard t i) else findShard t j)"
  by (induction t) (auto simp: topo_simps)

lemma shardIds_update: "(\<And>s. shard_id (f s) = shard_id s) \<Longrightarrow> shardIds (update_shard f i t) = shardIds t"
  by (induction t) (auto simp: shardIds_def)

lemma find_record_ping [topo_simps]:
  "findShard (recordPingResult t i r b m) j =
    (if i = j then map_option (\<lambda>s. case r of
          PRIMARY \<Rightarrow> s\<lparr>primary := ping_node b m (primary s)\<rparr>
        | REPLICA \<Rightarrow> s\<lparr>replica := ping_node b m (replica s)\<rparr>) (findShard t i)
     else findShard t j)"
  by (auto simp: recordPingResult_def findShard_update split: option.split NodeRole.split)

lemma find_promote [topo_simps]:
  "findShard (fst (promoteReplica t i)) j =
    (if i = j then map_option (\<lambda>s. if has_replica s \<and> \<not> failedOver s
         then s\<lparr>activeAddress := address (replica s), failedOver := True\<rparr> else s) (findShard t i)
     else findShard t j)"
  by (auto simp: promoteReplica_def findShard_update split: option.split)

lemma ping_node_address [simp]: "address (ping_node b m n) = address n"
  by (simp add: ping_node_def Let_def)

section \<open>The failover interface\<close>

locale failover_table =
  fixes active :: "'t \<Rightarrow> 'i \<Rightarrow> 'a"
    and standby :: "'t \<Rightarrow> 'i \<Rightarrow> 'a"
    and failed :: "'t \<Rightarrow> 'i \<Rightarrow> bool"
    and step :: "'op \<Rightarrow> 't \<Rightarrow> 't"
    and promotes :: "'op \<Rightarrow> 'i \<Rightarrow> bool"
  assumes standby_fixed: "standby (step e t) i = standby t i"
    and failed_latched: "failed t i \<Longrightarrow> failed (step e t) i \<and> active (step e t) i = active t i"
    and only_promotion: "\<not> promotes e i \<Longrightarrow> active (step e t) i = active t i \<and> failed (step e t) i = failed t i"
    and promotion: "\<not> failed t i \<Longrightarrow> failed (step e t) i \<Longrightarrow> active (step e t) i = standby t i"
    and still_serving: "\<not> failed t i \<Longrightarrow> \<not> failed (step e t) i \<Longrightarrow> active (step e t) i = active t i"
begin

lemma standby_steps: "standby (fold step es t) i = standby t i"
  by (induction es arbitrary: t) (simp_all add: standby_fixed)

lemma latched: "failed t i \<Longrightarrow> failed (fold step es t) i \<and> active (fold step es t) i = active t i"
  by (induction es arbitrary: t) (auto simp: failed_latched)

lemma no_promotion: "\<not> list_ex (\<lambda>e. promotes e i) es \<Longrightarrow> failed (fold step es t) i = failed t i"
  by (induction es arbitrary: t) (auto simp: only_promotion)

text \<open>After any operations a table that has failed over serves the standby, one that has not what it served.\<close>

lemma served:
  "\<not> failed t i \<Longrightarrow> (failed (fold step es t) i \<longrightarrow> active (fold step es t) i = standby t i) \<and>
    (\<not> failed (fold step es t) i \<longrightarrow> active (fold step es t) i = active t i)"
proof (induction es arbitrary: t)
  case (Cons e es)
  show ?case
  proof (cases "failed (step e t) i")
    case True
    then show ?thesis using latched [OF True, of es] promotion [OF Cons.prems True] by simp
  next
    case False
    then show ?thesis
      using Cons.IH [OF False] still_serving [OF Cons.prems False] by (simp add: standby_fixed)
  qed
qed simp

end

datatype topo_op = Ping string NodeRole bool int | Promote string

fun topo_step :: "topo_op \<Rightarrow> ShardTopology \<Rightarrow> ShardTopology" where
  "topo_step (Ping i r b m) t = recordPingResult t i r b m"
| "topo_step (Promote i) t = fst (promoteReplica t i)"

interpretation shard_table: failover_table activeAddressFor replicaAddress alreadyFailedOver topo_step
    "\<lambda>e i. e = Promote i"
proof unfold_locales
  fix e t i
  show "replicaAddress (topo_step e t) i = replicaAddress t i"
    by (cases e) (auto simp: replicaAddress_def topo_simps split: option.split NodeRole.split)
  show "activeAddressFor (topo_step e t) i = activeAddressFor t i \<and> alreadyFailedOver (topo_step e t) i = alreadyFailedOver t i"
    if "e \<noteq> Promote i"
    using that by (cases e) (auto simp: activeAddressFor_def alreadyFailedOver_def topo_simps split: option.split NodeRole.split)
  show "alreadyFailedOver (topo_step e t) i \<and> activeAddressFor (topo_step e t) i = activeAddressFor t i"
    if "alreadyFailedOver t i"
    using that
    by (cases e) (auto simp: activeAddressFor_def alreadyFailedOver_def topo_simps split: option.splits NodeRole.split)
  show "activeAddressFor (topo_step e t) i = replicaAddress t i"
    if "\<not> alreadyFailedOver t i" and "alreadyFailedOver (topo_step e t) i"
    using that
    by (cases e) (auto simp: activeAddressFor_def alreadyFailedOver_def replicaAddress_def topo_simps
        split: option.splits NodeRole.splits if_splits)
  show "activeAddressFor (topo_step e t) i = activeAddressFor t i"
    if "\<not> alreadyFailedOver t i" and "\<not> alreadyFailedOver (topo_step e t) i"
    using that
    by (cases e) (auto simp: activeAddressFor_def alreadyFailedOver_def topo_simps
        split: option.splits NodeRole.splits if_splits)
qed

section \<open>Health\<close>

text \<open>The number of failures since the last success.\<close>

definition trailing_misses :: "bool list \<Rightarrow> nat" where
  "trailing_misses rs = length (takeWhile Not (rev rs))"

lemma trailing_misses_le: "trailing_misses rs \<le> length rs"
  using length_takeWhile_le [of Not "rev rs"] by (simp add: trailing_misses_def)

lemma ping_success [simp]: "consecutiveMisses (ping_node True m n) = 0" "health (ping_node True m n) = UP"
  by (simp_all add: ping_node_def)

lemma ping_miss:
  assumes "0 \<le> consecutiveMisses n" and "consecutiveMisses n < 2147483647"
  shows "consecutiveMisses (ping_node False m n) = consecutiveMisses n + 1"
    and "health (ping_node False m n) = (if m \<le> consecutiveMisses n + 1 then DOWN else health n)"
  using assms wrap32_exact [of "consecutiveMisses n + 1"] by (simp_all add: ping_node_def Let_def)

lemma ping_history:
  assumes "n0 = new_ShardNode a" and "int (length rs) \<le> 2147483647"
  shows "consecutiveMisses (fold (\<lambda>b. ping_node b m) rs n0) = int (trailing_misses rs) \<and>
    (health (fold (\<lambda>b. ping_node b m) rs n0) = DOWN \<longleftrightarrow> 0 < trailing_misses rs \<and> m \<le> int (trailing_misses rs))"
  using assms(2)
proof (induction rs rule: rev_induct)
  case Nil
  then show ?case by (simp add: assms(1) new_ShardNode_def trailing_misses_def)
next
  case (snoc b rs)
  let ?n = "fold (\<lambda>b. ping_node b m) rs n0"
  have ih: "consecutiveMisses ?n = int (trailing_misses rs)"
    "health ?n = DOWN \<longleftrightarrow> 0 < trailing_misses rs \<and> m \<le> int (trailing_misses rs)"
    using snoc by simp_all
  show ?case
  proof (cases b)
    case True
    then show ?thesis by (simp add: trailing_misses_def)
  next
    case False
    have t: "trailing_misses (rs @ [False]) = Suc (trailing_misses rs)" by (simp add: trailing_misses_def)
    have "0 \<le> consecutiveMisses ?n" "consecutiveMisses ?n < 2147483647"
      using snoc.prems trailing_misses_le [of rs] ih(1) by simp_all
    from ping_miss [OF this, of m] show ?thesis using False ih by (auto simp: t)
  qed
qed

lemma findShard_pings:
  "findShard t i = Some s \<Longrightarrow> findShard (fold (\<lambda>b t. recordPingResult t i PRIMARY b m) rs t) i =
    Some (s\<lparr>primary := fold (\<lambda>b. ping_node b m) rs (primary s)\<rparr>)"
  by (induction rs arbitrary: t s) (simp_all add: topo_simps)

section \<open>Properties\<close>

text \<open>
  A primary is reported down exactly when it has missed at least the configured number of
  pings (and at least one) in a row since it last answered.
\<close>

theorem down_iff_consecutive_misses:
  assumes "findShard t i = Some s" and "primary s = new_ShardNode a" and "int (length rs) \<le> 2147483647"
  shows "healthOf (fold (\<lambda>b t. recordPingResult t i PRIMARY b m) rs t) i PRIMARY = DOWN \<longleftrightarrow>
    0 < trailing_misses rs \<and> m \<le> int (trailing_misses rs)"
  using findShard_pings [OF assms(1), of m rs] ping_history [OF assms(2,3), of m] by (simp add: healthOf_def)

theorem down_iff_consecutive_misses_witness:
  "let t = [\<lparr>shard_id = ''s1'', primary = new_ShardNode ''h:1'', has_replica = False, replica = new_ShardNode [],
             activeAddress = ''h:1'', failedOver = False\<rparr>]
   in healthOf (fold (\<lambda>b t. recordPingResult t ''s1'' PRIMARY b 3) [False, False, True, False, False] t) ''s1'' PRIMARY = UP"
proof -
  let ?s = "\<lparr>shard_id = ''s1'', primary = new_ShardNode ''h:1'', has_replica = False, replica = new_ShardNode [],
             activeAddress = ''h:1'', failedOver = False\<rparr>"
  have f: "findShard [?s] ''s1'' = Some ?s" by (simp add: topo_simps)
  have p: "primary ?s = new_ShardNode ''h:1''" by simp
  have l: "int (length [False, False, True, False, False]) \<le> 2147483647" by simp
  show ?thesis
    using down_iff_consecutive_misses [OF f p l, of 3] unfolding Let_def
    by (cases "healthOf (fold (\<lambda>b t. recordPingResult t ''s1'' PRIMARY b 3) [False, False, True, False, False] [?s]) ''s1'' PRIMARY")
      (simp_all add: trailing_misses_def)
qed

end
