(* ===== verification/Health_Checker.thy ===== *)
theory Health_Checker
  imports Shard_Topology Line_Protocol
begin

text \<open>
  The health checker of the router, \<^verbatim>\<open>src/sharding/health_checker.cpp\<close>: pinging the nodes of a
  shard, keeping the table up to date, and promoting the replica of a shard whose primary is
  down. The network is a parameter: what connecting to a host and port comes to, separately for
  the three connections one check can open.
\<close>

section \<open>Addresses\<close>

definition splitAddress :: "string \<Rightarrow> (string \<times> int) option" where
  "splitAddress a =
     (case rfind_char (CHR '':'') a of
        None \<Rightarrow> None
      | Some colon \<Rightarrow> (case stoi (drop (colon + 1) a) of Inl e \<Rightarrow> None | Inr port \<Rightarrow> Some (take colon a, port)))"

section \<open>Pinging\<close>

type_synonym network = "string \<Rightarrow> int \<Rightarrow> sock option"

definition pingNode :: "network \<Rightarrow> string \<Rightarrow> bool" where
  "pingNode net a =
     (case splitAddress a of
        None \<Rightarrow> False
      | Some (host, port) \<Rightarrow>
          let (c, connected) = tcp_connect net new_TcpClient host port
          in if \<not> connected then False
             else let (c, sent) = sendLine c ''PING''
                  in if \<not> sent then False
                     else case receiveLine c of
                            (c, None) \<Rightarrow> False
                          | (c, Some response) \<Rightarrow> response = ''+OK'')"

text \<open>The promotion request: \<^verbatim>\<open>REPLICAOF NO ONE\<close>, answered with \<^verbatim>\<open>+OK\<close>.\<close>

definition askPromotion :: "network \<Rightarrow> string \<Rightarrow> bool" where
  "askPromotion net a =
     (case splitAddress a of
        None \<Rightarrow> False
      | Some (host, port) \<Rightarrow>
          let (c, connected) = tcp_connect net new_TcpClient host port;
              (c, sent) = (if connected then sendLine c ''REPLICAOF NO ONE'' else (c, False))
          in if connected \<and> sent
             then (case receiveLine c of
                     (c, None) \<Rightarrow> False
                   | (c, Some response) \<Rightarrow> response = ''+OK'')
             else False)"

section \<open>Checking a shard\<close>

record networks =
  to_primary :: network
  to_replica :: network
  to_promote :: network

definition checkShard :: "networks \<Rightarrow> int \<Rightarrow> ShardTopology \<Rightarrow> string \<Rightarrow> ShardTopology" where
  "checkShard nets maxMissedPings t0 i =
     (let primaryUp = pingNode (to_primary nets) (primaryAddress t0 i);
          t1 = recordPingResult t0 i PRIMARY primaryUp maxMissedPings;
          afterPrimary = healthOf t1 i PRIMARY
      in if \<not> hasReplica t1 i then t1
         else
           let replicaAddr = replicaAddress t1 i;
               replicaUp = pingNode (to_replica nets) replicaAddr;
               t2 = recordPingResult t1 i REPLICA replicaUp maxMissedPings;
               afterReplica = healthOf t2 i REPLICA
           in if afterPrimary \<noteq> DOWN then t2
              else if afterReplica \<noteq> UP then t2
              else if alreadyFailedOver t2 i then t2
              else if askPromotion (to_promote nets) replicaAddr then fst (promoteReplica t2 i)
              else t2)"

text \<open>One round of \<^verbatim>\<open>runLoop\<close>; the network may be different for every shard.\<close>

definition check_round :: "(string \<Rightarrow> networks) \<Rightarrow> int \<Rightarrow> ShardTopology \<Rightarrow> ShardTopology" where
  "check_round nets maxMissedPings t = foldl (\<lambda>t i. checkShard (nets i) maxMissedPings t i) t (shardIds t)"

section \<open>A check in terms of the table's operations\<close>

lemma hasReplica_ping [simp]: "hasReplica (recordPingResult t i r b m) j = hasReplica t j"
  by (auto simp: hasReplica_def topo_simps split: option.split NodeRole.split)

lemma failedOver_ping [simp]: "alreadyFailedOver (recordPingResult t i r b m) j = alreadyFailedOver t j"
  by (auto simp: alreadyFailedOver_def topo_simps split: option.split NodeRole.split)

lemma health_other_role [simp]:
  "healthOf (recordPingResult t i REPLICA b m) j PRIMARY = healthOf t j PRIMARY"
  "healthOf (recordPingResult t i PRIMARY b m) j REPLICA = healthOf t j REPLICA"
  by (auto simp: healthOf_def topo_simps split: option.split)

lemma checkShard_steps:
  "\<exists>es. checkShard nets m t i = fold topo_step es t \<and> (\<forall>e \<in> set es. \<forall>j. e = Promote j \<longrightarrow> j = i)"
proof -
  let ?p = "Ping i PRIMARY (pingNode (to_primary nets) (primaryAddress t i)) m"
  let ?t1 = "topo_step ?p t"
  let ?r = "Ping i REPLICA (pingNode (to_replica nets) (replicaAddress ?t1 i)) m"
  have "checkShard nets m t i \<in> {fold topo_step [?p] t, fold topo_step [?p, ?r] t, fold topo_step [?p, ?r, Promote i] t}"
    by (simp add: checkShard_def Let_def)
  then show ?thesis
    by (auto intro: exI [of _ "[?p]"] exI [of _ "[?p, ?r]"] exI [of _ "[?p, ?r, Promote i]"])
qed

lemma foldl_checks_steps:
  "\<exists>es. foldl (\<lambda>t i. checkShard (nets i) m t i) t is = fold topo_step es t"
proof (induction "is" arbitrary: t)
  case Nil
  show ?case by (intro exI [of _ "[]"]) simp
next
  case (Cons i "is")
  obtain es where 1: "checkShard (nets i) m t i = fold topo_step es t" using checkShard_steps by blast
  obtain fs where 2: "foldl (\<lambda>t i. checkShard (nets i) m t i) (fold topo_step es t) is = fold topo_step fs (fold topo_step es t)"
    using Cons by blast
  show ?case by (intro exI [of _ "es @ fs"]) (simp add: 1 2)
qed

lemma rounds_steps: "\<exists>es. foldl (\<lambda>t nets. check_round nets m t) t rounds = fold topo_step es t"
proof (induction rounds arbitrary: t)
  case Nil
  show ?case by (intro exI [of _ "[]"]) simp
next
  case (Cons nets rounds)
  obtain es where 1: "check_round nets m t = fold topo_step es t"
    using foldl_checks_steps unfolding check_round_def by blast
  obtain fs where "foldl (\<lambda>t nets. check_round nets m t) (check_round nets m t) rounds = fold topo_step fs (check_round nets m t)"
    using Cons by blast
  then show ?case by (intro exI [of _ "es @ fs"]) (simp add: 1)
qed

section \<open>Properties\<close>

text \<open>
  C27: a check fails a shard over exactly when the shard is known, has a replica and has not been
  failed over, its primary is down and its replica up after this round's pings, and the replica
  has confirmed its promotion; the shard is then served from the replica, and otherwise the
  address it is served from does not change.
\<close>

theorem checkShard_fails_over_iff:
  assumes "\<not> alreadyFailedOver t i"
  shows "let t' = checkShard nets m t i in
    (alreadyFailedOver t' i \<longleftrightarrow> hasReplica t i \<and> healthOf t' i PRIMARY = DOWN \<and> healthOf t' i REPLICA = UP \<and>
       askPromotion (to_promote nets) (replicaAddress t i)) \<and>
    activeAddressFor t' i = (if alreadyFailedOver t' i then replicaAddress t i else activeAddressFor t i)"
proof -
  have r: "replicaAddress (recordPingResult t i r b m) i = replicaAddress t i" for t r b
    using shard_table.standby_fixed [of "Ping i r b m" t i] by simp
  have a: "activeAddressFor (recordPingResult t j r b m) i = activeAddressFor t i" for t j r b
    using shard_table.only_promotion [of "Ping j r b m" i t] by simp
  have p: "alreadyFailedOver (fst (promoteReplica t2 i)) i" "activeAddressFor (fst (promoteReplica t2 i)) i = replicaAddress t2 i"
    "healthOf (fst (promoteReplica t2 i)) i q = healthOf t2 i q"
    if "hasReplica t2 i" "\<not> alreadyFailedOver t2 i" for t2 q
    using that
    by (auto simp: hasReplica_def alreadyFailedOver_def activeAddressFor_def replicaAddress_def healthOf_def topo_simps
        split: option.splits NodeRole.split)
  show ?thesis
    using assms by (auto simp: checkShard_def Let_def r a p)
qed

definition lost_primary :: networks where
  "lost_primary =
     (let answers = (\<lambda>h p. Some \<lparr>sk_rx = [''+OK'' @ [LF]], sk_tx = [100], sk_out = []\<rparr>)
      in \<lparr>to_primary = \<lambda>h p. None, to_replica = answers, to_promote = answers\<rparr>)"

definition one_shard :: ShardTopology where
  "one_shard = [\<lparr>shard_id = ''s1'', primary = new_ShardNode ''p:1'', has_replica = True, replica = new_ShardNode ''r:2'',
     activeAddress = ''p:1'', failedOver = False\<rparr>]"

lemma lost_primary_answers:
  "\<not> pingNode (to_primary lost_primary) ''p:1''" "pingNode (to_replica lost_primary) ''r:2''"
  "askPromotion (to_promote lost_primary) ''r:2''"
  by code_simp+

lemma one_shard_fails_over:
  "\<not> alreadyFailedOver one_shard ''s1''" "alreadyFailedOver (checkShard lost_primary 1 one_shard ''s1'') ''s1''"
  "replicaAddress one_shard ''s1'' = ''r:2''"
  using lost_primary_answers
  by (simp_all add: checkShard_def one_shard_def primaryAddress_def replicaAddress_def hasReplica_def healthOf_def
      alreadyFailedOver_def topo_simps new_ShardNode_def ping_node_def wrap32_exact Let_def)

theorem checkShard_fails_over_iff_witness:
  "activeAddressFor (checkShard lost_primary 1 one_shard ''s1'') ''s1'' = ''r:2''"
  using checkShard_fails_over_iff [OF one_shard_fails_over(1), of lost_primary 1] one_shard_fails_over(2,3) by (simp add: Let_def)

text \<open>
  Rounds of health checks never bring a shard back. Once a shard has been failed over, no
  sequence of rounds, whatever the network does, changes the address it is served from; the
  primary may be reported up again, but it gets no traffic.
\<close>

theorem rounds_keep_failover:
  assumes "alreadyFailedOver t i"
  shows "let t' = foldl (\<lambda>t nets. check_round nets m t) t rounds
         in alreadyFailedOver t' i \<and> activeAddressFor t' i = activeAddressFor t i"
  using rounds_steps [of m t rounds] shard_table.latched [OF assms] by auto

theorem rounds_keep_failover_witness:
  "activeAddressFor (foldl (\<lambda>t nets. check_round nets 1 t) (fst (promoteReplica one_shard ''s1''))
     [\<lambda>i. lost_primary, \<lambda>i. lost_primary]) ''s1'' = ''r:2''"
proof -
  have "alreadyFailedOver (fst (promoteReplica one_shard ''s1'')) ''s1''"
    and a: "activeAddressFor (fst (promoteReplica one_shard ''s1'')) ''s1'' = ''r:2''"
    by (simp_all add: one_shard_def alreadyFailedOver_def activeAddressFor_def topo_simps new_ShardNode_def)
  from rounds_keep_failover [OF this(1), of 1 "[\<lambda>i. lost_primary, \<lambda>i. lost_primary]"] a show ?thesis
    by (simp add: Let_def del: foldl.simps)
qed

end
