(* ===== verification/Router.thy ===== *)
theory Router
  imports Protocol Hash_Ring Health_Checker
begin

text \<open>
  The sharding router, \<^verbatim>\<open>src/sharding/router.cpp\<close>: a ring of shard ids, one backend connection
  per shard, and the connection handler that answers \<^verbatim>\<open>ROUTE\<close>, \<^verbatim>\<open>NODES\<close> and \<^verbatim>\<open>PING\<close> itself and
  forwards every other command by its first argument. The shard table belongs to the health
  checker's thread and the network to the outside: both are arguments, and a connection sees the
  ones of the moment at each of its lines. The lemmas say which node a request goes to.
\<close>

section \<open>State\<close>

record BackendConnection =
  be_client :: TcpClient
  be_address :: string

record Router =
  rt_ring :: ConsistentHashRing
  rt_backends :: "(string, BackendConnection) mapping"

definition default_virtualNodes :: int where
  "default_virtualNodes = 150"

definition new_Router :: "ShardTopology \<Rightarrow> Router" where
  "new_Router t =
     \<lparr>rt_ring = foldl addNode (new_ConsistentHashRing default_virtualNodes) (shardIds t), rt_backends = Mapping.empty\<rparr>"

definition shardCount :: "Router \<Rightarrow> nat" where
  "shardCount r = nodeCount (rt_ring r)"

section \<open>Forwarding\<close>

definition addressForKey :: "ShardTopology \<Rightarrow> Router \<Rightarrow> key \<Rightarrow> string" where
  "addressForKey t r k = activeAddressFor t (getNode (rt_ring r) k)"

definition backendFor :: "Router \<Rightarrow> string \<Rightarrow> Router \<times> BackendConnection" where
  "backendFor r i =
     (case Mapping.lookup (rt_backends r) i of
        Some b \<Rightarrow> (r, b)
      | None \<Rightarrow> (let b = \<lparr>be_client = new_TcpClient, be_address = []\<rparr>
                 in (r\<lparr>rt_backends := Mapping.update i b (rt_backends r)\<rparr>, b)))"

text \<open>Changes through the reference \<^verbatim>\<open>backendFor\<close> returns.\<close>

definition put_backend :: "Router \<Rightarrow> string \<Rightarrow> BackendConnection \<Rightarrow> Router" where
  "put_backend r i b = r\<lparr>rt_backends := Mapping.update i b (rt_backends r)\<rparr>"

text \<open>\<open>retarget\<close> drops a connection to another node; \<open>ensure_connected\<close> opens one where there is none.\<close>

definition retarget :: "string \<Rightarrow> BackendConnection \<Rightarrow> BackendConnection" where
  "retarget a b = (if be_address b \<noteq> a then b\<lparr>be_client := tcp_close (be_client b), be_address := a\<rparr> else b)"

definition ensure_connected :: "network \<Rightarrow> string \<Rightarrow> BackendConnection \<Rightarrow> BackendConnection \<times> bool" where
  "ensure_connected net a b =
     (if isConnected (be_client b) then (b, True)
      else case splitAddress a of
             None \<Rightarrow> (b, False)
           | Some (host, port) \<Rightarrow> (case tcp_connect net (be_client b) host port of
               (c, ok) \<Rightarrow> (b\<lparr>be_client := c\<rparr>, ok)))"

definition exchange :: "wire_line \<Rightarrow> BackendConnection \<Rightarrow> BackendConnection \<times> wire_line option" where
  "exchange line b =
     (case sendLine (be_client b) line of
        (c, False) \<Rightarrow> (b\<lparr>be_client := tcp_close c\<rparr>, None)
      | (c, True) \<Rightarrow> (case receiveLine c of
          (c', None) \<Rightarrow> (b\<lparr>be_client := tcp_close c'\<rparr>, None)
        | (c', Some response) \<Rightarrow> (b\<lparr>be_client := c'\<rparr>, Some response)))"

definition forward :: "network \<Rightarrow> ShardTopology \<Rightarrow> Router \<Rightarrow> string \<Rightarrow> wire_line \<Rightarrow> Router \<times> wire_line option" where
  "forward net t r i line =
     (let a = activeAddressFor t i
      in if a = [] then (r, None)
         else let (r1, b0) = backendFor r i;
                  (b1, ok) = ensure_connected net a (retarget a b0)
              in if \<not> ok then (put_backend r1 i b1, None)
                 else let (b2, response) = exchange line b1 in (put_backend r1 i b2, response))"

section \<open>Replies of its own\<close>

definition roleName :: "NodeRole \<Rightarrow> string" where
  "roleName r = (case r of PRIMARY \<Rightarrow> ''PRIMARY'' | REPLICA \<Rightarrow> ''REPLICA'')"

definition healthName :: "NodeHealth \<Rightarrow> string" where
  "healthName h = (case h of UP \<Rightarrow> ''UP'' | DOWN \<Rightarrow> ''DOWN'')"

definition node_text :: "NodeSnapshot \<Rightarrow> string" where
  "node_text n = ns_shardId n @ '':'' @ roleName (ns_role n) @ '':'' @ ns_address n @ '':'' @ healthName (ns_health n) @
     '':'' @ (if ns_active n then ''ACTIVE'' else ''STANDBY'')"

fun join_nodes :: "bool \<Rightarrow> NodeSnapshot list \<Rightarrow> string" where
  "join_nodes is_first [] = []"
| "join_nodes is_first (n # ns) = (if is_first then [] else '';'') @ node_text n @ join_nodes False ns"

definition nodesReply :: "ShardTopology \<Rightarrow> string" where
  "nodesReply t = join_nodes True (topology_snapshot t)"

section \<open>The connection handler\<close>

text \<open>The reply to one line, and the router afterwards; an empty line gets none.\<close>

definition router_answer :: "network \<Rightarrow> ShardTopology \<Rightarrow> wire_line \<Rightarrow> Router \<Rightarrow> Router \<times> wire_line option" where
  "router_answer net t line r =
     (if line = [] then (r, None)
      else case parse line of
             Inl (ProtocolError what) \<Rightarrow> (r, Some (Reply_error what))
           | Inr cmd \<Rightarrow>
               if cmd_type cmd = ROUTE then
                 (case cmd_args cmd of
                    [k] \<Rightarrow> (r, Some (Reply_bulk (addressForKey t r k)))
                  | _ \<Rightarrow> (r, Some (Reply_error (''wrong number of arguments for '' @ [CHR 0x27] @ ''ROUTE'' @ [CHR 0x27]))))
               else if cmd_type cmd = NODES then
                 (if cmd_args cmd \<noteq> []
                  then (r, Some (Reply_error (''wrong number of arguments for '' @ [CHR 0x27] @ ''NODES'' @ [CHR 0x27])))
                  else (r, Some (Reply_bulk (nodesReply t))))
               else if cmd_type cmd = PING \<and> cmd_args cmd = [] then (r, Some Reply_ok)
               else (case cmd_args cmd of
                       [] \<Rightarrow> (r, Some (Reply_error ([CHR 0x27] @ cmd_name cmd @ [CHR 0x27] @ '' has no key to route on'')))
                     | k # rest \<Rightarrow>
                         (let i = getNode (rt_ring r) k; (r', response) = forward net t r i line
                          in case response of
                               None \<Rightarrow> (r', Some (Reply_error (''shard '' @ i @ '' unavailable'')))
                             | Some resp \<Rightarrow> (r', Some resp))))"

text \<open>The loop, on the reader's buffer and the client's socket, with network and table by line number.\<close>

function router_handleConnection ::
  "(nat \<Rightarrow> network) \<Rightarrow> (nat \<Rightarrow> ShardTopology) \<Rightarrow> nat \<Rightarrow> string \<Rightarrow> sock \<Rightarrow> Router \<Rightarrow> Router \<times> sock" where
  "router_handleConnection nets ts n buffer k r =
     (case readLine buffer (sk_rx k) of
        (None, buffer', chunks') \<Rightarrow> (r, k\<lparr>sk_rx := chunks'\<rparr>)
      | (Some line, buffer', chunks') \<Rightarrow>
          (case router_answer (nets n) (ts n) line r of
             (r', None) \<Rightarrow> router_handleConnection nets ts (Suc n) buffer' (k\<lparr>sk_rx := chunks'\<rparr>) r'
           | (r', Some reply) \<Rightarrow>
               (case writeLine (k\<lparr>sk_rx := chunks'\<rparr>) reply of
                  (k', False) \<Rightarrow> (r', k')
                | (k', True) \<Rightarrow> router_handleConnection nets ts (Suc n) buffer' k' r')))"
  by pat_completeness auto
termination
proof (relation "measure (\<lambda>(nets, ts, n, b, k, r). length b + length (concat (sk_rx k)))", goal_cases)
  case 1
  show ?case by simp
next
  case 2
  then show ?case by (auto simp: readLine_consumes [OF sym])
next
  case 3
  then show ?case by (auto simp: readLine_consumes [OF sym] dest!: writeLine_result [OF sym])
qed

declare router_handleConnection.simps [simp del]

section \<open>Where requests go\<close>

lemma backendFor_address: "backendFor r i = (r1, b) \<Longrightarrow> rt_ring r1 = rt_ring r \<and>
    (\<forall>j. j \<noteq> i \<longrightarrow> Mapping.lookup (rt_backends r1) j = Mapping.lookup (rt_backends r) j)"
  by (auto simp: backendFor_def lookup_update_if Let_def split: option.splits)

lemma exchange_success:
  assumes "exchange line b = (b', Some response)" and "cl_sock (be_client b) = Some s"
  shows "be_address b' = be_address b \<and> (\<exists>s'. cl_sock (be_client b') = Some s' \<and> sk_out s' = sk_out s @ line @ [LF])"
proof -
  obtain s1 ok where w: "writeLine s line = (s1, ok)" by fastforce
  from assms have ok by (auto simp: exchange_def sendLine_def w split: prod.splits bool.splits)
  with w have out: "sk_out s1 = sk_out s @ line @ [LF]" using writeLine_result [OF w] by simp
  obtain l bf cs where rl: "readLine (cl_buffer (be_client b)) (sk_rx s1) = (l, bf, cs)" by (metis prod_cases3)
  show ?thesis
    using assms out \<open>ok\<close>
    by (auto simp: exchange_def sendLine_def w receiveLine_def rl split: option.splits bool.splits)
qed

lemma retarget_address [simp]: "be_address (retarget a b) = a"
  by (simp add: retarget_def)

lemma ensure_connected_result:
  assumes "ensure_connected net a b = (b', True)"
  shows "be_address b' = be_address b \<and>
    (\<exists>s. cl_sock (be_client b') = Some s \<and>
      (cl_sock (be_client b) = Some s \<or>
       cl_sock (be_client b) = None \<and> (\<exists>host port. splitAddress a = Some (host, port) \<and> net host port = Some s)))"
  using assms
  by (auto simp: ensure_connected_def isConnected_def tcp_connect_def split: if_splits option.splits prod.splits)

section \<open>Properties\<close>

text \<open>
  C32: \<^verbatim>\<open>ROUTE\<close> and forwarding agree. A request that is answered by a backend was written, whole and
  terminated, to a connection filed under exactly the address \<^verbatim>\<open>ROUTE\<close> would report for its key at
  that moment; a connection filed under another address (before a failover) is not reused, the
  request then goes to a connection freshly opened to that address. No other backend is touched.
\<close>

theorem forward_goes_to_routed_node:
  assumes "forward net t r (getNode (rt_ring r) k) line = (r', Some response)"
  shows "(\<forall>j. j \<noteq> getNode (rt_ring r) k \<longrightarrow> Mapping.lookup (rt_backends r') j = Mapping.lookup (rt_backends r) j) \<and>
    (\<exists>b s. Mapping.lookup (rt_backends r') (getNode (rt_ring r) k) = Some b \<and>
    be_address b = addressForKey t r k \<and> addressForKey t r k \<noteq> [] \<and> cl_sock (be_client b) = Some s \<and>
    ((\<exists>b0 s0. Mapping.lookup (rt_backends r) (getNode (rt_ring r) k) = Some b0 \<and> be_address b0 = addressForKey t r k \<and>
        cl_sock (be_client b0) = Some s0 \<and> sk_out s = sk_out s0 @ line @ [LF]) \<or>
     (\<exists>host port s0. splitAddress (addressForKey t r k) = Some (host, port) \<and> net host port = Some s0 \<and>
        sk_out s = sk_out s0 @ line @ [LF])))"
proof -
  let ?i = "getNode (rt_ring r) k" and ?a = "addressForKey t r k"
  have a: "activeAddressFor t ?i = ?a" by (simp add: addressForKey_def)
  obtain r1 b0 where b0: "backendFor r ?i = (r1, b0)" by fastforce
  obtain b1 ok where b1: "ensure_connected net ?a (retarget ?a b0) = (b1, ok)" by fastforce
  obtain b2 resp where b2: "exchange line b1 = (b2, resp)" by fastforce
  have h: "?a \<noteq> []" "ok" "r' = put_backend r1 ?i b2" "resp = Some response"
    using assms by (auto simp: forward_def a b0 b1 b2 Let_def split: if_splits)
  from ensure_connected_result [OF b1 [unfolded h(2) [THEN eqTrueI]]] obtain s where
    s: "be_address b1 = ?a" "cl_sock (be_client b1) = Some s"
      "cl_sock (be_client (retarget ?a b0)) = Some s \<or>
       (\<exists>host port. splitAddress ?a = Some (host, port) \<and> net host port = Some s)"
    by auto
  from exchange_success [OF b2 [unfolded h(4)] s(2)] obtain s' where
    s': "be_address b2 = ?a" "cl_sock (be_client b2) = Some s'" "sk_out s' = sk_out s @ line @ [LF]"
    using s(1) by auto
  have old: "Mapping.lookup (rt_backends r) ?i = Some b0 \<and> be_address b0 = ?a \<and> cl_sock (be_client b0) = Some s"
    if "cl_sock (be_client (retarget ?a b0)) = Some s"
    using that b0
    by (auto simp: retarget_def tcp_close_def backendFor_def new_TcpClient_def Let_def split: if_splits option.splits)
  have "Mapping.lookup (rt_backends r') ?i = Some b2" by (simp add: h(3) put_backend_def lookup_update_if)
  moreover have "Mapping.lookup (rt_backends r') j = Mapping.lookup (rt_backends r) j" if "j \<noteq> ?i" for j
    using backendFor_address [OF b0] that by (simp add: h(3) put_backend_def lookup_update_if)
  ultimately show ?thesis using s' s(3) old h(1) by blast
qed

theorem forward_goes_to_routed_node_witness:
  "let r = \<lparr>rt_ring = addNode (new_ConsistentHashRing 1) ''s1'', rt_backends = Mapping.empty\<rparr>;
       net = (\<lambda>h p. Some \<lparr>sk_rx = [''+v'' @ [LF]], sk_tx = [100], sk_out = []\<rparr>)
   in \<exists>r' b s. forward net one_shard r (getNode (rt_ring r) ''k'') ''GET k'' = (r', Some ''+v'') \<and>
        Mapping.lookup (rt_backends r') (getNode (rt_ring r) ''k'') = Some b \<and>
        be_address b = addressForKey one_shard r ''k'' \<and> cl_sock (be_client b) = Some s"
proof -
  let ?r = "\<lparr>rt_ring = addNode (new_ConsistentHashRing 1) ''s1'', rt_backends = Mapping.empty\<rparr>"
  let ?net = "\<lambda>h p. Some \<lparr>sk_rx = [''+v'' @ [LF]], sk_tx = [100], sk_out = []\<rparr>"
  have "snd (forward ?net one_shard ?r (getNode (rt_ring ?r) ''k'') ''GET k'') = Some ''+v''" by code_simp
  then obtain r' where f: "forward ?net one_shard ?r (getNode (rt_ring ?r) ''k'') ''GET k'' = (r', Some ''+v'')"
    by (metis prod.collapse)
  from forward_goes_to_routed_node [OF f] f show ?thesis unfolding Let_def by blast
qed

text \<open>
  Every key is routed to a declared shard, and to the same one before and after any failover:
  the ring is built from the shard ids alone.
\<close>

theorem keys_routed_to_declared_shards:
  assumes "shardIds t \<noteq> []"
  shows "getNode (rt_ring (new_Router t)) k \<in> set (shardIds t) \<and> rt_ring (new_Router (fold topo_step es t)) = rt_ring (new_Router t)"
proof -
  let ?r = "foldl addNode (new_ConsistentHashRing default_virtualNodes) (shardIds t)"
  have v: "0 < virtualNodesPerNode (new_ConsistentHashRing default_virtualNodes)"
    by (simp add: new_ConsistentHashRing_def default_virtualNodes_def)
  have n: "ring_nodes (new_ConsistentHashRing default_virtualNodes) = []" by (simp add: new_ConsistentHashRing_def)
  have i: "ring_inv ?r" "ring_nodes ?r = shardIds t" "ring ?r \<noteq> []"
    using ring_of_nodes [OF ring_inv_new, of default_virtualNodes "shardIds t"] v n assms by simp_all
  then have "getNode ?r k = snd (next_entry (fnv1a64 k) (ring ?r))"
    by (simp add: getNode_def owner_next ring_inv_def)
  moreover have "snd (next_entry (fnv1a64 k) (ring ?r)) \<in> set (shardIds t)"
    using next_entry_mem [OF i(3), of "fnv1a64 k"] i(1,2) by (auto simp: ring_inv_def)
  moreover have "shardIds (topo_step e t) = shardIds t" for e t
    by (cases e) (auto simp: recordPingResult_def promoteReplica_def shardIds_update split: option.split NodeRole.split)
  then have "shardIds (fold topo_step es t) = shardIds t" by (induction es arbitrary: t) simp_all
  ultimately show ?thesis by (simp add: new_Router_def)
qed

theorem keys_routed_to_declared_shards_witness:
  "getNode (rt_ring (new_Router one_shard)) ''k'' = ''s1''"
  using keys_routed_to_declared_shards [of one_shard "''k''" "[]"] by (simp add: one_shard_def shardIds_def)

end
