(* ===== verification/Logger.thy ===== *)
theory Logger
  imports Config_File
begin

text \<open>
  The logger, \<^verbatim>\<open>src/logger.cpp\<close>, and the log level of the server's configuration
  (\<^verbatim>\<open>parseLogLevel\<close> in \<^verbatim>\<open>src/server_main.cpp\<close>). Levels are ordered as the enumeration is. The
  system clock and the local time it stands for are arguments, and the streams are the lines written to them.
\<close>

datatype LogLevel = DEBUG | INFO | WARN | ERROR

fun level_rank :: "LogLevel \<Rightarrow> nat" where
  "level_rank DEBUG = 0"
| "level_rank INFO = 1"
| "level_rank WARN = 2"
| "level_rank ERROR = 3"

lemma level_rank_inject: "level_rank a = level_rank b \<longleftrightarrow> a = b"
  by (cases a; cases b) simp_all

instantiation LogLevel :: linorder
begin

definition less_eq_LogLevel :: "LogLevel \<Rightarrow> LogLevel \<Rightarrow> bool" where
  "less_eq_LogLevel a b \<longleftrightarrow> level_rank a \<le> level_rank b"

definition less_LogLevel :: "LogLevel \<Rightarrow> LogLevel \<Rightarrow> bool" where
  "less_LogLevel a b \<longleftrightarrow> level_rank a < level_rank b"

instance
  by standard (auto simp: less_eq_LogLevel_def less_LogLevel_def level_rank_inject)

end

record Logger =
  g_level :: LogLevel
  g_useFile :: bool
  out_lines :: "string list"
  err_lines :: "string list"
  file_lines :: "string list"

definition initial_Logger :: Logger where
  "initial_Logger = \<lparr>g_level = INFO, g_useFile = False, out_lines = [], err_lines = [], file_lines = []\<rparr>"

definition levelName :: "LogLevel \<Rightarrow> string" where
  "levelName l = (case l of DEBUG \<Rightarrow> ''DEBUG'' | INFO \<Rightarrow> ''INFO'' | WARN \<Rightarrow> ''WARN'' | ERROR \<Rightarrow> ''ERROR'')"

text \<open>
  The broken-down time of \<^verbatim>\<open>localtime_r\<close>, years from 1900 and months from 0, and the format
  \<^verbatim>\<open>%Y-%m-%d %H:%M:%S\<close>; the clock counts nanoseconds.
\<close>

record tm =
  tm_year :: int
  tm_mon :: int
  tm_mday :: int
  tm_hour :: int
  tm_min :: int
  tm_sec :: int

definition two_digits :: "int \<Rightarrow> string" where
  "two_digits n = (if n < 10 then ''0'' @ to_string n else to_string n)"

definition put_time :: "tm \<Rightarrow> string" where
  "put_time b = to_string (tm_year b + 1900) @ ''-'' @ two_digits (tm_mon b + 1) @ ''-'' @ two_digits (tm_mday b) @ '' '' @
     two_digits (tm_hour b) @ '':'' @ two_digits (tm_min b) @ '':'' @ two_digits (tm_sec b)"

definition timestamp :: "(int \<Rightarrow> tm) \<Rightarrow> int \<Rightarrow> string" where
  "timestamp localtime_r now = put_time (localtime_r (cpp_quotient now 1000000000))"

definition logger_init :: "(file_path \<Rightarrow> bool) \<Rightarrow> LogLevel \<Rightarrow> file_path \<Rightarrow> Logger \<Rightarrow> Logger" where
  "logger_init opens level logFile g =
     (let g1 = g\<lparr>g_level := level\<rparr> in if logFile \<noteq> [] then g1\<lparr>g_useFile := opens logFile\<rparr> else g1)"

definition setLevel :: "LogLevel \<Rightarrow> Logger \<Rightarrow> Logger" where
  "setLevel level g = g\<lparr>g_level := level\<rparr>"

definition logger_log :: "(int \<Rightarrow> tm) \<Rightarrow> int \<Rightarrow> LogLevel \<Rightarrow> string \<Rightarrow> Logger \<Rightarrow> Logger" where
  "logger_log localtime_r now level message g =
     (if level < g_level g then g
      else let line = ''['' @ timestamp localtime_r now @ ''] ['' @ levelName level @ ''] '' @ message;
               g1 = (if level = ERROR then g\<lparr>err_lines := err_lines g @ [line]\<rparr>
                     else g\<lparr>out_lines := out_lines g @ [line]\<rparr>)
           in if g_useFile g then g1\<lparr>file_lines := file_lines g1 @ [line]\<rparr> else g1)"

definition parseLogLevel :: "string \<Rightarrow> LogLevel" where
  "parseLogLevel level =
     (if level = ''DEBUG'' then DEBUG
      else if level = ''WARN'' then WARN
      else if level = ''ERROR'' then ERROR
      else INFO)"

text \<open>A time in range has nineteen characters, so that the columns of a log are aligned.\<close>

definition tm_ok :: "tm \<Rightarrow> bool" where
  "tm_ok b \<longleftrightarrow> - 900 \<le> tm_year b \<and> tm_year b < 8100 \<and> 0 \<le> tm_mon b \<and> tm_mon b < 12 \<and> 0 \<le> tm_mday b \<and> tm_mday b \<le> 31 \<and>
     0 \<le> tm_hour b \<and> tm_hour b < 24 \<and> 0 \<le> tm_min b \<and> tm_min b < 60 \<and> 0 \<le> tm_sec b \<and> tm_sec b \<le> 60"

lemma digits_one: "n < 10 \<Longrightarrow> length (digits n) = 1"
  by (subst digits.simps) simp

lemma digits_more: "10 \<le> n \<Longrightarrow> length (digits n) = Suc (length (digits (n div 10)))"
  by (subst digits.simps) simp

lemma length_two_digits: "0 \<le> n \<Longrightarrow> n < 100 \<Longrightarrow> length (two_digits n) = 2"
proof -
  assume "0 \<le> n" and "n < 100"
  then have "nat n < 10 \<or> 10 \<le> nat n \<and> nat n div 10 < 10" by linarith
  with \<open>0 \<le> n\<close> show ?thesis by (auto simp: two_digits_def to_string_def digits_one digits_more)
qed

lemma length_year: "1000 \<le> n \<Longrightarrow> n < 10000 \<Longrightarrow> length (to_string n) = 4"
proof -
  assume "1000 \<le> n" and "n < 10000"
  then have "1000 \<le> nat n" "nat n < 10000" by linarith+
  then have "10 \<le> nat n" "10 \<le> nat n div 10" "10 \<le> nat n div 10 div 10" "nat n div 10 div 10 div 10 < 10" by linarith+
  then have "length (digits (nat n)) = 4" by (simp only: digits_more digits_one)
  with \<open>1000 \<le> n\<close> show ?thesis by (simp add: to_string_def)
qed

lemma timestamp_length: "tm_ok (localtime_r (cpp_quotient now 1000000000)) \<Longrightarrow> length (timestamp localtime_r now) = 19"
  by (simp add: timestamp_def put_time_def tm_ok_def length_two_digits length_year)

text \<open>The configured names are read back, and errors are never filtered out.\<close>

lemma parseLogLevel_levelName: "parseLogLevel (levelName l) = l"
  by (cases l) (simp_all add: parseLogLevel_def levelName_def)

lemma errors_always_logged:
  "err_lines (logger_log lt now ERROR m g) = err_lines g @ [''['' @ timestamp lt now @ ''] [ERROR] '' @ m]"
proof -
  have "\<not> ERROR < g_level g" by (cases "g_level g") (simp_all add: less_LogLevel_def)
  then show ?thesis by (simp add: logger_log_def levelName_def Let_def)
qed

lemma log_filtered:
  "logger_log lt now l m g = g \<longleftrightarrow> l < g_level g"
  by (cases g) (auto simp: logger_log_def Let_def)

end
