(* ===== verification/Frontends.thy ===== *)
theory Frontends
  imports Line_Protocol Config_File
begin

text \<open>
  The listening socket, \<^verbatim>\<open>src/net/tcp_server.cpp\<close>, and the interactive client,
  \<^verbatim>\<open>src/cli_main.cpp\<close>. What the system calls answer is an argument; the accept loop is given the
  answers of its \<^verbatim>\<open>accept\<close> calls with the running flag each turn of the loop sees, and yields the
  descriptors it hands to connection threads.
\<close>

section \<open>TcpServer\<close>

record TcpServer =
  srv_port :: int
  listenFd :: int
  srv_running :: bool
  closed_fds :: "int list"

definition new_TcpServer :: "int \<Rightarrow> TcpServer" where
  "new_TcpServer port = \<lparr>srv_port = port, listenFd = - 1, srv_running = False, closed_fds = []\<rparr>"

record start_calls =
  call_socket :: int
  call_setsockopt :: int
  call_bind :: "int \<Rightarrow> int"
  call_listen :: int

definition close_listen :: "TcpServer \<Rightarrow> TcpServer" where
  "close_listen s = s\<lparr>closed_fds := closed_fds s @ [listenFd s], listenFd := - 1\<rparr>"

text \<open>The port is cut to 16 bits for \<^verbatim>\<open>bind\<close>.\<close>

definition tcp_start :: "start_calls \<Rightarrow> TcpServer \<Rightarrow> TcpServer \<times> bool" where
  "tcp_start calls s0 =
     (let s = s0\<lparr>listenFd := call_socket calls\<rparr>
      in if listenFd s < 0 then (s, False)
         else if call_setsockopt calls < 0 then (close_listen s, False)
         else if call_bind calls (srv_port s mod 65536) < 0 then (close_listen s, False)
         else if call_listen calls < 0 then (close_listen s, False)
         else (s\<lparr>srv_running := True\<rparr>, True))"

fun tcp_run :: "(bool \<times> int) list \<Rightarrow> int list" where
  "tcp_run [] = []"
| "tcp_run ((running, clientFd) # rest) =
     (if \<not> running then []
      else if clientFd < 0 then tcp_run rest
      else clientFd # tcp_run rest)"

definition tcp_stop :: "TcpServer \<Rightarrow> TcpServer" where
  "tcp_stop s0 = (let s = s0\<lparr>srv_running := False\<rparr> in if listenFd s \<ge> 0 then close_listen s else s)"

text \<open>Starting succeeds with an open descriptor or fails without leaking one; stopping closes it once.\<close>

lemma tcp_start_result:
  assumes "tcp_start calls s = (s', ok)"
  shows "if ok then srv_running s' \<and> 0 \<le> listenFd s' \<and> closed_fds s' = closed_fds s
         else srv_running s' = srv_running s \<and> listenFd s' < 0 \<and>
           closed_fds s' = closed_fds s @ (if 0 \<le> call_socket calls then [call_socket calls] else [])"
  using assms by (auto simp: tcp_start_def close_listen_def Let_def split: if_splits)

lemma tcp_stop_idempotent: "tcp_stop (tcp_stop s) = tcp_stop s"
  by (simp add: tcp_stop_def close_listen_def Let_def)

lemma tcp_run_accepted:
  "tcp_run xs = filter (\<lambda>fd. 0 \<le> fd) (map snd (takeWhile fst xs))"
  by (induction xs rule: tcp_run.induct) auto

section \<open>The interactive client\<close>

datatype cli_end = EndOfInput | Quit | SendFailed | ReceiveFailed

text \<open>The loop of \<^verbatim>\<open>main\<close>: lines typed, the client, replies printed.\<close>

fun cli_loop :: "string list \<Rightarrow> TcpClient \<Rightarrow> string list \<Rightarrow> TcpClient \<times> string list \<times> cli_end" where
  "cli_loop [] c printed = (c, printed, EndOfInput)"
| "cli_loop (input # inputs) c printed =
     (if input = ''quit'' \<or> input = ''exit'' then (c, printed, Quit)
      else if input = [] then cli_loop inputs c printed
      else case sendLine c input of
             (c1, False) \<Rightarrow> (c1, printed, SendFailed)
           | (c1, True) \<Rightarrow> (case receiveLine c1 of
               (c2, None) \<Rightarrow> (c2, printed, ReceiveFailed)
             | (c2, Some response) \<Rightarrow> cli_loop inputs c2 (printed @ [response])))"

definition cli_main :: "(string \<Rightarrow> int \<Rightarrow> sock option) \<Rightarrow> Args \<Rightarrow> Config \<Rightarrow> string list \<Rightarrow> (string list \<times> cli_end) option" where
  "cli_main attempt a c inputs =
     (case tcp_connect attempt new_TcpClient (arg_host a) (effective_port a c 6380) of
        (cl, False) \<Rightarrow> None
      | (cl, True) \<Rightarrow> (case cli_loop inputs cl [] of (cl', printed, e) \<Rightarrow> Some (printed, e)))"

text \<open>The client prints at most one reply for each line that is neither empty nor a request to leave.\<close>

lemma cli_loop_prints:
  "cli_loop inputs c printed = (c', printed', e) \<Longrightarrow>
    length printed' \<le> length printed + length (filter (\<lambda>l. l \<noteq> []) inputs)"
  by (induction inputs c printed rule: cli_loop.induct)
    (auto split: if_splits prod.splits bool.splits option.splits)

end
