(* ===== verification/Tcp_Run.thy ===== *)
theory Tcp_Run
  imports Frontends Prelude
begin

text \<open>
  \<^verbatim>\<open>TcpServer::run\<close> of \<^verbatim>\<open>src/net/tcp_server.cpp\<close> with the threads around it: the accept loop and the
  bounded wait at its end, the detached connection threads, and whoever calls \<^verbatim>\<open>stop\<close> (a signal
  handler). Time is in milliseconds of the steady clock. The lemmas count the connection threads,
  say when \<^verbatim>\<open>run\<close> returns and bound how long it waits.
\<close>

section \<open>State\<close>

text \<open>A connection thread runs the handler, has closed its descriptor, or is over.\<close>

datatype conn_thread = Serving int | Closing | Ended

text \<open>
  The thread in \<^verbatim>\<open>run\<close>: at the head of the loop, in \<^verbatim>\<open>accept\<close>, waiting until a deadline, returned; last,
  \<^verbatim>\<open>main\<close> has left the scope of the objects the connection handler refers to.
\<close>

datatype run_pos = LoopHead | InAccept | Draining int | RunReturned int | ScopeLeft int

record listener =
  ls_server :: TcpServer
  ls_pos :: run_pos
  ls_now :: int
  ls_active :: int
  ls_threads :: "conn_thread list"
  ls_naps :: nat

definition enter_run :: "TcpServer \<Rightarrow> int \<Rightarrow> listener" where
  "enter_run s now = \<lparr>ls_server = s, ls_pos = LoopHead, ls_now = now, ls_active = 0, ls_threads = [], ls_naps = 0\<rparr>"

section \<open>Steps\<close>

text \<open>\<^verbatim>\<open>run\<close>.\<close>

inductive run_step :: "listener \<Rightarrow> listener \<Rightarrow> bool" where
  rn_loop: "ls_pos s = LoopHead \<Longrightarrow> srv_running (ls_server s) \<Longrightarrow> run_step s (s\<lparr>ls_pos := InAccept\<rparr>)"
| rn_leave: "ls_pos s = LoopHead \<Longrightarrow> \<not> srv_running (ls_server s) \<Longrightarrow> run_step s (s\<lparr>ls_pos := Draining (ls_now s + 2000)\<rparr>)"
| rn_fail: "ls_pos s = InAccept \<Longrightarrow> run_step s (s\<lparr>ls_pos := LoopHead\<rparr>)"
| rn_accept: "ls_pos s = InAccept \<Longrightarrow> 0 \<le> clientFd \<Longrightarrow>
    run_step s (s\<lparr>ls_pos := LoopHead, ls_active := ls_active s + 1, ls_threads := ls_threads s @ [Serving clientFd]\<rparr>)"
| rn_nap: "ls_pos s = Draining deadline \<Longrightarrow> ls_active s > 0 \<Longrightarrow> ls_now s < deadline \<Longrightarrow> 20 \<le> d \<Longrightarrow>
    run_step s (s\<lparr>ls_now := ls_now s + d, ls_naps := ls_naps s + 1\<rparr>)"
| rn_return: "ls_pos s = Draining deadline \<Longrightarrow> \<not> (ls_active s > 0 \<and> ls_now s < deadline) \<Longrightarrow>
    run_step s (s\<lparr>ls_pos := RunReturned deadline\<rparr>)"

text \<open>A connection thread: the handler returns and the descriptor is closed; then the counter.\<close>

inductive conn_step :: "listener \<Rightarrow> listener \<Rightarrow> bool" where
  cn_close: "i < length (ls_threads s) \<Longrightarrow> ls_threads s ! i = Serving clientFd \<Longrightarrow>
    conn_step s (s\<lparr>ls_threads := (ls_threads s)[i := Closing],
      ls_server := (ls_server s)\<lparr>closed_fds := closed_fds (ls_server s) @ [clientFd]\<rparr>\<rparr>)"
| cn_end: "i < length (ls_threads s) \<Longrightarrow> ls_threads s ! i = Closing \<Longrightarrow>
    conn_step s (s\<lparr>ls_threads := (ls_threads s)[i := Ended], ls_active := ls_active s - 1\<rparr>)"

inductive listener_reachable :: "TcpServer \<Rightarrow> int \<Rightarrow> listener \<Rightarrow> bool" for s0 now0 where
  lis_enter: "listener_reachable s0 now0 (enter_run s0 now0)"
| lis_run: "listener_reachable s0 now0 s \<Longrightarrow> run_step s s' \<Longrightarrow> listener_reachable s0 now0 s'"
| lis_conn: "listener_reachable s0 now0 s \<Longrightarrow> conn_step s s' \<Longrightarrow> listener_reachable s0 now0 s'"
| lis_stop: "listener_reachable s0 now0 s \<Longrightarrow> listener_reachable s0 now0 (s\<lparr>ls_server := tcp_stop (ls_server s)\<rparr>)"
| lis_time: "listener_reachable s0 now0 s \<Longrightarrow> 0 \<le> d \<Longrightarrow> listener_reachable s0 now0 (s\<lparr>ls_now := ls_now s + d\<rparr>)"
| lis_scope: "listener_reachable s0 now0 s \<Longrightarrow> ls_pos s = RunReturned deadline \<Longrightarrow>
    listener_reachable s0 now0 (s\<lparr>ls_pos := ScopeLeft deadline\<rparr>)"

section \<open>Invariant\<close>

definition thread_count :: "conn_thread \<Rightarrow> int" where
  "thread_count c = (if c = Ended then 0 else 1)"

definition past_loop :: "run_pos \<Rightarrow> int option" where
  "past_loop p = (case p of Draining d \<Rightarrow> Some d | RunReturned d \<Rightarrow> Some d | ScopeLeft d \<Rightarrow> Some d | _ \<Rightarrow> None)"

definition returned :: "run_pos \<Rightarrow> bool" where
  "returned p \<longleftrightarrow> (case p of RunReturned d \<Rightarrow> True | ScopeLeft d \<Rightarrow> True | _ \<Rightarrow> False)"

definition listener_inv :: "listener \<Rightarrow> bool" where
  "listener_inv s \<longleftrightarrow> ls_active s = sum_list (map thread_count (ls_threads s)) \<and>
     (case past_loop (ls_pos s) of
        None \<Rightarrow> ls_naps s = 0
      | Some d \<Rightarrow> \<not> srv_running (ls_server s) \<and> int (ls_naps s) \<le> 100 \<and> d - 2000 + 20 * int (ls_naps s) \<le> ls_now s \<and>
          (returned (ls_pos s) \<longrightarrow> set (ls_threads s) \<subseteq> {Ended} \<or> d \<le> ls_now s))"

lemma pos_simps [simp]:
  "past_loop LoopHead = None" "past_loop InAccept = None" "past_loop (Draining d) = Some d"
  "past_loop (RunReturned d) = Some d" "past_loop (ScopeLeft d) = Some d"
  "\<not> returned LoopHead" "\<not> returned InAccept" "\<not> returned (Draining d)" "returned (RunReturned d)" "returned (ScopeLeft d)"
  by (simp_all add: past_loop_def returned_def)

lemma threads_counted: "0 \<le> sum_list (map thread_count cs) \<and> (sum_list (map thread_count cs) \<le> 0 \<longrightarrow> set cs \<subseteq> {Ended})"
  by (induction cs) (auto simp: thread_count_def split: if_splits)

lemma thread_count_update:
  "i < length cs \<Longrightarrow> sum_list (map thread_count (cs[i := c])) = sum_list (map thread_count cs) - thread_count (cs ! i) + thread_count c"
  by (induction cs arbitrary: i) (auto split: nat.split)

lemma listener_inv_run: "run_step s s' \<Longrightarrow> listener_inv s \<Longrightarrow> listener_inv s'"
proof (induction rule: run_step.induct)
  case (rn_return s deadline)
  then show ?case using threads_counted [of "ls_threads s"] by (auto simp: listener_inv_def)
qed (auto simp: listener_inv_def thread_count_def)

lemma listener_inv_conn: "conn_step s s' \<Longrightarrow> listener_inv s \<Longrightarrow> listener_inv s'"
proof (induction rule: conn_step.induct)
  case (cn_close i s clientFd)
  then have "\<not> set (ls_threads s) \<subseteq> {Ended}" using nth_mem by fastforce
  with cn_close show ?case by (auto simp: listener_inv_def thread_count_update thread_count_def split: option.splits)
next
  case (cn_end i s)
  then have "\<not> set (ls_threads s) \<subseteq> {Ended}" using nth_mem by fastforce
  with cn_end show ?case by (auto simp: listener_inv_def thread_count_update thread_count_def split: option.splits)
qed

lemma listener_reachable_inv: "listener_reachable s0 now0 s \<Longrightarrow> listener_inv s"
proof (induction rule: listener_reachable.induct)
  case lis_enter
  show ?case by (simp add: listener_inv_def enter_run_def)
next
  case (lis_run s s')
  then show ?case using listener_inv_run by blast
next
  case (lis_conn s s')
  then show ?case using listener_inv_conn by blast
next
  case (lis_stop s)
  then show ?case by (auto simp: listener_inv_def tcp_stop_def close_listen_def Let_def split: option.splits)
next
  case (lis_time s d)
  then show ?case by (auto simp: listener_inv_def split: option.splits)
next
  case (lis_scope s deadline)
  then show ?case by (simp add: listener_inv_def)
qed

section \<open>Properties\<close>

text \<open>
  When \<^verbatim>\<open>run\<close> returns. It leaves its loop only after \<^verbatim>\<open>stop\<close> has been called (a failing \<^verbatim>\<open>accept\<close> never
  ends it); it then naps at most a hundred times; and when it has returned, either every connection
  thread is over or two seconds have passed since the loop was left. Throughout, the counter is the
  number of connection threads that are not over.
\<close>

theorem run_returns_drained_or_late:
  assumes "listener_reachable s0 now0 s"
  shows "ls_active s = sum_list (map thread_count (ls_threads s)) \<and> ls_naps s \<le> 100 \<and>
    (past_loop (ls_pos s) \<noteq> None \<longrightarrow> \<not> srv_running (ls_server s)) \<and>
    (\<forall>deadline. ls_pos s = RunReturned deadline \<longrightarrow> set (ls_threads s) \<subseteq> {Ended} \<or> deadline \<le> ls_now s)"
  using listener_reachable_inv [OF assms] by (auto simp: listener_inv_def split: option.splits)

text \<open>A started server whose only client stays connected while \<^verbatim>\<open>stop\<close> is called and two seconds go by.\<close>

definition idle_client :: "run_pos \<Rightarrow> int \<Rightarrow> nat \<Rightarrow> listener" where
  "idle_client p now naps =
     \<lparr>ls_server = tcp_stop \<lparr>srv_port = 6380, listenFd = 3, srv_running = True, closed_fds = []\<rparr>, ls_pos = p, ls_now = now,
      ls_active = 1, ls_threads = [Serving 4], ls_naps = naps\<rparr>"

lemma idle_client_returns:
  "listener_reachable \<lparr>srv_port = 6380, listenFd = 3, srv_running = True, closed_fds = []\<rparr> 0 (idle_client (RunReturned 2000) 2000 1)"
proof -
  let ?s = "\<lparr>srv_port = 6380, listenFd = 3, srv_running = True, closed_fds = []\<rparr>"
  let ?R = "listener_reachable ?s 0"
  have "?R (enter_run ?s 0)" by (rule lis_enter)
  from lis_run [OF this rn_loop] have "?R ((enter_run ?s 0)\<lparr>ls_pos := InAccept\<rparr>)" by (simp add: enter_run_def)
  from lis_run [OF this rn_accept [of _ 4]]
  have "?R ((enter_run ?s 0)\<lparr>ls_active := 1, ls_threads := [Serving 4]\<rparr>)" by (simp add: enter_run_def)
  from lis_stop [OF this] have "?R (idle_client LoopHead 0 0)" by (simp add: enter_run_def idle_client_def)
  from lis_run [OF this rn_leave] have "?R (idle_client (Draining 2000) 0 0)"
    by (simp add: idle_client_def tcp_stop_def close_listen_def)
  from lis_run [OF this rn_nap [of _ 2000 2000]] have "?R (idle_client (Draining 2000) 2000 1)" by (simp add: idle_client_def)
  from lis_run [OF this rn_return [of _ 2000]] show ?thesis by (simp add: idle_client_def)
qed

theorem run_returns_drained_or_late_witness:
  "(2000 :: int) \<le> ls_now (idle_client (RunReturned 2000) 2000 1)"
  using run_returns_drained_or_late [OF idle_client_returns] by (simp add: idle_client_def)

text \<open>
  Connections outlive the objects they use. \<^verbatim>\<open>run\<close> gives up after two seconds, and the caller then
  leaves the scope of the store, the executor and the managers; a client that merely stays connected
  keeps its detached thread inside the handler, with references to all of them.
\<close>

theorem scope_left_under_open_connection:
  "\<exists>s0 s clientFd deadline. srv_running s0 \<and> listener_reachable s0 0 s \<and> ls_pos s = ScopeLeft deadline \<and> Serving clientFd \<in> set (ls_threads s)"
proof -
  let ?s = "idle_client (ScopeLeft 2000) 2000 1"
  have "listener_reachable \<lparr>srv_port = 6380, listenFd = 3, srv_running = True, closed_fds = []\<rparr> 0 ?s"
    using lis_scope [OF idle_client_returns, of 2000] by (simp add: idle_client_def)
  moreover have "ls_pos ?s = ScopeLeft 2000" "Serving 4 \<in> set (ls_threads ?s)" by (simp_all add: idle_client_def)
  ultimately show ?thesis by (metis TcpServer.select_convs(3))
qed

end
