(* ===== verification/Health_Loop.thy ===== *)
theory Health_Loop
  imports Health_Checker
begin

text \<open>
  The health checker's thread, \<^verbatim>\<open>src/sharding/health_checker.cpp\<close>: its members, starting and stopping,
  and \<^verbatim>\<open>runLoop\<close>. What the atomic flag holds is a function of how often the thread has loaded it, since
  another thread clears it; the network of a check is indexed by the load before it. The lemmas show
  that the loop ends once the flag is cleared, how long it waits, that a failover is never undone
  while it runs, and that a dead primary is failed over after the configured number of rounds.
\<close>

section \<open>The object\<close>

record HealthChecker =
  hc_intervalMs :: int
  hc_maxMissedPings :: int
  hc_running :: bool
  hc_thread :: bool

definition new_HealthChecker :: "int \<Rightarrow> int \<Rightarrow> HealthChecker" where
  "new_HealthChecker intervalMs maxMissedPings =
     \<lparr>hc_intervalMs = intervalMs, hc_maxMissedPings = maxMissedPings, hc_running = False, hc_thread = False\<rparr>"

definition hc_start :: "HealthChecker \<Rightarrow> HealthChecker" where
  "hc_start h = h\<lparr>hc_running := True, hc_thread := True\<rparr>"

text \<open>The flag first; then the thread is joined if there is one.\<close>

definition hc_stop :: "HealthChecker \<Rightarrow> HealthChecker" where
  "hc_stop h = (let h1 = h\<lparr>hc_running := False\<rparr> in if hc_thread h1 then h1\<lparr>hc_thread := False\<rparr> else h1)"

section \<open>The loop\<close>

fun hc_shards ::
  "(nat \<Rightarrow> bool) \<Rightarrow> (nat \<Rightarrow> networks) \<Rightarrow> HealthChecker \<Rightarrow> nat \<Rightarrow> string list \<Rightarrow> ShardTopology \<Rightarrow> nat \<times> ShardTopology" where
  "hc_shards flag nets h n [] t = (n, t)"
| "hc_shards flag nets h n (i # is) t =
     (if \<not> flag n then (Suc n, t)
      else hc_shards flag nets h (Suc n) is (checkShard (nets n) (hc_maxMissedPings h) t i))"

text \<open>The waiting loop, with the milliseconds of each sleep; the flag is loaded only while there is time left.\<close>

function hc_wait :: "(nat \<Rightarrow> bool) \<Rightarrow> HealthChecker \<Rightarrow> nat \<Rightarrow> int \<Rightarrow> nat \<times> int list" where
  "hc_wait flag h n waited =
     (if \<not> waited < hc_intervalMs h then (n, [])
      else if \<not> flag n then (Suc n, [])
      else case hc_wait flag h (Suc n) (waited + 50) of
             (n', sleeps) \<Rightarrow> (n', min 50 (hc_intervalMs h - waited) # sleeps))"
  by pat_completeness auto
termination
  by (relation "measure (\<lambda>(flag, h, n, waited). nat (hc_intervalMs h - waited))") auto

declare hc_wait.simps [simp del]

partial_function (option) hc_runLoop ::
  "(nat \<Rightarrow> bool) \<Rightarrow> (nat \<Rightarrow> networks) \<Rightarrow> HealthChecker \<Rightarrow> nat \<Rightarrow> ShardTopology \<Rightarrow> (nat \<times> ShardTopology) option" where
  "hc_runLoop flag nets h n t =
     (if \<not> flag n then Some (Suc n, t)
      else case hc_shards flag nets h (Suc n) (shardIds t) t of
             (n1, t1) \<Rightarrow> hc_runLoop flag nets h (fst (hc_wait flag h n1 0)) t1)"

section \<open>How long it waits\<close>

lemma hc_wait_advances: "n \<le> fst (hc_wait flag h n waited)"
proof (induction flag h n waited rule: hc_wait.induct)
  case (1 flag h n waited)
  then show ?case by (subst hc_wait.simps) (auto split: prod.split)
qed

lemma hc_wait_sleeps:
  "(\<forall>s \<in> set (snd (hc_wait flag h n waited)). 0 < s \<and> s \<le> 50) \<and>
   ((\<forall>k \<ge> n. flag k) \<longrightarrow> sum_list (snd (hc_wait flag h n waited)) = max 0 (hc_intervalMs h - waited)) \<and>
   sum_list (snd (hc_wait flag h n waited)) \<le> max 0 (hc_intervalMs h - waited)"
proof (induction flag h n waited rule: hc_wait.induct)
  case (1 flag h n waited)
  let ?w = "hc_wait flag h (Suc n) (waited + 50)"
  show ?case
  proof (cases "waited < hc_intervalMs h \<and> flag n")
    case True
    then have w: "hc_wait flag h n waited = (fst ?w, min 50 (hc_intervalMs h - waited) # snd ?w)"
      by (subst hc_wait.simps) (simp add: split_beta)
    from 1 True show ?thesis unfolding w by (auto simp: min_def max_def)
  next
    case False
    then show ?thesis by (subst (1 2 3) hc_wait.simps) (auto simp: max_def)
  qed
qed

text \<open>Every nap is taken after a load that saw the flag set.\<close>

lemma hc_wait_flags: "k < length (snd (hc_wait flag h n waited)) \<Longrightarrow> flag (n + k)"
proof (induction flag h n waited arbitrary: k rule: hc_wait.induct)
  case (1 flag h n waited)
  show ?case
  proof (cases k)
    case 0
    with 1(2) show ?thesis by (subst (asm) hc_wait.simps) (auto split: if_splits)
  next
    case (Suc j)
    with 1(2) have "waited < hc_intervalMs h" "flag n" "j < length (snd (hc_wait flag h (Suc n) (waited + 50)))"
      by (subst (asm) hc_wait.simps; auto split: if_splits prod.splits)+
    with 1(1) Suc show ?thesis by auto
  qed
qed

section \<open>The loop ends\<close>

lemma hc_shards_advances: "n \<le> fst (hc_shards flag nets h n is t)"
  by (induction "is" arbitrary: n t) (auto intro: Suc_leD)

lemma hc_runLoop_ends:
  assumes "\<forall>k \<ge> N. \<not> flag k"
  shows "\<exists>n' t'. hc_runLoop flag nets h n t = Some (n', t')"
proof (induction "N - n" arbitrary: n t rule: less_induct)
  case less
  show ?case
  proof (cases "flag n")
    case True
    then have "n < N" using assms leI by blast
    obtain n1 t1 where s: "hc_shards flag nets h (Suc n) (shardIds t) t = (n1, t1)" by fastforce
    then have "n < n1" using hc_shards_advances [of "Suc n" flag nets h "shardIds t" t] by simp
    then have "n < fst (hc_wait flag h n1 0)" using hc_wait_advances [of n1 flag h 0] by simp
    with \<open>n < N\<close> have "N - fst (hc_wait flag h n1 0) < N - n" by simp
    from less [OF this, of t1] True s show ?thesis by (simp add: hc_runLoop.simps)
  qed (simp add: hc_runLoop.simps)
qed

section \<open>What the loop does to the table\<close>

lemma hc_shards_steps: "\<exists>es. snd (hc_shards flag nets h n is t) = fold topo_step es t"
proof (induction "is" arbitrary: n t)
  case Nil
  show ?case by (intro exI [of _ "[]"]) simp
next
  case (Cons i "is")
  obtain es where 1: "checkShard (nets n) (hc_maxMissedPings h) t i = fold topo_step es t" using checkShard_steps by blast
  obtain fs where 2: "snd (hc_shards flag nets h (Suc n) is (fold topo_step es t)) = fold topo_step fs (fold topo_step es t)"
    using Cons by blast
  show ?case
  proof (cases "flag n")
    case True
    then show ?thesis by (intro exI [of _ "es @ fs"]) (simp add: 1 2)
  qed (intro exI [of _ "[]"], simp)
qed

lemma hc_runLoop_steps:
  assumes "hc_runLoop flag nets h n t = Some r"
  shows "\<exists>es. snd r = fold topo_step es t"
proof (rule hc_runLoop.raw_induct [where P = "\<lambda>flag nets h n t r. \<exists>es. snd r = fold topo_step es t", OF _ assms])
  fix loop flag nets h n t r
  assume IH: "\<And>flag nets h n t r. loop flag nets h n t = Some r \<Longrightarrow> \<exists>es. snd r = fold topo_step es t"
    and body: "(if \<not> flag n then Some (Suc n, t)
      else case hc_shards flag nets h (Suc n) (shardIds t) t of
             (n1, t1) \<Rightarrow> loop flag nets h (fst (hc_wait flag h n1 0)) t1) = Some r"
  show "\<exists>es. snd r = fold topo_step es t"
  proof (cases "flag n")
    case True
    obtain n1 t1 where s: "hc_shards flag nets h (Suc n) (shardIds t) t = (n1, t1)" by fastforce
    then obtain es where es: "t1 = fold topo_step es t" using hc_shards_steps [of flag nets h "Suc n" "shardIds t" t] by auto
    have "loop flag nets h (fst (hc_wait flag h n1 0)) t1 = Some r" using body True s by simp
    from IH [OF this] obtain fs where "snd r = fold topo_step fs t1" by blast
    then show ?thesis by (intro exI [of _ "es @ fs"]) (simp add: es)
  next
    case False
    with body show ?thesis by (intro exI [of _ "[]"]) auto
  qed
qed

section \<open>A dead primary\<close>

lemma checkShard_other: "j \<noteq> i \<Longrightarrow> findShard (checkShard nets m t j) i = findShard t i"
  by (simp add: checkShard_def Let_def find_record_ping find_promote)

lemma shardIds_step: "shardIds (topo_step e t) = shardIds t"
  by (cases e) (auto simp: recordPingResult_def promoteReplica_def shardIds_update split: option.split NodeRole.split)

lemma shardIds_steps: "shardIds (fold topo_step es t) = shardIds t"
  by (induction es arbitrary: t) (simp_all add: shardIds_step)

lemma shardIds_check: "shardIds (checkShard nets m t i) = shardIds t"
  using checkShard_steps [of nets m t i] shardIds_steps by auto

lemma foldl_checks_others:
  "i \<notin> set is \<Longrightarrow> findShard (foldl (\<lambda>t j. checkShard (nets j) m t j) t is) i = findShard t i"
  by (induction "is" arbitrary: t) (auto simp: checkShard_other)

lemma shardIds_round: "shardIds (check_round nets m t) = shardIds t"
  using foldl_checks_steps [of nets m t "shardIds t"] shardIds_steps by (auto simp: check_round_def)

text \<open>A round as seen by one shard.\<close>

lemma check_round_shard:
  assumes "distinct (shardIds t)" and "i \<in> set (shardIds t)"
  shows "\<exists>t0. findShard t0 i = findShard t i \<and> findShard (check_round nets m t) i = findShard (checkShard (nets i) m t0 i) i"
proof -
  obtain is1 is2 where ids: "shardIds t = is1 @ i # is2" using assms(2) by (meson split_list)
  then have n: "i \<notin> set is1" "i \<notin> set is2" using assms(1) by auto
  show ?thesis
    by (rule exI [of _ "foldl (\<lambda>t j. checkShard (nets j) m t j) t is1"])
      (simp add: check_round_def ids foldl_checks_others [OF n(1)] foldl_checks_others [OF n(2)])
qed

definition primary_lost :: "networks \<Rightarrow> Shard \<Rightarrow> bool" where
  "primary_lost nets s \<longleftrightarrow> \<not> pingNode (to_primary nets) (address (primary s)) \<and>
     pingNode (to_replica nets) (address (replica s)) \<and> askPromotion (to_promote nets) (address (replica s))"

lemma check_lost_primary:
  assumes "findShard t i = Some s" and "has_replica s" and "\<not> failedOver s" and "primary_lost nets s"
    and "0 \<le> consecutiveMisses (primary s)" and "consecutiveMisses (primary s) < 2147483647"
  shows "\<exists>s'. findShard (checkShard nets m t i) i = Some s' \<and> has_replica s' \<and>
    address (primary s') = address (primary s) \<and> address (replica s') = address (replica s) \<and>
    (if m \<le> consecutiveMisses (primary s) + 1 \<or> health (primary s) = DOWN then failedOver s' \<and> activeAddress s' = address (replica s)
     else \<not> failedOver s' \<and> consecutiveMisses (primary s') = consecutiveMisses (primary s) + 1)"
  using assms ping_miss [OF assms(5,6), of m]
  by (auto simp: checkShard_def Let_def primary_lost_def primaryAddress_def replicaAddress_def hasReplica_def healthOf_def
      alreadyFailedOver_def topo_simps)

lemma rounds_with_lost_primary:
  assumes "distinct (shardIds t)" and "findShard t i = Some s" and "has_replica s" and "\<not> failedOver s"
    and "\<forall>nets \<in> set rounds. primary_lost (nets i) s" and "0 \<le> consecutiveMisses (primary s)"
    and "consecutiveMisses (primary s) + int (length rounds) \<le> 2147483647"
    and "rounds \<noteq> []" and "m \<le> consecutiveMisses (primary s) + int (length rounds)"
  shows "let t' = foldl (\<lambda>t nets. check_round nets m t) t rounds
         in alreadyFailedOver t' i \<and> activeAddressFor t' i = address (replica s)"
  using assms
proof (induction rounds arbitrary: t s)
  case (Cons nets rounds)
  have mem: "i \<in> set (shardIds t)" using Cons.prems(2) by (auto simp: shardIds_def findShard_def find_Some_iff)
  obtain t0 where t0: "findShard t0 i = Some s" "findShard (check_round nets m t) i = findShard (checkShard (nets i) m t0 i) i"
    using check_round_shard [OF Cons.prems(1) mem] Cons.prems(2) by metis
  have lost: "primary_lost (nets i) s" and small: "consecutiveMisses (primary s) < 2147483647" using Cons.prems(5,7) by simp_all
  obtain s' where s': "findShard (check_round nets m t) i = Some s'" "has_replica s'"
    "address (primary s') = address (primary s)" "address (replica s') = address (replica s)"
    "if m \<le> consecutiveMisses (primary s) + 1 \<or> health (primary s) = DOWN then failedOver s' \<and> activeAddress s' = address (replica s)
     else \<not> failedOver s' \<and> consecutiveMisses (primary s') = consecutiveMisses (primary s) + 1"
    using check_lost_primary [OF t0(1) Cons.prems(3,4) lost Cons.prems(6) small, of m] t0(2) by auto
  show ?case
  proof (cases "failedOver s'")
    case True
    then have a: "alreadyFailedOver (check_round nets m t) i" "activeAddressFor (check_round nets m t) i = address (replica s)"
      using s' by (auto simp: alreadyFailedOver_def activeAddressFor_def split: if_splits)
    from rounds_steps [of m "check_round nets m t" rounds] shard_table.latched [OF a(1)] a(2) show ?thesis by auto
  next
    case False
    then have f: "\<not> m \<le> consecutiveMisses (primary s) + 1" "consecutiveMisses (primary s') = consecutiveMisses (primary s) + 1"
      using s'(5) by (auto split: if_splits)
    have "\<forall>nets \<in> set rounds. primary_lost (nets i) s'" using Cons.prems(5) s'(3,4) by (simp add: primary_lost_def)
    moreover have "rounds \<noteq> []" using f(1) Cons.prems(9) by auto
    ultimately show ?thesis
      using Cons.IH [of "check_round nets m t" s'] Cons.prems(1,6,7,9) s'(1,2,4) False f(2)
      by (simp add: shardIds_round)
  qed
qed simp

section \<open>Properties\<close>



text \<open>
  C28: a dead primary is failed over in time. If from some point on the primary of a shard answers no
  ping while its replica answers pings and accepts the promotion, then after as many rounds as pings
  may be missed (and at least one) the shard is served from its replica.
\<close>

theorem dead_primary_is_failed_over:
  assumes "distinct (shardIds t)" and "findShard t i = Some s" and "has_replica s" and "\<not> failedOver s"
    and "\<forall>nets \<in> set rounds. primary_lost (nets i) s" and "0 \<le> consecutiveMisses (primary s)"
    and "consecutiveMisses (primary s) + int (length rounds) \<le> 2147483647"
    and "rounds \<noteq> []" and "m \<le> int (length rounds)"
  shows "let t' = foldl (\<lambda>t nets. check_round nets m t) t rounds
         in alreadyFailedOver t' i \<and> activeAddressFor t' i = address (replica s)"
  using rounds_with_lost_primary [OF assms(1-8), of m] assms(6,9) by simp

theorem dead_primary_is_failed_over_witness:
  "activeAddressFor (foldl (\<lambda>t nets. check_round nets 3 t) one_shard
     [\<lambda>i. lost_primary, \<lambda>i. lost_primary, \<lambda>i. lost_primary]) ''s1'' = ''r:2''"
proof -
  let ?s = "hd one_shard"
  have f: "findShard one_shard ''s1'' = Some ?s" "distinct (shardIds one_shard)" "has_replica ?s" "\<not> failedOver ?s"
    "address (primary ?s) = ''p:1''" "address (replica ?s) = ''r:2''" "consecutiveMisses (primary ?s) = 0"
    by (simp_all add: one_shard_def topo_simps shardIds_def new_ShardNode_def)
  then have "primary_lost lost_primary ?s" using lost_primary_answers by (simp add: primary_lost_def)
  with dead_primary_is_failed_over [OF f(2,1,3,4), of "[\<lambda>i. lost_primary, \<lambda>i. lost_primary, \<lambda>i. lost_primary]" 3] f(6,7)
  show ?thesis by (simp add: Let_def del: foldl.simps)
qed

text \<open>
  Between two rounds the thread sleeps for exactly the configured interval, in naps of at most
  50 milliseconds; before every nap it has loaded the flag and seen it set, so that after the flag is
  cleared at most the nap under way is slept to its end.
\<close>

theorem wait_is_interval_in_short_naps:
  "(\<forall>s \<in> set (snd (hc_wait flag h n 0)). 0 < s \<and> s \<le> 50) \<and>
   ((\<forall>k \<ge> n. flag k) \<longrightarrow> sum_list (snd (hc_wait flag h n 0)) = max 0 (hc_intervalMs h)) \<and>
   (\<forall>k < length (snd (hc_wait flag h n 0)). flag (n + k))"
  using hc_wait_sleeps [of flag h n 0] hc_wait_flags [of _ flag h n 0] by simp

theorem wait_is_interval_in_short_naps_witness:
  "sum_list (snd (hc_wait (\<lambda>k. True) (new_HealthChecker 120 3) 0 0)) = 120"
  using wait_is_interval_in_short_naps [of "\<lambda>k. True" "new_HealthChecker 120 3" 0]
  by (simp add: new_HealthChecker_def)

end
