(* ===== verification/Persistence_Lifecycle.thy ===== *)
theory Persistence_Lifecycle
  imports Durability Thread_Pool
begin

text \<open>
  The threads of the persistence manager, \<^verbatim>\<open>src/persistence/persistence_manager.cpp\<close>: the timer
  thread, the workers of the pool running the tasks it submits, and the thread that starts, stops
  and destroys the manager. Every step lies between two releases of a mutex or is one operation on
  the atomic counter of tasks in flight. The lemmas show that stopping waits for every task, that
  no wake-up is lost and stopping always comes to an end, and that the workers' part is a run of the
  thread pool; they also show that a worker may still be about to lock a mutex of the manager when
  the manager is destroyed.
\<close>

section \<open>State\<close>

text \<open>What the timer thread has still to do within one turn, under the mutex of the flag.\<close>

datatype timer_op = CountTask | SubmitTask bg_task

datatype timer_pos = NoThread | TimerWait int | TimerTurn int "timer_op list" | TimerExited

text \<open>
  A worker is idle, runs a task, has decremented the counter to zero and is about to lock, or holds
  the mutex and is about to notify.
\<close>

datatype job = JIdle | JTask bg_task | JCount bg_task | JLock bg_task | JNotify bg_task

text \<open>The thread that owns the manager: before \<^verbatim>\<open>stop\<close>, joining, checking under the mutex, asleep, returned, gone.\<close>

datatype owner_pos = Owning | Joining | Testing | Asleep | Woken | StopReturned | Destroyed

record lifecycle =
  lc_config :: PersistenceConfig
  lc_running :: bool
  lc_timer :: timer_pos
  lc_inFlight :: int
  lc_queue :: "bg_task list"
  lc_jobs :: "job list"
  lc_owner :: owner_pos
  lc_submitted :: "bg_task list"
  lc_started :: "bg_task list"
  lc_finished :: "bg_task list"
  lc_performed :: "bg_task list"

definition new_lifecycle :: "PersistenceConfig \<Rightarrow> nat \<Rightarrow> lifecycle" where
  "new_lifecycle c n =
     \<lparr>lc_config = c, lc_running = False, lc_timer = NoThread, lc_inFlight = 0, lc_queue = [],
      lc_jobs = replicate n JIdle, lc_owner = Owning, lc_submitted = [], lc_started = [], lc_finished = [],
      lc_performed = []\<rparr>"

section \<open>Steps\<close>

text \<open>\<^verbatim>\<open>submitBackgroundTask\<close>: the counter first, then the queue.\<close>

definition count_task :: "lifecycle \<Rightarrow> lifecycle" where
  "count_task s = s\<lparr>lc_inFlight := lc_inFlight s + 1\<rparr>"

definition enqueue_task :: "bg_task \<Rightarrow> lifecycle \<Rightarrow> lifecycle" where
  "enqueue_task t s = s\<lparr>lc_queue := lc_queue s @ [t], lc_submitted := lc_submitted s @ [t]\<rparr>"

definition submit_ops :: "bg_task list \<Rightarrow> timer_op list" where
  "submit_ops ts = concat (map (\<lambda>t. [CountTask, SubmitTask t]) ts)"

definition manager_start :: "lifecycle \<Rightarrow> lifecycle" where
  "manager_start s = s\<lparr>lc_running := True, lc_timer := TimerWait 0\<rparr>"

text \<open>The first section of \<^verbatim>\<open>stop\<close>; it returns at once when the manager is not running.\<close>

definition begin_stop :: "lifecycle \<Rightarrow> lifecycle" where
  "begin_stop s = (if \<not> lc_running s then s\<lparr>lc_owner := StopReturned\<rparr> else s\<lparr>lc_running := False, lc_owner := Joining\<rparr>)"

definition timer_holds_mutex :: "lifecycle \<Rightarrow> bool" where
  "timer_holds_mutex s \<longleftrightarrow> (case lc_timer s of TimerTurn n ops \<Rightarrow> True | _ \<Rightarrow> False)"

definition done_mutex_free :: "lifecycle \<Rightarrow> bool" where
  "done_mutex_free s \<longleftrightarrow> lc_owner s \<noteq> Testing \<and> (\<forall>t. JNotify t \<notin> set (lc_jobs s))"

definition set_job :: "nat \<Rightarrow> job \<Rightarrow> lifecycle \<Rightarrow> lifecycle" where
  "set_job i j s = s\<lparr>lc_jobs := (lc_jobs s)[i := j]\<rparr>"

definition job_done :: "nat \<Rightarrow> bg_task \<Rightarrow> lifecycle \<Rightarrow> lifecycle" where
  "job_done i t s = set_job i JIdle s\<lparr>lc_finished := lc_finished s @ [t]\<rparr>"

text \<open>\<^verbatim>\<open>start\<close> and the timer thread.\<close>

inductive timer_step :: "lifecycle \<Rightarrow> lifecycle \<Rightarrow> bool" where
  ti_tick: "lc_timer s = TimerWait n \<Longrightarrow> lc_running s \<Longrightarrow> timer_tick (lc_config s) n = (n', ts) \<Longrightarrow>
    timer_step s (s\<lparr>lc_timer := TimerTurn n' (submit_ops ts)\<rparr>)"
| ti_exit: "lc_timer s = TimerWait n \<Longrightarrow> \<not> lc_running s \<Longrightarrow> timer_step s (s\<lparr>lc_timer := TimerExited\<rparr>)"
| ti_count: "lc_timer s = TimerTurn n (CountTask # ops) \<Longrightarrow>
    timer_step s ((count_task s)\<lparr>lc_timer := TimerTurn n ops\<rparr>)"
| ti_submit: "lc_timer s = TimerTurn n (SubmitTask t # ops) \<Longrightarrow>
    timer_step s ((enqueue_task t s)\<lparr>lc_timer := TimerTurn n ops\<rparr>)"
| ti_sleep: "lc_timer s = TimerTurn n [] \<Longrightarrow> timer_step s (s\<lparr>lc_timer := TimerWait n\<rparr>)"

text \<open>A worker of the pool with the wrapper around each task.\<close>

inductive job_step :: "lifecycle \<Rightarrow> lifecycle \<Rightarrow> bool" where
  jb_take: "i < length (lc_jobs s) \<Longrightarrow> lc_jobs s ! i = JIdle \<Longrightarrow> lc_queue s = t # ts \<Longrightarrow>
    job_step s ((set_job i (JTask t) s)\<lparr>lc_queue := ts, lc_started := lc_started s @ [t]\<rparr>)"
| jb_body: "i < length (lc_jobs s) \<Longrightarrow> lc_jobs s ! i = JTask t \<Longrightarrow>
    job_step s ((set_job i (JCount t) s)\<lparr>lc_performed := lc_performed s @ [t]\<rparr>)"
| jb_last: "i < length (lc_jobs s) \<Longrightarrow> lc_jobs s ! i = JCount t \<Longrightarrow> lc_inFlight s - 1 = 0 \<Longrightarrow>
    job_step s ((set_job i (JLock t) s)\<lparr>lc_inFlight := lc_inFlight s - 1\<rparr>)"
| jb_more: "i < length (lc_jobs s) \<Longrightarrow> lc_jobs s ! i = JCount t \<Longrightarrow> lc_inFlight s - 1 \<noteq> 0 \<Longrightarrow>
    job_step s ((job_done i t s)\<lparr>lc_inFlight := lc_inFlight s - 1\<rparr>)"
| jb_lock: "i < length (lc_jobs s) \<Longrightarrow> lc_jobs s ! i = JLock t \<Longrightarrow> done_mutex_free s \<Longrightarrow>
    job_step s (set_job i (JNotify t) s)"
| jb_notify: "i < length (lc_jobs s) \<Longrightarrow> lc_jobs s ! i = JNotify t \<Longrightarrow>
    job_step s ((job_done i t s)\<lparr>lc_owner := (if lc_owner s = Asleep then Woken else lc_owner s)\<rparr>)"

text \<open>The rest of \<^verbatim>\<open>stop\<close>, and the end of the destructor.\<close>

inductive owner_step :: "lifecycle \<Rightarrow> lifecycle \<Rightarrow> bool" where
  ow_join: "lc_owner s = Joining \<Longrightarrow> lc_timer s = TimerExited \<Longrightarrow> done_mutex_free s \<Longrightarrow>
    owner_step s (s\<lparr>lc_owner := Testing\<rparr>)"
| ow_return: "lc_owner s = Testing \<Longrightarrow> lc_inFlight s = 0 \<Longrightarrow> owner_step s (s\<lparr>lc_owner := StopReturned\<rparr>)"
| ow_wait: "lc_owner s = Testing \<Longrightarrow> lc_inFlight s \<noteq> 0 \<Longrightarrow> owner_step s (s\<lparr>lc_owner := Asleep\<rparr>)"
| ow_recheck: "lc_owner s = Woken \<Longrightarrow> done_mutex_free s \<Longrightarrow> owner_step s (s\<lparr>lc_owner := Testing\<rparr>)"

inductive lc_step :: "lifecycle \<Rightarrow> lifecycle \<Rightarrow> bool" where
  lc_timer: "timer_step s s' \<Longrightarrow> lc_step s s'"
| lc_job: "job_step s s' \<Longrightarrow> lc_step s s'"
| lc_owner: "owner_step s s' \<Longrightarrow> lc_step s s'"

inductive lc_reachable :: "PersistenceConfig \<Rightarrow> nat \<Rightarrow> lifecycle \<Rightarrow> bool" for c n where
  lr_init: "lc_reachable c n (new_lifecycle c n)"
| lr_start: "lc_reachable c n s \<Longrightarrow> lc_owner s = Owning \<Longrightarrow> lc_timer s = NoThread \<Longrightarrow> lc_reachable c n (manager_start s)"
| lr_stop: "lc_reachable c n s \<Longrightarrow> lc_owner s = Owning \<Longrightarrow> \<not> timer_holds_mutex s \<Longrightarrow> lc_reachable c n (begin_stop s)"
| lr_destroy: "lc_reachable c n s \<Longrightarrow> lc_owner s = StopReturned \<Longrightarrow> lc_reachable c n (s\<lparr>lc_owner := Destroyed\<rparr>)"
| lr_step: "lc_reachable c n s \<Longrightarrow> lc_step s s' \<Longrightarrow> lc_reachable c n s'"

inductive_simps timer_step_iff: "timer_step s s'"
inductive_simps job_step_iff: "job_step s s'"
inductive_simps owner_step_iff: "owner_step s s'"

lemmas lc_defs = count_task_def enqueue_task_def manager_start_def begin_stop_def set_job_def job_done_def

section \<open>The workers run the thread pool\<close>

definition job_worker :: "job \<Rightarrow> bg_task worker" where
  "job_worker j = (case j of JIdle \<Rightarrow> Idle | JTask t \<Rightarrow> Running t | JCount t \<Rightarrow> Running t | JLock t \<Rightarrow> Running t | JNotify t \<Rightarrow> Running t)"

definition lc_pool :: "lifecycle \<Rightarrow> bg_task pool" where
  "lc_pool s = \<lparr>tasks = lc_queue s, pool_stop = False, workers = map job_worker (lc_jobs s), submitted = lc_submitted s,
     late = [], started = lc_started s, finished = lc_finished s\<rparr>"

lemma job_worker_simps [simp]:
  "job_worker JIdle = Idle" "job_worker (JTask t) = Running t" "job_worker (JCount t) = Running t"
  "job_worker (JLock t) = Running t" "job_worker (JNotify t) = Running t"
  by (simp_all add: job_worker_def)

lemma set_job_same_worker:
  "i < length js \<Longrightarrow> job_worker (js ! i) = job_worker j \<Longrightarrow> map job_worker (js[i := j]) = map job_worker js"
  by (metis list_update_id map_update nth_map length_map)

lemma job_step_pool: "job_step s s' \<Longrightarrow> lc_pool s' = lc_pool s \<or> worker_step (lc_pool s) (lc_pool s')"
proof (induction rule: job_step.induct)
  case (jb_take i s t ts)
  then show ?case using ws_take [of i "lc_pool s" t ts] by (simp add: lc_pool_def lc_defs map_update)
next
  case (jb_more i s t)
  then show ?case using ws_finish [of i "lc_pool s" t] by (simp add: lc_pool_def lc_defs map_update)
next
  case (jb_notify i s t)
  then show ?case using ws_finish [of i "lc_pool s" t] by (simp add: lc_pool_def lc_defs map_update)
qed (simp_all add: lc_pool_def lc_defs set_job_same_worker)

lemma timer_step_pool: "timer_step s s' \<Longrightarrow> lc_pool s' = lc_pool s \<or> (\<exists>t. lc_pool s' = submit t (lc_pool s))"
  by (induction rule: timer_step.induct) (auto simp: lc_pool_def lc_defs submit_def)

lemma owner_step_pool: "owner_step s s' \<Longrightarrow> lc_pool s' = lc_pool s"
  by (induction rule: owner_step.induct) (auto simp: lc_pool_def)

lemma lc_step_pool: "lc_step s s' \<Longrightarrow> pool_reachable n (lc_pool s) \<Longrightarrow> pool_reachable n (lc_pool s')"
proof (induction rule: lc_step.induct)
  case (lc_timer s s')
  then show ?case using timer_step_pool [OF lc_timer(1)] pr_submit by metis
next
  case (lc_job s s')
  then show ?case using job_step_pool [OF lc_job(1)] pr_worker by metis
next
  case (lc_owner s s')
  then show ?case using owner_step_pool [OF lc_owner(1)] by simp
qed

lemma lc_pool_reachable: "lc_reachable c n s \<Longrightarrow> pool_reachable n (lc_pool s)"
proof (induction rule: lc_reachable.induct)
  case lr_init
  have "lc_pool (new_lifecycle c n) = new_ThreadPool n"
    by (simp add: lc_pool_def new_lifecycle_def new_ThreadPool_def)
  then show ?case using pr_init by metis
next
  case (lr_step s s')
  then show ?case using lc_step_pool by blast
qed (simp_all add: lc_pool_def lc_defs)

section \<open>Counting\<close>

definition timer_owes :: "timer_pos \<Rightarrow> nat" where
  "timer_owes p = (case p of TimerTurn n (SubmitTask t # ops) \<Rightarrow> 1 | _ \<Rightarrow> 0)"

definition timer_ok :: "timer_pos \<Rightarrow> bool" where
  "timer_ok p \<longleftrightarrow> (case p of
     TimerTurn n ops \<Rightarrow> (\<exists>ts. ops = submit_ops ts) \<or> (\<exists>t ts. ops = SubmitTask t # submit_ops ts) | _ \<Rightarrow> True)"

definition job_active :: "job \<Rightarrow> nat" where
  "job_active j = (case j of JTask t \<Rightarrow> 1 | JCount t \<Rightarrow> 1 | _ \<Rightarrow> 0)"

definition unperformed :: "job \<Rightarrow> bg_task multiset" where
  "unperformed j = (case j of JTask t \<Rightarrow> {#t#} | _ \<Rightarrow> {#})"

lemma job_counts [simp]:
  "job_active JIdle = 0" "job_active (JTask t) = 1" "job_active (JCount t) = 1" "job_active (JLock t) = 0" "job_active (JNotify t) = 0"
  "unperformed JIdle = {#}" "unperformed (JTask t) = {#t#}" "unperformed (JCount t) = {#}" "unperformed (JLock t) = {#}"
  "unperformed (JNotify t) = {#}"
  by (simp_all add: job_active_def unperformed_def)

lemma sum_list_update_eq:
  "i < length xs \<Longrightarrow> sum_list (map f (xs[i := x])) + f (xs ! i) = sum_list (map f xs) + (f x :: 'b :: comm_monoid_add)"
proof (induction xs arbitrary: i)
  case (Cons y ys)
  show ?case
  proof (cases i)
    case (Suc k)
    with Cons.IH [of k] Cons.prems show ?thesis by (simp add: add.assoc)
  qed (simp add: ac_simps)
qed simp

lemma sum_list_zeros [simp]: "sum_list (replicate n (0 :: 'b :: comm_monoid_add)) = 0"
  by (induction n) simp_all

definition active_jobs :: "lifecycle \<Rightarrow> nat" where
  "active_jobs s = sum_list (map job_active (lc_jobs s))"

definition job_unperformed :: "lifecycle \<Rightarrow> bg_task multiset" where
  "job_unperformed s = sum_list (map unperformed (lc_jobs s))"

definition count_inv :: "lifecycle \<Rightarrow> bool" where
  "count_inv s \<longleftrightarrow> timer_ok (lc_timer s) \<and>
     lc_inFlight s = int (timer_owes (lc_timer s) + length (lc_queue s) + active_jobs s) \<and>
     mset (lc_started s) = mset (lc_performed s) + job_unperformed s"

lemma submit_ops_simps [simp]: "submit_ops [] = []" "submit_ops (t # ts) = CountTask # SubmitTask t # submit_ops ts"
  by (simp_all add: submit_ops_def)

lemma submit_ops_not_submit [simp]: "submit_ops ts \<noteq> SubmitTask t # ops"
  by (cases ts) simp_all

lemma timer_owes_simps [simp]:
  "timer_owes NoThread = 0" "timer_owes (TimerWait n) = 0" "timer_owes TimerExited = 0"
  "timer_owes (TimerTurn n (submit_ops ts)) = 0" "timer_owes (TimerTurn n (CountTask # ops)) = 0"
  "timer_owes (TimerTurn n []) = 0" "timer_owes (TimerTurn n (SubmitTask t # ops)) = 1"
  by (cases ts; simp add: timer_owes_def)+

lemma timer_ok_simps [simp]:
  "timer_ok NoThread" "timer_ok (TimerWait n)" "timer_ok TimerExited" "timer_ok (TimerTurn n (submit_ops ts))"
  by (auto simp: timer_ok_def)

lemma count_inv_timer: "timer_step s s' \<Longrightarrow> count_inv s \<Longrightarrow> count_inv s'"
proof (induction rule: timer_step.induct)
  case (ti_count s n ops)
  then obtain t ts where "ops = SubmitTask t # submit_ops ts"
    by (auto simp: count_inv_def timer_ok_def) (metis list.distinct(1) list.exhaust list.inject submit_ops_simps)
  with ti_count show ?case by (auto simp: count_inv_def count_task_def active_jobs_def job_unperformed_def timer_ok_def)
next
  case (ti_submit s n t ops)
  then obtain ts where "ops = submit_ops ts" using submit_ops_not_submit [THEN not_sym] by (auto simp: count_inv_def timer_ok_def)
  with ti_submit show ?case by (simp add: count_inv_def enqueue_task_def active_jobs_def job_unperformed_def)
qed (auto simp: count_inv_def active_jobs_def job_unperformed_def)

text \<open>What replacing one job does to the sums over all jobs.\<close>

lemma job_sums:
  assumes "i < length (lc_jobs s)" and "lc_jobs s ! i = j0"
  shows "active_jobs (set_job i j s) + job_active j0 = active_jobs s + job_active j"
    and "job_unperformed (set_job i j s) + unperformed j0 = job_unperformed s + unperformed j"
  using sum_list_update_eq [OF assms(1), of job_active j] sum_list_update_eq [OF assms(1), of unperformed j] assms(2)
  by (simp_all add: active_jobs_def job_unperformed_def set_job_def)

lemma job_sums_fields [simp]:
  "active_jobs (s\<lparr>lc_queue := q\<rparr>) = active_jobs s" "active_jobs (s\<lparr>lc_started := ts\<rparr>) = active_jobs s"
  "active_jobs (s\<lparr>lc_performed := ts\<rparr>) = active_jobs s" "active_jobs (s\<lparr>lc_inFlight := k\<rparr>) = active_jobs s"
  "active_jobs (s\<lparr>lc_finished := ts\<rparr>) = active_jobs s" "active_jobs (s\<lparr>lc_owner := w\<rparr>) = active_jobs s"
  by (simp_all add: active_jobs_def)

lemma unperformed_fields [simp]:
  "job_unperformed (s\<lparr>lc_queue := q\<rparr>) = job_unperformed s" "job_unperformed (s\<lparr>lc_started := ts\<rparr>) = job_unperformed s"
  "job_unperformed (s\<lparr>lc_performed := ts\<rparr>) = job_unperformed s" "job_unperformed (s\<lparr>lc_inFlight := k\<rparr>) = job_unperformed s"
  "job_unperformed (s\<lparr>lc_finished := ts\<rparr>) = job_unperformed s" "job_unperformed (s\<lparr>lc_owner := w\<rparr>) = job_unperformed s"
  by (simp_all add: job_unperformed_def)

lemma set_job_fields [simp]:
  "lc_timer (set_job i j s) = lc_timer s" "lc_queue (set_job i j s) = lc_queue s" "lc_inFlight (set_job i j s) = lc_inFlight s"
  "lc_started (set_job i j s) = lc_started s" "lc_performed (set_job i j s) = lc_performed s" "lc_owner (set_job i j s) = lc_owner s"
  "lc_running (set_job i j s) = lc_running s" "lc_jobs (set_job i j s) = (lc_jobs s)[i := j]"
  by (simp_all add: set_job_def)

lemma count_inv_job: "job_step s s' \<Longrightarrow> count_inv s \<Longrightarrow> count_inv s'"
proof (induction rule: job_step.induct)
  case (jb_take i s t ts)
  then show ?case using job_sums [OF jb_take(1,2), of "JTask t"] by (simp add: count_inv_def)
next
  case (jb_body i s t)
  then show ?case using job_sums [OF jb_body(1,2), of "JCount t"] by (simp add: count_inv_def)
next
  case (jb_last i s t)
  then show ?case using job_sums [OF jb_last(1,2), of "JLock t"] by (simp add: count_inv_def)
next
  case (jb_more i s t)
  then show ?case using job_sums [OF jb_more(1,2), of JIdle] by (simp add: count_inv_def job_done_def)
next
  case (jb_lock i s t)
  then show ?case using job_sums [OF jb_lock(1,2), of "JNotify t"] by (simp add: count_inv_def)
next
  case (jb_notify i s t)
  then show ?case using job_sums [OF jb_notify(1,2), of JIdle] by (simp add: count_inv_def job_done_def)
qed

section \<open>Who may be where\<close>

definition ctl_inv :: "lifecycle \<Rightarrow> bool" where
  "ctl_inv s \<longleftrightarrow>
     (lc_running s \<longrightarrow> lc_owner s = Owning \<and> lc_timer s \<noteq> NoThread \<and> lc_timer s \<noteq> TimerExited) \<and>
     (lc_owner s = Owning \<and> \<not> lc_running s \<longrightarrow> lc_timer s = NoThread) \<and>
     (lc_timer s = NoThread \<longrightarrow> lc_inFlight s = 0 \<and> lc_owner s \<in> {Owning, StopReturned, Destroyed}) \<and>
     (lc_owner s \<notin> {Owning, Joining} \<longrightarrow> lc_timer s \<in> {NoThread, TimerExited}) \<and>
     (lc_owner s \<in> {StopReturned, Destroyed} \<longrightarrow> lc_inFlight s = 0) \<and>
     (lc_owner s = Asleep \<longrightarrow> lc_inFlight s \<noteq> 0 \<or> (\<exists>t. JLock t \<in> set (lc_jobs s) \<or> JNotify t \<in> set (lc_jobs s)))"

lemma ctl_inv_timer: "timer_step s s' \<Longrightarrow> ctl_inv s \<Longrightarrow> ctl_inv s'"
  by (induction rule: timer_step.induct) (auto simp: ctl_inv_def lc_defs)

lemma ctl_inv_owner: "owner_step s s' \<Longrightarrow> ctl_inv s \<Longrightarrow> ctl_inv s'"
  by (induction rule: owner_step.induct) (auto simp: ctl_inv_def)

lemma active_job_counted:
  assumes "count_inv s" and "i < length (lc_jobs s)" and "lc_jobs s ! i = JCount t"
  shows "0 < lc_inFlight s"
  using assms job_sums(1) [OF assms(2,3), of JIdle] by (simp add: count_inv_def)

lemma signaller_stays:
  assumes "\<exists>t. JLock t \<in> set js \<or> JNotify t \<in> set js" and "i < length js" and "\<And>t. js ! i \<noteq> JLock t" "\<And>t. js ! i \<noteq> JNotify t"
  shows "\<exists>t. JLock t \<in> set (js[i := j]) \<or> JNotify t \<in> set (js[i := j])"
proof -
  obtain t k where k: "k < length js" "js ! k = JLock t \<or> js ! k = JNotify t"
    using assms(1) by (auto simp: in_set_conv_nth)
  then have "k \<noteq> i" using assms(3,4) by auto
  then have "js[i := j] ! k = js ! k" by simp
  with k show ?thesis by (metis length_list_update nth_mem)
qed

lemma ctl_inv_job:
  assumes "job_step s s'" and "ctl_inv s" and "count_inv s"
  shows "ctl_inv s'"
  using assms
proof (induction rule: job_step.induct)
  case (jb_take i s t ts)
  then show ?case using signaller_stays [of "lc_jobs s" i] by (auto simp: ctl_inv_def)
next
  case (jb_body i s t)
  then show ?case using signaller_stays [of "lc_jobs s" i] by (auto simp: ctl_inv_def)
next
  case (jb_last i s t)
  then have "JLock t \<in> set ((lc_jobs s)[i := JLock t])" by (intro set_update_memI)
  with jb_last active_job_counted [OF jb_last(5,1,2)] show ?case by (auto simp: ctl_inv_def)
next
  case (jb_more i s t)
  then show ?case using signaller_stays [of "lc_jobs s" i] active_job_counted [OF jb_more(5,1,2)]
    by (auto simp: ctl_inv_def job_done_def)
next
  case (jb_lock i s t)
  then have "JNotify t \<in> set ((lc_jobs s)[i := JNotify t])" by (intro set_update_memI)
  with jb_lock show ?case by (auto simp: ctl_inv_def)
next
  case (jb_notify i s t)
  then show ?case by (auto simp: ctl_inv_def job_done_def)
qed

definition lc_inv :: "lifecycle \<Rightarrow> bool" where
  "lc_inv s \<longleftrightarrow> count_inv s \<and> ctl_inv s"

lemma count_inv_owner: "owner_step s s' \<Longrightarrow> count_inv s \<Longrightarrow> count_inv s'"
  by (induction rule: owner_step.induct) (auto simp: count_inv_def)

lemma lc_inv_step: "lc_step s s' \<Longrightarrow> lc_inv s \<Longrightarrow> lc_inv s'"
  by (induction rule: lc_step.induct)
    (simp_all add: lc_inv_def count_inv_timer count_inv_job count_inv_owner ctl_inv_timer ctl_inv_job ctl_inv_owner)

lemma lc_reachable_inv: "lc_reachable c n s \<Longrightarrow> lc_inv s"
proof (induction rule: lc_reachable.induct)
  case lr_init
  show ?case
    by (simp add: lc_inv_def count_inv_def ctl_inv_def new_lifecycle_def active_jobs_def job_unperformed_def)
next
  case (lr_start s)
  then show ?case by (auto simp: lc_inv_def count_inv_def ctl_inv_def manager_start_def active_jobs_def job_unperformed_def)
next
  case (lr_stop s)
  then show ?case by (auto simp: lc_inv_def count_inv_def ctl_inv_def begin_stop_def active_jobs_def job_unperformed_def)
next
  case (lr_destroy s)
  then show ?case by (auto simp: lc_inv_def count_inv_def ctl_inv_def)
next
  case (lr_step s s')
  then show ?case using lc_inv_step by blast
qed

section \<open>Stopping comes to an end\<close>

definition timer_weight :: "timer_pos \<Rightarrow> nat" where
  "timer_weight p = (case p of NoThread \<Rightarrow> 0 | TimerWait n \<Rightarrow> 1 | TimerExited \<Rightarrow> 0
     | TimerTurn n ops \<Rightarrow> 2 + sum_list (map (\<lambda>x. case x of CountTask \<Rightarrow> 1 | SubmitTask t \<Rightarrow> 8) ops))"

definition job_weight :: "job \<Rightarrow> nat" where
  "job_weight j = (case j of JIdle \<Rightarrow> 0 | JTask t \<Rightarrow> 6 | JCount t \<Rightarrow> 5 | JLock t \<Rightarrow> 4 | JNotify t \<Rightarrow> 3)"

definition owner_weight :: "owner_pos \<Rightarrow> nat" where
  "owner_weight w = (case w of Owning \<Rightarrow> 0 | Joining \<Rightarrow> 4 | Testing \<Rightarrow> 2 | Asleep \<Rightarrow> 1 | Woken \<Rightarrow> 3 | StopReturned \<Rightarrow> 0 | Destroyed \<Rightarrow> 0)"

definition stop_work :: "lifecycle \<Rightarrow> nat" where
  "stop_work s = timer_weight (lc_timer s) + 7 * length (lc_queue s) + sum_list (map job_weight (lc_jobs s)) +
     owner_weight (lc_owner s)"

lemmas weight_defs = stop_work_def timer_weight_def owner_weight_def

lemma job_weights [simp]:
  "job_weight JIdle = 0" "job_weight (JTask t) = 6" "job_weight (JCount t) = 5" "job_weight (JLock t) = 4"
  "job_weight (JNotify t) = 3"
  by (simp_all add: job_weight_def)

lemma job_weight_set:
  assumes "i < length (lc_jobs s)" and "lc_jobs s ! i = j0"
  shows "sum_list (map job_weight ((lc_jobs s)[i := j])) + job_weight j0 = sum_list (map job_weight (lc_jobs s)) + job_weight j"
  using sum_list_update_eq [OF assms(1), of job_weight j] assms(2) by simp

lemma job_step_decreases: "job_step s s' \<Longrightarrow> stop_work s' < stop_work s"
proof (induction rule: job_step.induct)
  case (jb_take i s t ts)
  then show ?case using job_weight_set [OF jb_take(1,2), of "JTask t"] by (simp add: weight_defs)
next
  case (jb_body i s t)
  then show ?case using job_weight_set [OF jb_body(1,2), of "JCount t"] by (simp add: weight_defs)
next
  case (jb_last i s t)
  then show ?case using job_weight_set [OF jb_last(1,2), of "JLock t"] by (simp add: weight_defs)
next
  case (jb_more i s t)
  then show ?case using job_weight_set [OF jb_more(1,2), of JIdle] by (simp add: weight_defs job_done_def)
next
  case (jb_lock i s t)
  then show ?case using job_weight_set [OF jb_lock(1,2), of "JNotify t"] by (simp add: weight_defs)
next
  case (jb_notify i s t)
  then show ?case using job_weight_set [OF jb_notify(1,2), of JIdle]
    by (auto simp: weight_defs job_done_def split: owner_pos.split)
qed

lemma lc_step_decreases: "lc_step s s' \<Longrightarrow> \<not> lc_running s \<Longrightarrow> stop_work s' < stop_work s \<and> \<not> lc_running s'"
proof (induction rule: lc_step.induct)
  case (lc_timer s s')
  then show ?case by (induction rule: timer_step.induct) (auto simp: weight_defs lc_defs)
next
  case (lc_job s s')
  then show ?case using job_step_decreases [OF lc_job(1)] by (auto simp: job_step_iff job_done_def)
next
  case (lc_owner s s')
  then show ?case by (induction rule: owner_step.induct) (auto simp: weight_defs)
qed

lemma some_worker_steps:
  assumes "lc_jobs s \<noteq> []" and "lc_owner s \<noteq> Testing" and "lc_queue s \<noteq> [] \<or> (\<exists>j \<in> set (lc_jobs s). j \<noteq> JIdle)"
  shows "\<exists>s'. job_step s s'"
proof (cases "\<exists>i t. i < length (lc_jobs s) \<and> lc_jobs s ! i \<in> {JTask t, JCount t, JNotify t}")
  case True
  then obtain i t where i: "i < length (lc_jobs s)" and "lc_jobs s ! i \<in> {JTask t, JCount t, JNotify t}" by blast
  then consider "lc_jobs s ! i = JTask t" | "lc_jobs s ! i = JCount t" | "lc_jobs s ! i = JNotify t" by auto
  then show ?thesis
    using jb_body [OF i] jb_last [OF i] jb_more [OF i] jb_notify [OF i]
    by cases (metis, metis, metis)
next
  case False
  then have free: "done_mutex_free s" using assms(2) by (auto simp: done_mutex_free_def in_set_conv_nth)
  show ?thesis
  proof (cases "\<exists>i t. i < length (lc_jobs s) \<and> lc_jobs s ! i = JLock t")
    case True
    then show ?thesis using free by (blast intro: jb_lock)
  next
    case noLock: False
    have idle: "lc_jobs s ! i = JIdle" if "i < length (lc_jobs s)" for i
      using False noLock that by (cases "lc_jobs s ! i") auto
    then have "lc_queue s \<noteq> []" using assms(3) by (auto simp: in_set_conv_nth)
    then obtain t ts where "lc_queue s = t # ts" by (cases "lc_queue s") auto
    then show ?thesis using jb_take [of 0 s t ts] idle [of 0] assms(1) by auto
  qed
qed

lemma timer_can_finish:
  assumes "lc_timer s \<noteq> NoThread" and "lc_timer s \<noteq> TimerExited" and "\<not> lc_running s"
  shows "\<exists>s'. timer_step s s'"
proof (cases "lc_timer s")
  case (TimerWait n)
  then show ?thesis using ti_exit [OF TimerWait assms(3)] by blast
next
  case (TimerTurn n ops)
  show ?thesis
  proof (cases ops)
    case Nil
    then show ?thesis using ti_sleep [of s n] TimerTurn by blast
  next
    case (Cons x xs)
    then show ?thesis using ti_count [of s n xs] ti_submit [of s n _ xs] TimerTurn by (cases x) blast+
  qed
qed (use assms in simp_all)

lemma sleeper_is_owed:
  assumes "lc_inv s" and "lc_owner s = Asleep"
  shows "lc_queue s \<noteq> [] \<or> (\<exists>j \<in> set (lc_jobs s). j \<noteq> JIdle)"
proof (rule ccontr)
  assume "\<not> ?thesis"
  then have q: "lc_queue s = []" "set (lc_jobs s) \<subseteq> {JIdle}" by auto
  then have "lc_jobs s = replicate (length (lc_jobs s)) JIdle" by (intro replicate_eqI) auto
  then have "active_jobs s = 0" unfolding active_jobs_def by (metis job_counts(1) map_replicate sum_list_zeros)
  moreover have "timer_owes (lc_timer s) = 0" using assms by (auto simp: lc_inv_def ctl_inv_def)
  ultimately have "lc_inFlight s = 0" using assms(1) q(1) by (simp add: lc_inv_def count_inv_def)
  then show False using assms q(2) by (auto simp: lc_inv_def ctl_inv_def)
qed

lemma mutex_holder_steps: "\<not> done_mutex_free s \<Longrightarrow> lc_owner s \<noteq> Testing \<Longrightarrow> \<exists>s'. job_step s s'"
  using jb_notify by (fastforce simp: done_mutex_free_def in_set_conv_nth)

lemma stopping_not_stuck:
  assumes "lc_inv s" and "lc_jobs s \<noteq> []" and "lc_owner s \<in> {Joining, Testing, Asleep, Woken}"
  shows "\<exists>s'. lc_step s s'"
proof -
  have nr: "\<not> lc_running s" using assms(1,3) by (auto simp: lc_inv_def ctl_inv_def)
  consider "lc_owner s = Joining" | "lc_owner s = Testing" | "lc_owner s = Asleep" | "lc_owner s = Woken"
    using assms(3) by auto
  then have "(\<exists>s'. timer_step s s') \<or> (\<exists>s'. job_step s s') \<or> (\<exists>s'. owner_step s s')"
  proof cases
    case 1
    then have "lc_timer s \<noteq> NoThread" using assms(1) by (auto simp: lc_inv_def ctl_inv_def)
    with 1 show ?thesis
      using timer_can_finish [OF _ _ nr] ow_join [OF 1] mutex_holder_steps [of s]
      by (cases "lc_timer s = TimerExited"; cases "done_mutex_free s") auto
  next
    case 2
    then show ?thesis using ow_return [OF 2] ow_wait [OF 2] by blast
  next
    case 3
    then show ?thesis using some_worker_steps [OF assms(2)] sleeper_is_owed [OF assms(1) 3] by simp
  next
    case 4
    then show ?thesis using ow_recheck [OF 4] mutex_holder_steps [of s] by (cases "done_mutex_free s") auto
  qed
  then show ?thesis by (auto intro: lc_step.intros)
qed

lemma lc_step_keeps: "lc_step s s' \<Longrightarrow> length (lc_jobs s') = length (lc_jobs s) \<and>
    (lc_owner s \<in> {Joining, Testing, Asleep, Woken, StopReturned} \<longrightarrow> lc_owner s' \<in> {Joining, Testing, Asleep, Woken, StopReturned})"
  by (induction rule: lc_step.induct)
    (auto simp: timer_step_iff job_step_iff owner_step_iff lc_defs)

section \<open>Properties\<close>

text \<open>
  C35: when \<^verbatim>\<open>stop\<close> has returned, nothing of the background work is left. The timer thread has ended,
  the counter is zero, the queue is empty, and every task ever submitted has been performed exactly
  once; this stays so for as long as the process runs, also after the manager is destroyed.
\<close>

theorem stop_waits_for_tasks:
  assumes "lc_reachable c n s" and "lc_owner s \<in> {StopReturned, Destroyed}"
  shows "lc_timer s \<in> {NoThread, TimerExited} \<and> lc_inFlight s = 0 \<and> lc_queue s = [] \<and>
    mset (lc_performed s) = mset (lc_submitted s)"
proof -
  have i: "count_inv s" "ctl_inv s" using lc_reachable_inv [OF assms(1)] by (simp_all add: lc_inv_def)
  have z: "lc_inFlight s = 0" "lc_timer s \<in> {NoThread, TimerExited}" using i(2) assms(2) by (auto simp: ctl_inv_def)
  have a: "active_jobs s = 0" "lc_queue s = []" using i(1) z(1) by (simp_all add: count_inv_def del: of_nat_add)
  have "job_active j = 0 \<Longrightarrow> unperformed j = {#}" for j by (cases j) simp_all
  then have "map unperformed (lc_jobs s) = map (\<lambda>j. {#}) (lc_jobs s)"
    using a(1) by (intro map_cong) (auto simp: active_jobs_def)
  then have "job_unperformed s = {#}" by (simp add: job_unperformed_def map_replicate_const)
  then have "mset (lc_started s) = mset (lc_performed s)" using i(1) by (simp add: count_inv_def)
  moreover have "lc_submitted s = lc_started s"
    using pool_reachable_inv [OF lc_pool_reachable [OF assms(1)]] a(2) by (simp add: pool_inv_def lc_pool_def)
  ultimately show ?thesis using z a(2) by simp
qed

text \<open>A manager that is started, ticks once, and is stopped while its only worker performs the flush.\<close>

definition one_tick :: "job \<Rightarrow> owner_pos \<Rightarrow> int \<Rightarrow> lifecycle" where
  "one_tick j w k =
     \<lparr>lc_config = default_PersistenceConfig, lc_running = False, lc_timer = TimerExited, lc_inFlight = k, lc_queue = [],
      lc_jobs = [j], lc_owner = w, lc_submitted = [FlushTask], lc_started = [FlushTask], lc_finished = [], lc_performed = [FlushTask]\<rparr>"

lemma first_tick: "timer_tick default_PersistenceConfig 0 = (1, [FlushTask])"
  by code_simp

lemma one_tick_checking: "lc_reachable default_PersistenceConfig 1 (one_tick (JCount FlushTask) Testing 1)"
proof -
  let ?R = "lc_reachable default_PersistenceConfig 1"
  let ?s = "\<lparr>lc_config = default_PersistenceConfig, lc_running = True, lc_timer = TimerWait 0, lc_inFlight = 0, lc_queue = [],
      lc_jobs = [JIdle], lc_owner = Owning, lc_submitted = [], lc_started = [], lc_finished = [], lc_performed = []\<rparr>"
  let ?t = "?s\<lparr>lc_timer := TimerWait 1, lc_inFlight := 1, lc_queue := [FlushTask], lc_submitted := [FlushTask]\<rparr>"
  let ?u = "?t\<lparr>lc_queue := [], lc_jobs := [JCount FlushTask], lc_started := [FlushTask], lc_performed := [FlushTask]\<rparr>"
  note step = lr_step [OF _ lc_step.lc_timer] lr_step [OF _ lc_step.lc_job] lr_step [OF _ lc_step.lc_owner]
  have "?R ?s" using lr_start [OF lr_init, of default_PersistenceConfig 1] by (simp add: new_lifecycle_def manager_start_def)
  from step(1) [OF this ti_tick [of _ 0 1 "[FlushTask]"]] have "?R (?s\<lparr>lc_timer := TimerTurn 1 [CountTask, SubmitTask FlushTask]\<rparr>)"
    by (simp add: first_tick)
  from step(1) [OF this ti_count] have "?R (?s\<lparr>lc_timer := TimerTurn 1 [SubmitTask FlushTask], lc_inFlight := 1\<rparr>)"
    by (simp add: count_task_def)
  from step(1) [OF this ti_submit] have "?R (?t\<lparr>lc_timer := TimerTurn 1 []\<rparr>)" by (simp add: enqueue_task_def)
  from step(1) [OF this ti_sleep] have "?R ?t" by simp
  from step(2) [OF this jb_take [of 0 _ FlushTask "[]"]]
  have "?R (?t\<lparr>lc_queue := [], lc_jobs := [JTask FlushTask], lc_started := [FlushTask]\<rparr>)" by (simp add: set_job_def)
  from step(2) [OF this jb_body [of 0 _ FlushTask]] have "?R ?u" by (simp add: set_job_def)
  from lr_stop [OF this] have "?R (?u\<lparr>lc_running := False, lc_owner := Joining\<rparr>)"
    by (simp add: timer_holds_mutex_def begin_stop_def)
  from step(1) [OF this ti_exit] have "?R (?u\<lparr>lc_running := False, lc_owner := Joining, lc_timer := TimerExited\<rparr>)" by simp
  from step(3) [OF this ow_join] show ?thesis by (simp add: done_mutex_free_def one_tick_def)
qed

lemma one_tick_returned: "lc_reachable default_PersistenceConfig 1 (one_tick (JLock FlushTask) StopReturned 0)"
proof -
  note step = lr_step [OF _ lc_step.lc_job] lr_step [OF _ lc_step.lc_owner]
  from step(1) [OF one_tick_checking jb_last [of 0 _ FlushTask]]
  have "lc_reachable default_PersistenceConfig 1 (one_tick (JLock FlushTask) Testing 0)"
    by (simp add: one_tick_def set_job_def)
  from step(2) [OF this ow_return] show ?thesis by (simp add: one_tick_def)
qed

theorem stop_waits_for_tasks_witness:
  "mset (lc_performed (one_tick (JLock FlushTask) StopReturned 0)) = {#FlushTask#}"
  using stop_waits_for_tasks [OF one_tick_returned] by (simp add: one_tick_def)

text \<open>
  C36: \<^verbatim>\<open>stop\<close> always returns, if the pool has a worker. Once it has begun, every sequence of steps of the
  timer, the workers and the stopping thread is bounded, and where no step is possible any more \<^verbatim>\<open>stop\<close>
  has returned: no wake-up is lost between testing the counter and going to sleep.
\<close>

theorem stop_returns:
  assumes "lc_reachable c n s" and "0 < n" and "lc_owner s \<in> {Joining, Testing, Asleep, Woken}"
  shows "(\<forall>k s'. (lc_step ^^ k) s s' \<longrightarrow> k \<le> stop_work s) \<and>
    (\<forall>s'. lc_step\<^sup>*\<^sup>* s s' \<and> (\<nexists>s''. lc_step s' s'') \<longrightarrow> lc_owner s' = StopReturned)"
proof (intro conjI allI impI)
  have i: "lc_inv s" using lc_reachable_inv [OF assms(1)] .
  have nr: "\<not> lc_running s" using i assms(3) by (auto simp: lc_inv_def ctl_inv_def)
  fix k s'
  assume "(lc_step ^^ k) s s'"
  then show "k \<le> stop_work s" using nr
  proof (induction k arbitrary: s)
    case (Suc k)
    then obtain m where m: "lc_step s m" "(lc_step ^^ k) m s'" using relpowp_Suc_D2 by metis
    from lc_step_decreases [OF m(1) Suc.prems(2)] Suc.IH [OF m(2)] show ?case by linarith
  qed simp
next
  fix s'
  assume s': "lc_step\<^sup>*\<^sup>* s s' \<and> (\<nexists>s''. lc_step s' s'')"
  have n: "length (lc_jobs s) = n"
    using pool_reachable_inv [OF lc_pool_reachable [OF assms(1)]] by (simp add: pool_inv_def lc_pool_def)
  from s' have "lc_step\<^sup>*\<^sup>* s s'" ..
  then have r: "lc_inv s' \<and> length (lc_jobs s') = length (lc_jobs s) \<and> lc_owner s' \<in> {Joining, Testing, Asleep, Woken, StopReturned}"
  proof (induction rule: rtranclp_induct)
    case base
    then show ?case using lc_reachable_inv [OF assms(1)] assms(3) by auto
  next
    case (step y z)
    then show ?case using lc_inv_step [OF step(2)] lc_step_keeps [OF step(2)] by auto
  qed
  then have "lc_jobs s' \<noteq> []" using n assms(2) by (metis length_greater_0_conv)
  then show "lc_owner s' = StopReturned" using stopping_not_stuck [of s'] s' r by auto
qed

theorem stop_returns_witness:
  "\<nexists>s'. (lc_step ^^ 8) (one_tick (JCount FlushTask) Testing 1) s'"
proof
  assume "\<exists>s'. (lc_step ^^ 8) (one_tick (JCount FlushTask) Testing 1) s'"
  then obtain s' where "(lc_step ^^ 8) (one_tick (JCount FlushTask) Testing 1) s'" ..
  moreover have "lc_owner (one_tick (JCount FlushTask) Testing 1) \<in> {Joining, Testing, Asleep, Woken}" by (simp add: one_tick_def)
  ultimately have "8 \<le> stop_work (one_tick (JCount FlushTask) Testing 1)"
    using stop_returns [OF one_tick_checking zero_less_one] by blast
  then show False by (simp add: one_tick_def weight_defs)
qed

text \<open>
  The manager can be destroyed while a task still uses it. The last task decrements the counter
  before it locks the mutex, so \<^verbatim>\<open>stop\<close> may see zero and return, and the manager be destroyed, while the
  worker is about to lock the mutex and notify the condition variable, both members of the manager.
\<close>

theorem destroyed_while_worker_notifies:
  "\<exists>s i t. lc_reachable default_PersistenceConfig 1 s \<and> lc_owner s = Destroyed \<and>
     i < length (lc_jobs s) \<and> lc_jobs s ! i = JLock t \<and> job_step s (set_job i (JNotify t) s)"
proof -
  let ?s = "one_tick (JLock FlushTask) Destroyed 0"
  have "lc_reachable default_PersistenceConfig 1 ?s" using lr_destroy [OF one_tick_returned] by (simp add: one_tick_def)
  moreover have "job_step ?s (set_job 0 (JNotify FlushTask) ?s)"
    by (rule jb_lock) (simp_all add: one_tick_def done_mutex_free_def)
  ultimately show ?thesis by (intro exI [of _ ?s] exI [of _ "0::nat"] exI [of _ FlushTask]) (simp add: one_tick_def)
qed

end
