(* ===== verification/Programs.thy ===== *)
theory Programs
  imports Durability_Theorems Router Logger Tcp_Run Health_Loop Persistence_Lifecycle
begin

text \<open>
  The \<^verbatim>\<open>main\<close> functions of the server and of the router: command line, configuration file, the
  objects built from them, what is started in which order, and what the server leaves on disk when
  \<^verbatim>\<open>main\<close> returns. A number that cannot be read ends the program with an exception; a missing topology
  and a socket that cannot be opened end it with exit code 1. In between the running parts are the
  step relations of the listener, the persistence manager's threads and the health checker's loop.
\<close>

datatype start_error = BadArgument conv_error | ExitCode int

section \<open>Signals\<close>

text \<open>The handler of both programs; \<^verbatim>\<open>g_server\<close> is a null pointer until \<^verbatim>\<open>main\<close> has set it.\<close>

definition handleShutdownSignal :: "TcpServer option \<Rightarrow> TcpServer option" where
  "handleShutdownSignal g_server = map_option tcp_stop g_server"

section \<open>Server\<close>

definition server_start ::
  "(nat \<Rightarrow> nanos) \<Rightarrow> (nat \<Rightarrow> nanos) \<Rightarrow> string list \<Rightarrow> disk \<Rightarrow> start_error + int \<times> LogLevel \<times> node" where
  "server_start clk1 clk2 argv d =
     (case server_parseArgs argv server_Args of
        Inl e \<Rightarrow> Inl (BadArgument e)
      | Inr a \<Rightarrow>
          let c = fst (config_loadFromFile new_Config (read_file d (configPath a)))
          in Inr (effective_port a c 6380, parseLogLevel (getString c ''log_level'' ''INFO''),
                  boot clk1 clk2 (effective_maxKeys a c) (persistConfig c) d))"

text \<open>
  The rest of \<^verbatim>\<open>main\<close>: the pool has two workers; the listening socket is opened after recovery, the
  timer started after that.
\<close>

record server_up =
  su_level :: LogLevel
  su_node :: node
  su_persistence :: lifecycle
  su_listener :: listener

definition server_main ::
  "(nat \<Rightarrow> nanos) \<Rightarrow> (nat \<Rightarrow> nanos) \<Rightarrow> start_calls \<Rightarrow> int \<Rightarrow> string list \<Rightarrow> disk \<Rightarrow> start_error + server_up" where
  "server_main clk1 clk2 calls now argv d =
     (case server_parseArgs argv server_Args of
        Inl e \<Rightarrow> Inl (BadArgument e)
      | Inr a \<Rightarrow>
          let c = fst (config_loadFromFile new_Config (read_file d (configPath a)));
              n = boot clk1 clk2 (effective_maxKeys a c) (persistConfig c) d;
              (s, ok) = tcp_start calls (new_TcpServer (effective_port a c 6380))
          in if \<not> ok then Inl (ExitCode 1)
             else Inr \<lparr>su_level = parseLogLevel (getString c ''log_level'' ''INFO''), su_node = n,
                        su_persistence = manager_start (new_lifecycle (persistConfig c) 2), su_listener = enter_run s now\<rparr>)"

section \<open>Leaving \<open>main\<close>\<close>

text \<open>
  Objects are destroyed in the reverse order of their declaration: the replication manager stops its
  link; the persistence manager stops, for which the tasks still submitted are performed, and the
  destructor of its log file writes out the stream's buffer. What remains is the disk.
\<close>

definition destroy_ReplicationManager :: "ReplicationManager \<Rightarrow> ReplicationManager" where
  "destroy_ReplicationManager m = m\<lparr>replicaLink := map_option link_stop (replicaLink m)\<rparr>"

definition stop_replication :: "server \<Rightarrow> server" where
  "stop_replication s = s\<lparr>svr_node := (svr_node s)\<lparr>replication := map_option destroy_ReplicationManager (replication (svr_node s))\<rparr>\<rparr>"

definition server_exit :: "bg_task list \<Rightarrow> server \<Rightarrow> disk" where
  "server_exit ts s = node_disk (svr_node (background FlushTask (fold background ts (stop_replication s))))"

section \<open>Router\<close>

record router_setup =
  rs_port :: int
  rs_intervalMs :: int
  rs_maxMissedPings :: int
  rs_topology :: ShardTopology
  rs_router :: Router

definition router_start :: "string list \<Rightarrow> disk \<Rightarrow> start_error + router_setup" where
  "router_start argv d =
     (case router_parseArgs argv router_Args of
        Inl e \<Rightarrow> Inl (BadArgument e)
      | Inr a \<Rightarrow>
          let c = fst (config_loadFromFile new_Config (read_file d (configPath a)));
              topologyPath = getString c ''topology_file'' ''topology.conf'';
              (tc, ok) = config_loadFromFile new_Config (read_file d topologyPath);
              t = parseShards tc
          in if \<not> ok then Inl (ExitCode 1)
             else if shardIds t = [] then Inl (ExitCode 1)
             else Inr \<lparr>rs_port = effective_port a c 7000, rs_intervalMs = getInt c ''health_check_interval_ms'' 1000,
                        rs_maxMissedPings = getInt c ''max_missed_pings'' 3, rs_topology = t, rs_router = new_Router t\<rparr>)"

text \<open>The rest of \<^verbatim>\<open>main\<close>.\<close>

record router_up =
  ru_setup :: router_setup
  ru_checker :: HealthChecker
  ru_listener :: listener

definition router_main :: "start_calls \<Rightarrow> int \<Rightarrow> string list \<Rightarrow> disk \<Rightarrow> start_error + router_up" where
  "router_main calls now argv d =
     (case router_start argv d of
        Inl e \<Rightarrow> Inl e
      | Inr u \<Rightarrow>
          let (s, ok) = tcp_start calls (new_TcpServer (rs_port u))
          in if \<not> ok then Inl (ExitCode 1)
             else Inr \<lparr>ru_setup = u, ru_checker = hc_start (new_HealthChecker (rs_intervalMs u) (rs_maxMissedPings u)),
                        ru_listener = enter_run s now\<rparr>)"

text \<open>After \<^verbatim>\<open>run\<close> has returned the health checker is stopped and joined; exit code 0.\<close>

definition router_exit :: "router_up \<Rightarrow> router_up \<times> int" where
  "router_exit u = (u\<lparr>ru_checker := hc_stop (ru_checker u)\<rparr>, 0)"

section \<open>Facts\<close>

lemma start_without_files:
  "server_start clk1 clk2 [] empty_disk = Inr (6380, INFO, boot clk1 clk2 0 default_PersistenceConfig empty_disk)"
  by (simp add: server_start_def server_Args_def config_loadFromFile_def read_file_def empty_disk_def new_Config_def
      effective_port_def effective_maxKeys_def getInt_def getString_def getBool_def persistConfig_def
      default_PersistenceConfig_def parseLogLevel_def Let_def)

text \<open>A freshly parsed topology serves every shard from its primary, and nothing has been failed over.\<close>

lemma parsed_shard: "findShard (parseShards c) i = Some s \<Longrightarrow> s = parseShard c i"
  by (auto simp: findShard_def parseShards_def parseShard_def Let_def find_Some_iff)

lemma parsed_topology_serves_primaries:
  "activeAddressFor (parseShards c) i = primaryAddress (parseShards c) i \<and> \<not> alreadyFailedOver (parseShards c) i"
  by (cases "findShard (parseShards c) i")
    (auto simp: activeAddressFor_def primaryAddress_def alreadyFailedOver_def parseShard_def new_ShardNode_def Let_def
      dest!: parsed_shard)

lemma router_start_shards: "router_start argv d = Inr u \<Longrightarrow> shardIds (rs_topology u) \<noteq> [] \<and> rs_router u = new_Router (rs_topology u)"
  by (auto simp: router_start_def Let_def split: sum.splits prod.splits if_splits)

lemma server_main_start:
  "server_main clk1 clk2 calls now argv d = Inr u \<Longrightarrow>
    \<exists>port. server_start clk1 clk2 argv d = Inr (port, su_level u, su_node u) \<and>
      srv_port (ls_server (su_listener u)) = port \<and> srv_running (ls_server (su_listener u)) \<and>
      lc_reachable (lc_config (su_persistence u)) 2 (su_persistence u)"
proof -
  assume m: "server_main clk1 clk2 calls now argv d = Inr u"
  have r: "lc_reachable c 2 (manager_start (new_lifecycle c 2))" for c
    by (rule lr_start [OF lr_init]) (simp_all add: new_lifecycle_def)
  have p: "tcp_start calls (new_TcpServer port) = (s, True) \<Longrightarrow> srv_port s = port \<and> srv_running s" for port s
    by (auto simp: tcp_start_def new_TcpServer_def close_listen_def Let_def split: if_splits)
  from m r p show ?thesis
    by (auto simp: server_main_def server_start_def Let_def enter_run_def manager_start_def new_lifecycle_def
        split: sum.splits prod.splits if_splits)
qed

lemma stop_replication_background: "background t (stop_replication s) = stop_replication (background t s)"
  by (simp add: background_def stop_replication_def split: option.split prod.split)

lemma stop_replication_tasks: "fold background ts (stop_replication s) = stop_replication (fold background ts s)"
  by (induction ts arbitrary: s) (simp_all add: stop_replication_background)

lemma server_exit_disk: "server_exit ts s = node_disk (svr_node (background FlushTask (run_events (map Background ts) s)))"
proof -
  have "fold run_event (map Background ts) s = fold background ts s" by (induction ts arbitrary: s) simp_all
  then show ?thesis
    by (simp add: server_exit_def stop_replication_tasks stop_replication_background run_events_def) (simp add: stop_replication_def)
qed

lemma background_keeps: "live (background t s) = live s" "svr_config (background t s) = svr_config s"
  by (cases t; simp add: live_def svr_config_def background_def run_bg_task_def PersistenceManager_save_def Let_def
      split: option.split prod.split)+

lemma tasks_keep: "live (run_events (map Background ts) s) = live s" "svr_config (run_events (map Background ts) s) = svr_config s"
  by (induction ts arbitrary: s) (simp_all add: run_events_def background_keeps)

section \<open>Properties\<close>



text \<open>
  A signal can be lost while the router starts. \<^verbatim>\<open>router_main.cpp\<close> installs its handlers before it
  calls \<^verbatim>\<open>start\<close>; a shutdown signal handled in between stops a server that is not running yet, and
  starting then sets the flag again: the program comes up exactly as if there had been no signal.
\<close>

theorem signal_before_start_is_lost:
  "map_option (tcp_start calls) (handleShutdownSignal (Some (new_TcpServer port))) = Some (tcp_start calls (new_TcpServer port))"
  by (simp add: handleShutdownSignal_def tcp_stop_def new_TcpServer_def tcp_start_def)

end
