(* ===== verification/Executor_Theorems.thy ===== *)
theory Executor_Theorems
  imports Command_Executor
begin

text \<open>
  What the command executor promises, as theorems over whole commands: refinement of the
  map specification, errors without effect, replies of one line, and the countdown of
  deadlines, with the two places where deadlines go wrong (an expire time that overflows the
  clock's 64-bit nanoseconds, and a deadline that outlives the evicted key it belonged to).
\<close>

definition mk_command :: "string \<Rightarrow> string list \<Rightarrow> Command" where
  "mk_command name args = \<lparr>cmd_type = commandTypeFromName name, cmd_name = name, cmd_args = args\<rparr>"

lemma mk_command_simps [simp]:
  "cmd_type (mk_command n as) = commandTypeFromName n" "cmd_name (mk_command n as) = n"
  "cmd_args (mk_command n as) = as"
  by (simp_all add: mk_command_def)

text \<open>An empty disk on which every file can be opened.\<close>

definition blank_disk :: disk where
  "blank_disk = \<lparr>files = Mapping.empty, can_open = \<lambda>p. True\<rparr>"

section \<open>Properties\<close>



text \<open>
  C26: a command answered with an error reply has changed neither the data nor any deadline, any
  role, any file or the log; only the command counter moved. This holds for every command and
  every capacity.
\<close>

theorem error_reply_means_no_effect:
  assumes "is_error_reply (snd (execute now cmd n))"
  shows "fst (execute now cmd n) = n\<lparr>totalCommands := totalCommands n + 1\<rparr>"
  using assms by (rule execute_error_no_effect)

theorem error_reply_means_no_effect_witness:
  "fst (execute 0 (mk_command ''SET'' [''k'', ''v'', ''EX'', ''0'']) (new_node 0 blank_disk)) =
    (new_node 0 blank_disk)\<lparr>totalCommands := totalCommands (new_node 0 blank_disk) + 1\<rparr>"
proof (rule error_reply_means_no_effect)
  have "parsePositiveSeconds ''0'' = None" and "equalsIgnoreCase ''EX'' ''EX''" by code_simp+
  then show "is_error_reply (snd (execute 0 (mk_command ''SET'' [''k'', ''v'', ''EX'', ''0'']) (new_node 0 blank_disk)))"
    by (simp add: execute_def Let_def text_simps exec_SET_def)
qed



text \<open>
  C40: after \<^verbatim>\<open>SET k v EX s\<close> at time \<open>now\<close>, a \<^verbatim>\<open>TTL k\<close> at any later time \<open>t\<close> answers the
  whole seconds left of the \<open>s\<close> seconds, and 0 from the deadline on (until the sweeper removes
  the key), provided the deadline is within the range of the clock.
\<close>

theorem ttl_counts_down:
  assumes "node_inv n" and "kv_capacity (store n) = 0" and "0 \<le> now" and "now \<le> t"
    and "parsePositiveSeconds secs = Some s" and "now + s * nanosPerSecond \<le> 9223372036854775807"
    and "t \<le> 9223372036854775807"
  shows "snd (execute t (mk_command ''TTL'' [k])
      (fst (execute now (mk_command ''SET'' [k, v, ''EX'', secs]) n))) =
    Reply_integer (max 0 ((now + s * nanosPerSecond - t) div nanosPerSecond))"
proof -
  let ?set = "mk_command ''SET'' [k, v, ''EX'', secs]" and ?ttl = "mk_command ''TTL'' [k]"
  let ?n1 = "fst (execute now ?set n)" and ?e = "now + s * nanosPerSecond"
  have ex: "equalsIgnoreCase ''EX'' ''EX''" by code_simp
  have s: "0 < s" using assms(5)
    by (auto simp: parsePositiveSeconds_def split: if_splits sum.splits)
  have d: "deadline_after now s = ?e"
    using assms(3,6) s by (intro deadline_after_exact) (simp_all add: nanosPerSecond_def)
  have i: "store_inv (store n)" using assms(1) by (simp add: node_inv_def)
  obtain m x where abs: "node_abs n = (m, x)" by (cases "node_abs n")
  have a: "node_abs ?n1 = (m(k \<mapsto> v), x(k \<mapsto> ?e))"
    using execute_data_refines [OF i assms(2), of ?set now]
    by (simp add: refines_def text_simps abs assms(5) ex d)
  have j: "store_inv (store ?n1)" "kv_capacity (store ?n1) = 0"
    using execute_node_inv [OF assms(1)] execute_capacity assms(2) by (simp_all add: node_inv_def)
  have "snd (execute t ?ttl ?n1) = Reply_integer (max 0 (seconds_left t ?e))"
    using execute_data_refines [OF j, of ?ttl t] by (simp add: refines_def text_simps a)
  moreover have "max 0 (seconds_left t ?e) = max 0 ((?e - t) div nanosPerSecond)"
  proof (cases "t \<le> ?e")
    case True
    then show ?thesis using assms(3,4,6) s by (subst seconds_left_exact) (simp_all add: nanosPerSecond_def)
  next
    case False
    then have "seconds_left t ?e \<le> 0"
      using assms(3,4,7) s by (intro seconds_left_past) (simp_all add: nanosPerSecond_def)
    moreover have "(?e - t) div nanosPerSecond < 0"
      using False by (simp add: nanosPerSecond_def div_neg_pos_less0)
    ultimately show ?thesis by simp
  qed
  ultimately show ?thesis by simp
qed

theorem ttl_counts_down_witness:
  "snd (execute 1500000000 (mk_command ''TTL'' [''k''])
     (fst (execute 1000000000 (mk_command ''SET'' [''k'', ''v'', ''EX'', ''10'']) (new_node 0 blank_disk)))) =
    Reply_integer 9"
proof -
  have p: "parsePositiveSeconds ''10'' = Some 10" by code_simp
  have z: "kv_capacity (store (new_node 0 blank_disk)) = 0" by (simp add: new_node_def)
  show ?thesis
    using ttl_counts_down [OF node_inv_new z, of 1000000000 1500000000 "''10''" 10 "''k''" "''v''"] p
    by (simp add: nanosPerSecond_def)
qed

text \<open>
  The range condition is needed. \<^verbatim>\<open>SET k v EX 9223372037\<close> at time 0 is accepted with
  \<^verbatim>\<open>+OK\<close>, but the number of nanoseconds overflows 64 bits: the stored deadline lies in the
  past and \<^verbatim>\<open>TTL k\<close> answers 0 at once, so the sweeper is free to delete the key immediately.
\<close>

theorem huge_expire_time_is_in_the_past:
  "snd (execute 0 (mk_command ''SET'' [k, v, ''EX'', ''9223372037'']) (new_node 0 d)) = Reply_ok \<and>
   (let n = fst (execute 0 (mk_command ''SET'' [k, v, ''EX'', ''9223372037'']) (new_node 0 d))
    in (\<exists>e. expiryOf (expiry n) k = Some e \<and> e < 0) \<and>
       snd (execute 0 (mk_command ''TTL'' [k]) n) = Reply_integer 0)"
proof -
  let ?set = "mk_command ''SET'' [k, v, ''EX'', ''9223372037'']" and ?n = "new_node 0 d"
  let ?n1 = "fst (execute 0 ?set ?n)"
  have ex: "equalsIgnoreCase ''EX'' ''EX''" by code_simp
  have all: "list_all isdigit ''9223372037''" by (simp add: isdigit_def char_code_def)
  have "read_int ''9223372037'' = Some 9223372037"
    using read_int_digits [of "''9223372037''"] all
    by (simp add: list_all_iff dec_value_def digit_val_def char_code_def)
  then have p: "parsePositiveSeconds ''9223372037'' = Some 9223372037"
    using all by (simp add: parsePositiveSeconds_def stoll_def)
  have d: "deadline_after 0 9223372037 = - 9223372036709551616"
    by (simp add: deadline_after_def nanosPerSecond_def wrap64_def wrap_signed_def)
  have l: "seconds_left 0 (- 9223372036709551616) \<le> 0"
    by (rule seconds_left_past) simp_all
  have z: "store_inv (store ?n)" "kv_capacity (store ?n) = 0" by (simp_all add: new_node_def store_inv_new)
  obtain m x where abs: "node_abs ?n = (m, x)" by (cases "node_abs ?n")
  have a: "node_abs ?n1 = (m(k \<mapsto> v), x(k \<mapsto> - 9223372036709551616)) \<and> snd (execute 0 ?set ?n) = Reply_ok"
    using execute_data_refines [OF z, of ?set 0] by (simp add: refines_def text_simps abs p ex d)
  have j: "store_inv (store ?n1)" "kv_capacity (store ?n1) = 0"
    using execute_node_inv [OF node_inv_new] execute_capacity z(2) by (simp_all add: node_inv_def)
  have "snd (execute 0 (mk_command ''TTL'' [k]) ?n1) = Reply_integer 0"
    using execute_data_refines [OF j, of "mk_command ''TTL'' [k]" 0] a l
    by (simp add: refines_def text_simps max_def)
  moreover have "expiryOf (expiry ?n1) k = Some (- 9223372036709551616)"
    using a by (auto simp: node_abs_def)
  ultimately show ?thesis using a by (simp add: Let_def)
qed

text \<open>
  Eviction forgets the key but not its deadline. When a key that was evicted from a bounded
  store is created anew by \<^verbatim>\<open>INCR\<close>, it inherits the deadline of its former life.
\<close>

theorem evicted_key_keeps_deadline:
  assumes "node_inv n" and "contents (store n) k = None" and "expiryOf (expiry n) k = Some e"
  shows "contents (store (fst (execute now (mk_command ''INCR'' [k]) n))) k = Some ''1'' \<and>
    expiryOf (expiry (fst (execute now (mk_command ''INCR'' [k]) n))) k = Some e"
proof -
  have i: "store_inv (store n)" using assms(1) by (simp add: node_inv_def)
  have w: "wrap64 1 = 1" and t: "to_string 1 = ''1''" by code_simp+
  have "incrementBy (store n) k 1 = Inr (setLocked (store n) k ''1'', 1)"
    using incrementBy_eq [OF i, of k 1] by (simp add: assms(2) w t)
  then show ?thesis
    using contents_set_same [OF i] assms(3)
    by (simp add: execute_def Let_def text_simps incrementReply_def)
qed

theorem evicted_key_keeps_deadline_witness:
  "let n1 = fst (execute 0 (mk_command ''SET'' [''a'', ''7'', ''EX'', ''100'']) (new_node 1 blank_disk));
       n2 = fst (execute 0 (mk_command ''SET'' [''b'', ''8'']) n1);
       n3 = fst (execute 0 (mk_command ''INCR'' [''a'']) n2)
   in contents (store n2) ''a'' = None \<and> contents (store n3) ''a'' = Some ''1'' \<and>
      expiryOf (expiry n3) ''a'' = Some 100000000000"
proof -
  let ?n1 = "fst (execute 0 (mk_command ''SET'' [''a'', ''7'', ''EX'', ''100'']) (new_node 1 blank_disk))"
  let ?n2 = "fst (execute 0 (mk_command ''SET'' [''b'', ''8'']) ?n1)"
  have p: "parsePositiveSeconds ''100'' = Some 100" and ex: "equalsIgnoreCase ''EX'' ''EX''" by code_simp+
  have d: "deadline_after 0 100 = 100000000000"
    by (simp add: deadline_after_def nanosPerSecond_def wrap64_exact)
  have s1: "store ?n1 = kv_set (new_KVStore 1) ''a'' ''7''"
    and e1: "expiry ?n1 = schedule new_ExpiryManager ''a'' 100000000000"
    by (simp_all add: execute_def Let_def text_simps exec_SET_def p ex d new_node_def)
  have s2: "store ?n2 = kv_set (store ?n1) ''b'' ''8''" and e2: "expiry ?n2 = cancel (expiry ?n1) ''b''"
    by (simp_all add: execute_def [of 0 "mk_command ''SET'' [''b'', ''8'']"] Let_def text_simps exec_SET_def)
  have i2: "node_inv ?n2" by (intro execute_node_inv node_inv_new)
  have "entries (store ?n2) = [(''b'', ''8'')]"
    unfolding s2 s1 by (simp add: kv_set_def entries_setLocked store_inv_set store_inv_new entries_new lru_put_def)
  then have c: "contents (store ?n2) ''a'' = None" by (simp add: contents_def)
  have e: "expiryOf (expiry ?n2) ''a'' = Some 100000000000" unfolding e2 e1 by (simp add: expiry_simps)
  show ?thesis
    unfolding Let_def using c evicted_key_keeps_deadline [OF i2 c e, of 0] by blast
qed

end
