(* ===== verification/Server_Connection.thy ===== *)
theory Server_Connection
  imports Server
begin

text \<open>
  A whole client connection. The loop of the server's connection handler, over a socket that
  delivers a sequence of lines in arbitrary chunks, does what handling the lines one after the
  other does; the lemmas say that handling a line neither looks at nor changes what the sockets
  have still to deliver.
\<close>

section \<open>Handling a line does not depend on pending input\<close>

lemma writeLine_rx: "writeLine (k\<lparr>sk_rx := cs\<rparr>) l = ((fst (writeLine k l))\<lparr>sk_rx := cs\<rparr>, snd (writeLine k l))"
  by (simp add: writeLine_def writeRaw_def split: prod.splits)

lemma propagate_rx:
  "registry_propagate r line (socks(fd := (socks fd)\<lparr>sk_rx := cs\<rparr>)) =
    (registry_propagate r line socks)(fd := (registry_propagate r line socks fd)\<lparr>sk_rx := cs\<rparr>)"
proof -
  let ?w = "\<lambda>f socks. socks(f := fst (writeLine (socks f) line))"
  have step: "?w f (socks(fd := (socks fd)\<lparr>sk_rx := cs\<rparr>)) = (?w f socks)(fd := (?w f socks fd)\<lparr>sk_rx := cs\<rparr>)" for f socks
    by (auto simp: fun_eq_iff writeLine_rx)
  have "fold ?w fds (socks(fd := (socks fd)\<lparr>sk_rx := cs\<rparr>)) =
      (fold ?w fds socks)(fd := (fold ?w fds socks fd)\<lparr>sk_rx := cs\<rparr>)" for fds
  proof (induction fds arbitrary: socks)
    case (Cons f fds)
    show ?case using Cons.IH [of "?w f socks"] by (simp only: fold.simps comp_apply step)
  qed simp
  then show ?thesis by (simp add: registry_propagate_def)
qed

lemma record_rx:
  "recordAndPropagateIfWrite cmd line r (set_rx fd cs s) = set_rx fd cs (recordAndPropagateIfWrite cmd line r s)"
  by (simp add: recordAndPropagateIfWrite_def set_rx_def Let_def svr_registry_def propagate_rx)

lemma reply_rx:
  "reply_with fd' r (set_rx fd cs s) = (set_rx fd cs (fst (reply_with fd' r s)), snd (reply_with fd' r s))"
  by (auto simp: reply_with_def write_reply_def set_rx_def writeLine_rx fun_eq_iff split: prod.splits)

lemma execute_on_rx:
  "execute_on now cmd (set_rx fd cs s) = (set_rx fd cs (fst (execute_on now cmd s)), snd (execute_on now cmd s))"
  by (simp add: execute_on_def set_rx_def split: prod.splits)

lemma handle_line_rx:
  "handle_line now fd' line (set_rx fd cs s) =
    (set_rx fd cs (fst (handle_line now fd' line s)), snd (handle_line now fd' line s))"
proof -
  have "svr_role (set_rx fd cs s) = svr_role s" by (simp add: svr_role_def set_rx_def)
  then show ?thesis
    by (simp add: handle_line_def execute_on_rx record_rx reply_rx split_beta
        split: sum.split ProtocolError.split)
qed

section \<open>Handling lines one after the other\<close>

fun serve_lines :: "(nat \<Rightarrow> nanos) \<Rightarrow> nat \<Rightarrow> fd \<Rightarrow> wire_line list \<Rightarrow> server \<Rightarrow> server" where
  "serve_lines clk i fd [] s = s"
| "serve_lines clk i fd (l # ls) s = serve_lines clk (Suc i) fd ls (fst (handle_line (clk i) fd l s))"

text \<open>Every reply is written, and no line turns the connection into a replica stream.\<close>

fun all_served :: "(nat \<Rightarrow> nanos) \<Rightarrow> nat \<Rightarrow> fd \<Rightarrow> wire_line list \<Rightarrow> server \<Rightarrow> bool" where
  "all_served clk i fd [] s \<longleftrightarrow> True"
| "all_served clk i fd (l # ls) s \<longleftrightarrow> snd (handle_line (clk i) fd l s) = NextLine \<and>
     all_served clk (Suc i) fd ls (fst (handle_line (clk i) fd l s))"

lemma serve_lines_rx: "serve_lines clk i fd' ls (set_rx fd cs s) = set_rx fd cs (serve_lines clk i fd' ls s)"
  by (induction ls arbitrary: i s) (simp_all add: handle_line_rx)

lemma all_served_rx: "all_served clk i fd' ls (set_rx fd cs s) = all_served clk i fd' ls s"
  by (induction ls arbitrary: i s) (simp_all add: handle_line_rx)

lemma set_rx_set_rx [simp]: "set_rx fd a (set_rx fd b s) = set_rx fd a s"
  by (simp add: set_rx_def)

lemma connection_lines:
  assumes "\<forall>c \<in> set chunks. c \<noteq> []" and "buffer @ concat chunks = unlines ls"
    and "\<forall>l \<in> set ls. LF \<notin> set l \<and> length l \<le> reader_limit" and "all_served clk i fd (map strip_cr ls) s"
  shows "handleConnection clk i fd buffer (set_rx fd chunks s) = set_rx fd [] (serve_lines clk i fd (map strip_cr ls) s)"
  using assms
proof (induction ls arbitrary: buffer chunks i s)
  case Nil
  then have "buffer = []" and "chunks = []" by (cases chunks; auto)+
  then show ?case by (simp add: handleConnection.simps readLine.simps set_rx_def)
next
  case (Cons l ls)
  let ?l = "strip_cr l" and ?s = "fst (handle_line (clk i) fd (strip_cr l) s)"
  have "buffer @ concat chunks = l @ LF # unlines ls" using Cons.prems(2) by simp
  from readLine_found [OF Cons.prems(1) this] Cons.prems(3) obtain b cs where
    r: "readLine buffer chunks = (Some ?l, b, cs)" "b @ concat cs = unlines ls" "\<forall>c \<in> set cs. c \<noteq> []"
    by auto
  have rx: "sk_rx (svr_socks (set_rx fd chunks s) fd) = chunks" by (simp add: set_rx_def)
  have h: "snd (handle_line (clk i) fd ?l s) = NextLine" and a: "all_served clk (Suc i) fd (map strip_cr ls) ?s"
    using Cons.prems(4) by simp_all
  have "handleConnection clk i fd buffer (set_rx fd chunks s) = handleConnection clk (Suc i) fd b (set_rx fd cs ?s)"
    by (subst handleConnection.simps) (simp add: rx r(1) handle_line_rx h)
  also have "\<dots> = set_rx fd [] (serve_lines clk (Suc i) fd (map strip_cr ls) ?s)"
    using Cons.IH [OF r(3,2) _ a] Cons.prems(3) by simp
  finally show ?case by simp
qed

section \<open>Properties\<close>

text \<open>
  C9: a connection serves every line it receives, in order and once. However the bytes of a
  sequence of request lines are cut into chunks, and as long as replies can be written and nobody
  asks for a replica stream, the state after the connection (data, log, sockets) is that of
  handling the lines one after the other.
\<close>

theorem connection_serves_every_line:
  assumes "\<forall>c \<in> set (sk_rx (svr_socks s fd)). c \<noteq> []" and "concat (sk_rx (svr_socks s fd)) = unlines ls"
    and "\<forall>l \<in> set ls. LF \<notin> set l \<and> length l \<le> reader_limit" and "all_served clk 0 fd (map strip_cr ls) s"
  shows "handleConnection clk 0 fd [] s = set_rx fd [] (serve_lines clk 0 fd (map strip_cr ls) s)"
proof -
  have "set_rx fd (sk_rx (svr_socks s fd)) s = s" by (simp add: set_rx_def)
  with connection_lines [of "sk_rx (svr_socks s fd)" "[]" ls clk 0 fd s] assms show ?thesis by simp
qed

theorem connection_serves_every_line_witness:
  "let s = \<lparr>svr_node = new_node 0 \<lparr>files = Mapping.empty, can_open = \<lambda>p. True\<rparr>,
             svr_socks = \<lambda>fd. \<lparr>sk_rx = [''PI'', [CHR ''N'', CHR ''G'', LF]], sk_tx = [100], sk_out = []\<rparr>\<rparr>
   in sk_out (svr_socks (handleConnection (\<lambda>i. 0) 0 5 [] s) 5) = ''+OK'' @ [LF]"
proof -
  let ?s = "\<lparr>svr_node = new_node 0 \<lparr>files = Mapping.empty, can_open = \<lambda>p. True\<rparr>,
             svr_socks = \<lambda>fd. \<lparr>sk_rx = [''PI'', [CHR ''N'', CHR ''G'', LF]], sk_tx = [100], sk_out = []\<rparr>\<rparr>"
  have p: "parse ''PING'' = Inr \<lparr>cmd_type = PING, cmd_name = ''PING'', cmd_args = []\<rparr>" by code_simp
  have h: "snd (handle_line 0 5 ''PING'' ?s) = NextLine"
    "sk_out (svr_socks (fst (handle_line 0 5 ''PING'' ?s)) 5) = ''+OK'' @ [LF]"
    by (simp_all add: handle_line_def p execute_on_def execute_def Let_def recordAndPropagateIfWrite_def
        reply_with_def write_reply_def writeLine_def writeRaw_def Reply_ok_def)
  have "handleConnection (\<lambda>i. 0) 0 5 [] ?s = set_rx 5 [] (serve_lines (\<lambda>i. 0) 0 5 (map strip_cr [''PING'']) ?s)"
    by (rule connection_serves_every_line) (simp_all add: reader_limit_def strip_cr_def h)
  with h(2) show ?thesis unfolding Let_def by (simp add: strip_cr_def set_rx_def)
qed

end
