(* ===== verification/Router_Connection.thy ===== *)
theory Router_Connection
  imports Router
begin

text \<open>
  A whole client connection of the router: the loop of \<^verbatim>\<open>Router::handleConnection\<close> over a socket that
  delivers request lines in arbitrary chunks answers them in order, and what the client receives is
  cut short only by a reply that could not be written.
\<close>

section \<open>Answering lines one after the other\<close>

fun router_replies ::
  "(nat \<Rightarrow> network) \<Rightarrow> (nat \<Rightarrow> ShardTopology) \<Rightarrow> nat \<Rightarrow> wire_line list \<Rightarrow> Router \<Rightarrow> Router \<times> wire_line list" where
  "router_replies nets ts n [] r = (r, [])"
| "router_replies nets ts n (l # ls) r =
     (case router_answer (nets n) (ts n) l r of
        (r1, reply) \<Rightarrow> (case router_replies nets ts (Suc n) ls r1 of
          (r2, replies) \<Rightarrow> (r2, (case reply of None \<Rightarrow> [] | Some x \<Rightarrow> [x]) @ replies)))"

text \<open>
  What a client may have received when replies were written after \<open>sent\<close>: all of them, or, if the
  last one could not be written, the others and a part of it.
\<close>

definition received :: "bool \<Rightarrow> string \<Rightarrow> wire_line list \<Rightarrow> string \<Rightarrow> bool" where
  "received whole sent replies out \<longleftrightarrow>
     whole \<and> out = sent @ unlines replies \<or>
     replies \<noteq> [] \<and> (\<exists>j. out = sent @ unlines (butlast replies) @ take j (last replies @ [LF]))"

definition answered ::
  "(nat \<Rightarrow> network) \<Rightarrow> (nat \<Rightarrow> ShardTopology) \<Rightarrow> nat \<Rightarrow> wire_line list \<Rightarrow> Router \<Rightarrow> sock \<Rightarrow> Router \<times> sock \<Rightarrow> bool" where
  "answered nets ts n ls r k res \<longleftrightarrow> (\<exists>m \<le> length ls.
     fst res = fst (router_replies nets ts n (take m ls) r) \<and>
     received (m = length ls) (sk_out k) (snd (router_replies nets ts n (take m ls) r)) (sk_out (snd res)))"

lemma received_Cons: "received w (sent @ x @ [LF]) replies out \<Longrightarrow> received w sent (x # replies) out"
  by (auto simp: received_def unlines_def)

lemma router_replies_Cons:
  "router_answer (nets n) (ts n) l r = (r1, reply) \<Longrightarrow>
    fst (router_replies nets ts n (l # ls) r) = fst (router_replies nets ts (Suc n) ls r1) \<and>
    snd (router_replies nets ts n (l # ls) r) =
      (case reply of None \<Rightarrow> [] | Some x \<Rightarrow> [x]) @ snd (router_replies nets ts (Suc n) ls r1)"
  by (simp add: split_beta)

lemma answered_silent:
  assumes "router_answer (nets n) (ts n) l r = (r1, None)" and "answered nets ts (Suc n) ls r1 k res"
  shows "answered nets ts n (l # ls) r k res"
proof -
  obtain m where m: "m \<le> length ls" "fst res = fst (router_replies nets ts (Suc n) (take m ls) r1)"
     "received (m = length ls) (sk_out k) (snd (router_replies nets ts (Suc n) (take m ls) r1)) (sk_out (snd res))"
    using assms(2) unfolding answered_def by blast
  then show ?thesis
    unfolding answered_def using router_replies_Cons [where nets = nets and ts = ts and n = n, OF assms(1), of "take m ls"]
    by (intro exI [of _ "Suc m"]) (simp del: router_replies.simps)
qed

lemma answered_written:
  assumes "router_answer (nets n) (ts n) l r = (r1, Some reply)" and "writeLine k reply = (k1, True)"
    and "answered nets ts (Suc n) ls r1 k1 res"
  shows "answered nets ts n (l # ls) r k res"
proof -
  have k1: "sk_out k1 = sk_out k @ reply @ [LF]" using writeLine_result [OF assms(2)] by simp
  obtain m where m: "m \<le> length ls" "fst res = fst (router_replies nets ts (Suc n) (take m ls) r1)"
     "received (m = length ls) (sk_out k1) (snd (router_replies nets ts (Suc n) (take m ls) r1)) (sk_out (snd res))"
    using assms(3) unfolding answered_def by blast
  from received_Cons [OF m(3) [unfolded k1]] m(1,2) show ?thesis
    unfolding answered_def using router_replies_Cons [where nets = nets and ts = ts and n = n, OF assms(1), of "take m ls"]
    by (intro exI [of _ "Suc m"]) (simp del: router_replies.simps)
qed

lemma answered_cut:
  assumes "router_answer (nets n) (ts n) l r = (r1, Some reply)" and "writeLine k reply = (k1, False)"
  shows "answered nets ts n (l # ls) r k (r1, k1)"
proof -
  obtain j where "sk_out k1 = sk_out k @ take j (reply @ [LF])" using writeLine_result [OF assms(2)] by auto
  then have "received (1 = length (l # ls)) (sk_out k) [reply] (sk_out k1)" by (auto simp: received_def unlines_def)
  then show ?thesis
    unfolding answered_def using router_replies_Cons [where nets = nets and ts = ts and n = n, OF assms(1), of "[]"]
    by (intro exI [of _ 1]) (simp del: router_replies.simps(2))
qed

lemma answered_rx: "answered nets ts n ls r (k\<lparr>sk_rx := cs\<rparr>) res = answered nets ts n ls r k res"
  by (simp add: answered_def)

lemma router_connection_lines:
  assumes "\<forall>c \<in> set (sk_rx k). c \<noteq> []" and "buffer @ concat (sk_rx k) = unlines ls"
    and "\<forall>l \<in> set ls. LF \<notin> set l \<and> length l \<le> reader_limit"
  shows "answered nets ts n (map strip_cr ls) r k (router_handleConnection nets ts n buffer k r)"
  using assms
proof (induction ls arbitrary: buffer k n r)
  case Nil
  then have "buffer = []" and "sk_rx k = []" by (cases "sk_rx k"; auto)+
  then show ?case by (simp add: router_handleConnection.simps readLine.simps answered_def received_def unlines_def)
next
  case (Cons l ls)
  have "buffer @ concat (sk_rx k) = l @ LF # unlines ls" using Cons.prems(2) by simp
  from readLine_found [OF Cons.prems(1) this] Cons.prems(3) obtain b cs where
    rl: "readLine buffer (sk_rx k) = (Some (strip_cr l), b, cs)" and b: "b @ concat cs = unlines ls" and ne: "\<forall>c \<in> set cs. c \<noteq> []"
    by auto
  let ?k = "k\<lparr>sk_rx := cs\<rparr>"
  obtain r1 reply where a: "router_answer (nets n) (ts n) (strip_cr l) r = (r1, reply)" by fastforce
  have lines: "\<forall>l \<in> set ls. LF \<notin> set l \<and> length l \<le> reader_limit" using Cons.prems(3) by simp
  show ?case
  proof (cases reply)
    case None
    have "router_handleConnection nets ts n buffer k r = router_handleConnection nets ts (Suc n) b ?k r1"
      by (subst router_handleConnection.simps) (simp add: rl a None)
    moreover have "answered nets ts (Suc n) (map strip_cr ls) r1 k (router_handleConnection nets ts (Suc n) b ?k r1)"
      using Cons.IH [of ?k b "Suc n" r1] ne b lines by (simp add: answered_rx)
    ultimately show ?thesis
      using answered_silent [of nets n ts "strip_cr l" r r1 "map strip_cr ls"] a None by simp
  next
    case (Some x)
    obtain k1 ok where w: "writeLine ?k x = (k1, ok)" by fastforce
    have rx: "sk_rx k1 = cs" using writeLine_result [OF w] by simp
    have h: "router_handleConnection nets ts n buffer k r = (if ok then router_handleConnection nets ts (Suc n) b k1 r1 else (r1, k1))"
      by (subst router_handleConnection.simps) (simp add: rl a Some w)
    have "answered nets ts n (strip_cr l # map strip_cr ls) r ?k (router_handleConnection nets ts n buffer k r)"
    proof (cases ok)
      case True
      have "answered nets ts (Suc n) (map strip_cr ls) r1 k1 (router_handleConnection nets ts (Suc n) b k1 r1)"
        using Cons.IH [of k1 b "Suc n" r1] rx ne b lines by simp
      with answered_written [of nets n ts "strip_cr l" r r1 x ?k k1 "map strip_cr ls"] a Some w True h show ?thesis by simp
    next
      case False
      with answered_cut [of nets n ts "strip_cr l" r r1 x ?k k1 "map strip_cr ls"] a Some w h show ?thesis by simp
    qed
    then show ?thesis by (simp add: answered_rx)
  qed
qed

section \<open>Properties\<close>



end
