(* ===== verification/Command_Accesses.thy ===== *)
theory Command_Accesses
  imports Executor_Theorems
begin

text \<open>
  One command, access by access. Store and expiry manager each have a mutex of their own, and
  \<^verbatim>\<open>CommandExecutor::execute\<close> holds neither from one access to the next: a \<^verbatim>\<open>SET\<close> writes the
  store, then cancels or schedules a deadline. A command under way is its first access with what
  remains of it. The lemmas show that the accesses run one after the other are \<open>execute\<close>, and that
  each of them sees and changes one cell: the value and the deadline of the key.
\<close>

section \<open>Accesses\<close>

datatype residue =
    Done string
  | ThenCancel key string
  | ThenSchedule key int string
  | ThenTTL key
  | ThenHad key
  | ThenPersist key bool

definition begin_SET :: "Command \<Rightarrow> node \<Rightarrow> node \<times> residue" where
  "begin_SET cmd n =
     (case cmd_args cmd of
        [k, v] \<Rightarrow> (n\<lparr>store := kv_set (store n) k v\<rparr>, ThenCancel k Reply_ok)
      | [k, v, opt, secs] \<Rightarrow>
          if equalsIgnoreCase opt ''EX''
          then case parsePositiveSeconds secs of
                 None \<Rightarrow> (n, Done (Reply_error (''invalid expire time in '' @ [CHR 0x27] @ ''SET'' @ [CHR 0x27] @ '' command'')))
               | Some seconds \<Rightarrow> (n\<lparr>store := kv_set (store n) k v\<rparr>, ThenSchedule k seconds Reply_ok)
          else (n, Done (arityError cmd))
      | _ \<Rightarrow> (n, Done (arityError cmd)))"

definition begin_DEL :: "Command \<Rightarrow> node \<Rightarrow> node \<times> residue" where
  "begin_DEL cmd n =
     (case cmd_args cmd of
        [k] \<Rightarrow> (case kv_del (store n) k of
                  (s', existed) \<Rightarrow> (n\<lparr>store := s'\<rparr>, ThenCancel k (Reply_integer (if existed then 1 else 0))))
      | _ \<Rightarrow> (n, Done (arityError cmd)))"

definition begin_TTL :: "Command \<Rightarrow> node \<Rightarrow> node \<times> residue" where
  "begin_TTL cmd n =
     (case cmd_args cmd of
        [k] \<Rightarrow> (n, if \<not> kv_exists (store n) k then Done (Reply_integer (- 2)) else ThenTTL k)
      | _ \<Rightarrow> (n, Done (arityError cmd)))"

definition begin_EXPIRE :: "Command \<Rightarrow> node \<Rightarrow> node \<times> residue" where
  "begin_EXPIRE cmd n =
     (case cmd_args cmd of
        [k, secs] \<Rightarrow>
          (n, if \<not> kv_exists (store n) k then Done (Reply_integer 0)
              else case parsePositiveSeconds secs of
                     None \<Rightarrow> Done (Reply_error ''value is not an integer or out of range'')
                   | Some seconds \<Rightarrow> ThenSchedule k seconds (Reply_integer 1))
      | _ \<Rightarrow> (n, Done (arityError cmd)))"

definition begin_PERSIST :: "Command \<Rightarrow> node \<Rightarrow> node \<times> residue" where
  "begin_PERSIST cmd n =
     (case cmd_args cmd of
        [k] \<Rightarrow> (n, if \<not> kv_exists (store n) k then Done (Reply_integer 0) else ThenHad k)
      | _ \<Rightarrow> (n, Done (arityError cmd)))"

text \<open>The first access; every other command has only this one, and reads no clock.\<close>

definition begin_command :: "Command \<Rightarrow> node \<Rightarrow> node \<times> residue" where
  "begin_command cmd n0 =
     (let n = n0\<lparr>totalCommands := totalCommands n0 + 1\<rparr>
      in case cmd_type cmd of
           SET \<Rightarrow> begin_SET cmd n
         | DEL \<Rightarrow> begin_DEL cmd n
         | TTL \<Rightarrow> begin_TTL cmd n
         | EXPIRE \<Rightarrow> begin_EXPIRE cmd n
         | PERSIST \<Rightarrow> begin_PERSIST cmd n
         | _ \<Rightarrow> (case execute 0 cmd n0 of (n', r) \<Rightarrow> (n', Done r)))"

definition next_access :: "nanos \<Rightarrow> residue \<Rightarrow> node \<Rightarrow> node \<times> residue" where
  "next_access now res n =
     (case res of
        Done r \<Rightarrow> (n, Done r)
      | ThenCancel k r \<Rightarrow> (n\<lparr>expiry := cancel (expiry n) k\<rparr>, Done r)
      | ThenSchedule k seconds r \<Rightarrow> (n\<lparr>expiry := schedule (expiry n) k (deadline_after now seconds)\<rparr>, Done r)
      | ThenTTL k \<Rightarrow>
          (n, Done (case expiryOf (expiry n) k of
                 None \<Rightarrow> Reply_integer (- 1)
               | Some expiresAt \<Rightarrow>
                   let remaining = seconds_left now expiresAt in Reply_integer (if remaining > 0 then remaining else 0)))
      | ThenHad k \<Rightarrow> (n, ThenPersist k (expiryOf (expiry n) k \<noteq> None))
      | ThenPersist k hadExpiry \<Rightarrow> (n\<lparr>expiry := cancel (expiry n) k\<rparr>, Done (Reply_integer (if hadExpiry then 1 else 0))))"

lemmas begin_defs = begin_SET_def begin_DEL_def begin_TTL_def begin_EXPIRE_def begin_PERSIST_def

text \<open>No command has more than three accesses.\<close>

definition run_alone :: "nanos \<Rightarrow> Command \<Rightarrow> node \<Rightarrow> node \<times> residue" where
  "run_alone now cmd n =
     (case begin_command cmd n of (n1, res1) \<Rightarrow> (case next_access now res1 n1 of (n2, res2) \<Rightarrow> next_access now res2 n2))"

lemma execute_no_clock:
  "cmd_type cmd \<notin> {SET, TTL, EXPIRE} \<Longrightarrow> execute now cmd n = execute 0 cmd n"
  by (cases "cmd_type cmd") (simp_all add: execute_def)

lemma run_alone_execute: "run_alone now cmd n = (case execute now cmd n of (n', r) \<Rightarrow> (n', Done r))"
proof -
  have "cmd_type cmd \<in> {SET, DEL, TTL, EXPIRE, PERSIST} \<or>
      begin_command cmd n = (case execute 0 cmd n of (n', r) \<Rightarrow> (n', Done r)) \<and> execute now cmd n = execute 0 cmd n"
    using execute_no_clock [of cmd now n] by (cases "cmd_type cmd") (simp_all add: begin_command_def Let_def)
  then show ?thesis
  proof
    assume "cmd_type cmd \<in> {SET, DEL, TTL, EXPIRE, PERSIST}"
    then show ?thesis
      by (elim insertE emptyE)
        (simp_all add: run_alone_def begin_command_def begin_defs next_access_def execute_def exec_defs Let_def
          split: list.split option.split prod.split)
  next
    assume "begin_command cmd n = (case execute 0 cmd n of (n', r) \<Rightarrow> (n', Done r)) \<and> execute now cmd n = execute 0 cmd n"
    then show ?thesis by (simp add: run_alone_def next_access_def split: prod.split)
  qed
qed

section \<open>Cells\<close>

text \<open>What a command sees and changes of its key: the value and the deadline.\<close>

type_synonym cell = "val option \<times> nanos option"

definition node_cell :: "node \<Rightarrow> key \<Rightarrow> cell" where
  "node_cell n k = (contents (store n) k, expiryOf (expiry n) k)"

definition data_command :: "Command \<Rightarrow> bool" where
  "data_command cmd \<longleftrightarrow> cmd_type cmd \<in> {SET, GET, DEL, INCR, DECR, TTL, EXPIRE, PERSIST, PING}"

definition touches :: "(node \<times> residue) \<Rightarrow> key \<Rightarrow> node \<Rightarrow> (cell \<times> residue) \<Rightarrow> bool" where
  "touches q k n d \<longleftrightarrow> node_cell (fst q) = (node_cell n)(k := fst d) \<and> snd q = snd d"

definition cell_incr :: "int \<Rightarrow> cell \<Rightarrow> cell \<times> residue" where
  "cell_incr d c =
     (case (case fst c of None \<Rightarrow> Inr 0 | Some w \<Rightarrow> stoll w) of
        Inl e \<Rightarrow> (c, Done (Reply_error ''value is not an integer or out of range''))
      | Inr x \<Rightarrow> ((Some (to_string (wrap64 (x + d))), snd c), Done (Reply_integer (wrap64 (x + d)))))"

definition cell_begin :: "Command \<Rightarrow> cell \<Rightarrow> cell \<times> residue" where
  "cell_begin cmd c =
     (case (cmd_type cmd, cmd_args cmd) of
        (SET, [k, v]) \<Rightarrow> ((Some v, snd c), ThenCancel k Reply_ok)
      | (SET, [k, v, opt, secs]) \<Rightarrow>
          if equalsIgnoreCase opt ''EX''
          then case parsePositiveSeconds secs of
                 None \<Rightarrow> (c, Done (Reply_error (''invalid expire time in '' @ [CHR 0x27] @ ''SET'' @ [CHR 0x27] @ '' command'')))
               | Some seconds \<Rightarrow> ((Some v, snd c), ThenSchedule k seconds Reply_ok)
          else (c, Done (arityError cmd))
      | (GET, [k]) \<Rightarrow> (c, Done (case fst c of None \<Rightarrow> Reply_nil | Some v \<Rightarrow> Reply_bulk v))
      | (DEL, [k]) \<Rightarrow> ((None, snd c), ThenCancel k (Reply_integer (if fst c \<noteq> None then 1 else 0)))
      | (INCR, [k]) \<Rightarrow> cell_incr 1 c
      | (DECR, [k]) \<Rightarrow> cell_incr (- 1) c
      | (TTL, [k]) \<Rightarrow> (c, if fst c = None then Done (Reply_integer (- 2)) else ThenTTL k)
      | (EXPIRE, [k, secs]) \<Rightarrow>
          (c, if fst c = None then Done (Reply_integer 0)
              else case parsePositiveSeconds secs of
                     None \<Rightarrow> Done (Reply_error ''value is not an integer or out of range'')
                   | Some seconds \<Rightarrow> ThenSchedule k seconds (Reply_integer 1))
      | (PERSIST, [k]) \<Rightarrow> (c, if fst c = None then Done (Reply_integer 0) else ThenHad k)
      | (PING, []) \<Rightarrow> (c, Done Reply_ok)
      | _ \<Rightarrow> (c, Done (arityError cmd)))"

definition cell_next :: "nanos \<Rightarrow> residue \<Rightarrow> cell \<Rightarrow> cell \<times> residue" where
  "cell_next now res c =
     (case res of
        Done r \<Rightarrow> (c, Done r)
      | ThenCancel k r \<Rightarrow> ((fst c, None), Done r)
      | ThenSchedule k seconds r \<Rightarrow> ((fst c, Some (deadline_after now seconds)), Done r)
      | ThenTTL k \<Rightarrow> (c, Done (Reply_integer (case snd c of None \<Rightarrow> - 1 | Some e \<Rightarrow> max 0 (seconds_left now e))))
      | ThenHad k \<Rightarrow> (c, ThenPersist k (snd c \<noteq> None))
      | ThenPersist k hadExpiry \<Rightarrow> ((fst c, None), Done (Reply_integer (if hadExpiry then 1 else 0))))"

fun residue_key :: "residue \<Rightarrow> key option" where
  "residue_key (Done r) = None"
| "residue_key (ThenCancel k r) = Some k"
| "residue_key (ThenSchedule k s r) = Some k"
| "residue_key (ThenTTL k) = Some k"
| "residue_key (ThenHad k) = Some k"
| "residue_key (ThenPersist k b) = Some k"

lemma node_cell_store:
  "contents s = (contents (store n))(k := v) \<Longrightarrow> node_cell (n\<lparr>store := s\<rparr>) = (node_cell n)(k := (v, expiryOf (expiry n) k))"
  by (auto simp: node_cell_def fun_eq_iff)

lemma next_touches:
  assumes "residue_key res = Some k"
  shows "touches (next_access now res n) k n (cell_next now res (node_cell n k))"
  using assms
  by (cases res)
    (auto simp: touches_def next_access_def cell_next_def node_cell_def expiryOf_fun fun_eq_iff Let_def max_def split: option.split)

lemma node_cell_parts [simp]:
  "fst (node_cell n k) = contents (store n) k" "snd (node_cell n k) = expiryOf (expiry n) k"
  "node_cell (n\<lparr>totalCommands := c\<rparr>) = node_cell n" "node_cell (n\<lparr>totalHits := c\<rparr>) = node_cell n"
  "node_cell (n\<lparr>totalMisses := c\<rparr>) = node_cell n"
  by (simp_all add: node_cell_def fun_eq_iff)

lemma touches_count: "touches q k (n\<lparr>totalCommands := c\<rparr>) d = touches q k n d"
  by (simp add: touches_def)

lemma begin_store_touches:
  assumes "store_inv (store n)" and "kv_capacity (store n) = 0"
  shows "cmd_type cmd = SET \<Longrightarrow> touches (begin_SET cmd n) (cmd_key cmd) n (cell_begin cmd (node_cell n (cmd_key cmd)))"
    and "cmd_type cmd = DEL \<Longrightarrow> touches (begin_DEL cmd n) (cmd_key cmd) n (cell_begin cmd (node_cell n (cmd_key cmd)))"
proof -
  note s = begin_defs cell_begin_def touches_def cmd_key_def
  have del: "\<exists>s'. kv_del (store n) k = (s', contents (store n) k \<noteq> None) \<and> contents s' = (contents (store n))(k := None)" for k
    by (rule kv_del_result [OF assms(1)])
  have set: "contents (kv_set (store n) k v) = (contents (store n))(k \<mapsto> v)" for k v
    using contents_set_unbounded [OF assms] by (simp add: kv_set_def)
  show "cmd_type cmd = SET \<Longrightarrow> touches (begin_SET cmd n) (cmd_key cmd) n (cell_begin cmd (node_cell n (cmd_key cmd)))"
    by (cases "cmd_args cmd" rule: args_cases)
      (simp_all add: s node_cell_store [OF set] split: option.split)
  show "cmd_type cmd = DEL \<Longrightarrow> touches (begin_DEL cmd n) (cmd_key cmd) n (cell_begin cmd (node_cell n (cmd_key cmd)))"
  proof (cases "cmd_args cmd" rule: args_cases)
    case (one k)
    assume "cmd_type cmd = DEL"
    moreover obtain s' where "kv_del (store n) k = (s', contents (store n) k \<noteq> None)" "contents s' = (contents (store n))(k := None)"
      using del by blast
    ultimately show ?thesis using one by (simp add: s node_cell_store)
  qed (simp_all add: s)
qed

lemma begin_test_touches:
  assumes "store_inv (store n)"
  shows "cmd_type cmd = TTL \<Longrightarrow> touches (begin_TTL cmd n) (cmd_key cmd) n (cell_begin cmd (node_cell n (cmd_key cmd)))"
    and "cmd_type cmd = EXPIRE \<Longrightarrow> touches (begin_EXPIRE cmd n) (cmd_key cmd) n (cell_begin cmd (node_cell n (cmd_key cmd)))"
    and "cmd_type cmd = PERSIST \<Longrightarrow> touches (begin_PERSIST cmd n) (cmd_key cmd) n (cell_begin cmd (node_cell n (cmd_key cmd)))"
  using kv_exists_iff [OF assms]
  by (cases "cmd_args cmd" rule: args_cases;
      simp add: begin_defs cell_begin_def touches_def cmd_key_def split: option.split)+

lemma incr_touches:
  assumes "store_inv (store n)" and "kv_capacity (store n) = 0"
  shows "touches (case incrementReply n k d of (n', r) \<Rightarrow> (n', Done r)) k n (cell_incr d (node_cell n k))"
  using contents_set_unbounded [OF assms]
  by (simp add: touches_def incrementReply_def incrementBy_eq [OF assms(1)] cell_incr_def node_cell_store split: sum.split option.split)

lemma get_touches:
  assumes "store_inv (store n)" and "cmd_type cmd = GET"
  shows "touches (case exec_GET cmd n of (n', r) \<Rightarrow> (n', Done r)) (cmd_key cmd) n (cell_begin cmd (node_cell n (cmd_key cmd)))"
proof (cases "cmd_args cmd" rule: args_cases)
  case (one k)
  obtain s' where "kv_get (store n) k = (s', contents (store n) k)" "contents s' = contents (store n)"
    using kv_get_result [OF assms(1)] by blast
  with one assms(2) show ?thesis
    by (simp add: touches_def exec_GET_def cell_begin_def cmd_key_def node_cell_def fun_eq_iff split: option.split)
qed (simp_all add: touches_def exec_GET_def cell_begin_def assms(2))

lemma begin_only_touches:
  assumes "store_inv (store n)" and "kv_capacity (store n) = 0"
  shows "cmd_type cmd = GET \<Longrightarrow> touches (begin_command cmd n) (cmd_key cmd) n (cell_begin cmd (node_cell n (cmd_key cmd)))"
    and "cmd_type cmd = INCR \<Longrightarrow> touches (begin_command cmd n) (cmd_key cmd) n (cell_begin cmd (node_cell n (cmd_key cmd)))"
    and "cmd_type cmd = DECR \<Longrightarrow> touches (begin_command cmd n) (cmd_key cmd) n (cell_begin cmd (node_cell n (cmd_key cmd)))"
    and "cmd_type cmd = PING \<Longrightarrow> touches (begin_command cmd n) (cmd_key cmd) n (cell_begin cmd (node_cell n (cmd_key cmd)))"
proof -
  let ?n = "n\<lparr>totalCommands := totalCommands n + 1\<rparr>"
  have i: "store_inv (store ?n)" "kv_capacity (store ?n) = 0" using assms by simp_all
  note g = get_touches [OF i(1), unfolded touches_count node_cell_parts] incr_touches [OF i, unfolded touches_count node_cell_parts]
  have ar: "touches (?n, Done r) k n (node_cell n k, Done r)" for k r by (simp add: touches_def)
  note s = begin_command_def execute_def Let_def
  show "cmd_type cmd = GET \<Longrightarrow> touches (begin_command cmd n) (cmd_key cmd) n (cell_begin cmd (node_cell n (cmd_key cmd)))"
    using g(1) by (simp add: s)
  show "cmd_type cmd = INCR \<Longrightarrow> touches (begin_command cmd n) (cmd_key cmd) n (cell_begin cmd (node_cell n (cmd_key cmd)))"
    by (cases "cmd_args cmd" rule: args_cases) (simp_all add: s cell_begin_def cmd_key_def g(2) ar)
  show "cmd_type cmd = DECR \<Longrightarrow> touches (begin_command cmd n) (cmd_key cmd) n (cell_begin cmd (node_cell n (cmd_key cmd)))"
    by (cases "cmd_args cmd" rule: args_cases) (simp_all add: s cell_begin_def cmd_key_def g(2) ar)
  show "cmd_type cmd = PING \<Longrightarrow> touches (begin_command cmd n) (cmd_key cmd) n (cell_begin cmd (node_cell n (cmd_key cmd)))"
    by (cases "cmd_args cmd" rule: args_cases) (simp_all add: s cell_begin_def ar)
qed

lemma begin_touches:
  assumes "store_inv (store n)" and "kv_capacity (store n) = 0" and "data_command cmd"
  shows "touches (begin_command cmd n) (cmd_key cmd) n (cell_begin cmd (node_cell n (cmd_key cmd)))"
proof -
  let ?n = "n\<lparr>totalCommands := totalCommands n + 1\<rparr>"
  have i: "store_inv (store ?n)" "kv_capacity (store ?n) = 0" using assms by simp_all
  note r = begin_store_touches [OF i, unfolded touches_count node_cell_parts] begin_test_touches [OF i(1), unfolded touches_count node_cell_parts]
  from assms(3) show ?thesis
    unfolding data_command_def
    by (elim insertE emptyE) (simp_all add: begin_only_touches [OF assms(1,2)], simp_all add: begin_command_def Let_def r)
qed

text \<open>The state the lemmas need, and that it is kept.\<close>

definition sound_node :: "node \<Rightarrow> bool" where
  "sound_node n \<longleftrightarrow> node_inv n \<and> kv_capacity (store n) = 0"

lemma sound_begin:
  assumes "sound_node n"
  shows "sound_node (fst (begin_command cmd n))"
proof -
  let ?n = "n\<lparr>totalCommands := totalCommands n + 1\<rparr>"
  have e: "sound_node (fst (execute 0 cmd n))" using assms execute_node_inv execute_capacity by (simp add: sound_node_def)
  have d: "store_inv (fst (kv_del (store n) k))" "kv_capacity (fst (kv_del (store n) k)) = 0"
    "store_inv (kv_set (store n) k v)" "kv_capacity (kv_set (store n) k v) = 0" for k v
    using assms store_inv_del store_inv_set by (auto simp: sound_node_def node_inv_def kv_set_def)
  have z: "kv_capacity (store n) = 0" using assms by (simp add: sound_node_def)
  have o: "sound_node ?n" "sound_node (?n\<lparr>store := s\<rparr>) \<longleftrightarrow> store_inv s \<and> kv_capacity s = 0" for s
    using assms by (auto simp: sound_node_def node_inv_def)
  show ?thesis
    using e by (cases "cmd_type cmd"; cases "cmd_args cmd" rule: args_cases)
      (simp_all add: begin_command_def begin_defs o d z Let_def split_beta split: option.split)
qed

lemma sound_next: "sound_node n \<Longrightarrow> sound_node (fst (next_access now res n))"
  by (cases res) (simp_all add: next_access_def sound_node_def node_inv_def heap_covers_cancel heap_covers_schedule)

section \<open>A command under way\<close>

fun is_done :: "residue \<Rightarrow> bool" where
  "is_done (Done r) = True"
| "is_done _ = False"

text \<open>A command under way on a cell.\<close>

inductive under_way :: "Command \<Rightarrow> cell \<Rightarrow> cell \<Rightarrow> residue \<Rightarrow> bool" for cmd c where
  uw_begin: "cell_begin cmd c = (c', res) \<Longrightarrow> under_way cmd c c' res"
| uw_next: "under_way cmd c c' res \<Longrightarrow> cell_next now res c' = (c'', res') \<Longrightarrow> under_way cmd c c'' res'"

definition cell_exec :: "nanos \<Rightarrow> Command \<Rightarrow> cell \<Rightarrow> cell \<times> residue" where
  "cell_exec now cmd c =
     (case cell_begin cmd c of (c1, res1) \<Rightarrow> (case cell_next now res1 c1 of (c2, res2) \<Rightarrow> cell_next now res2 c2))"

lemma done_iff: "is_done res \<longleftrightarrow> residue_key res = None"
  by (cases res) simp_all

lemma cell_begin_key: "residue_key (snd (cell_begin cmd c)) \<in> {None, Some (cmd_key cmd)}"
  by (cases "cmd_type cmd"; cases "cmd_args cmd" rule: args_cases)
    (simp_all add: cell_begin_def cmd_key_def cell_incr_def split: option.split sum.split)

lemma cell_begin_ThenHad: "cell_begin cmd c = (c', ThenHad k) \<Longrightarrow> c' = c"
  by (cases "cmd_type cmd"; cases "cmd_args cmd" rule: args_cases)
    (auto simp: cell_begin_def cell_incr_def split: option.splits sum.splits if_splits)

lemma cell_next_key: "residue_key (snd (cell_next now res c)) \<in> {None, residue_key res}"
  by (cases res) (simp_all add: cell_next_def)

text \<open>A command under way has made its first access, or is a \<^verbatim>\<open>PERSIST\<close> that has made its second.\<close>

lemma under_way_cases:
  assumes "under_way cmd c c1 res" and "\<not> is_done res"
  shows "cell_begin cmd c = (c1, res) \<or> (\<exists>k. cell_begin cmd c = (c, ThenHad k) \<and> c1 = c \<and> res = ThenPersist k (snd c \<noteq> None))"
  using assms
proof (induction rule: under_way.induct)
  case (uw_next c' res now c'' res')
  then have "\<not> is_done res" by (cases res) (auto simp: cell_next_def)
  from uw_next.IH [OF this] show ?case
  proof (elim disjE exE)
    assume b: "cell_begin cmd c = (c', res)"
    from uw_next.hyps(2) uw_next.prems obtain k where k: "res = ThenHad k" "c'' = c'" "res' = ThenPersist k (snd c' \<noteq> None)"
      by (cases res) (auto simp: cell_next_def)
    with b cell_begin_ThenHad [of cmd c c' k] show ?thesis by auto
  next
    fix k assume "cell_begin cmd c = (c, ThenHad k) \<and> c' = c \<and> res = ThenPersist k (snd c \<noteq> None)"
    with uw_next.hyps(2) uw_next.prems show ?thesis by (auto simp: cell_next_def)
  qed
qed simp

lemma under_way_finish:
  assumes "under_way cmd c c1 res" and "\<not> is_done res" and "cell_next now res c1 = (c', Done r)"
  shows "cell_exec now cmd c = (c', Done r)"
  using under_way_cases [OF assms(1,2)] assms(3) by (auto simp: cell_exec_def cell_next_def)

lemma under_way_key:
  assumes "under_way cmd c c1 res" and "\<not> is_done res"
  shows "residue_key res = Some (cmd_key cmd)"
  using under_way_cases [OF assms] cell_begin_key [of cmd c] assms(2) by (auto simp: done_iff)

lemma execute_cell:
  assumes "sound_node n" and "data_command cmd" and "execute now cmd n = (n', r)"
  shows "node_cell n' = (node_cell n)(cmd_key cmd := fst (cell_exec now cmd (node_cell n (cmd_key cmd))))"
    and "snd (cell_exec now cmd (node_cell n (cmd_key cmd))) = Done r"
proof -
  let ?k = "cmd_key cmd"
  have step: "touches (next_access now res m) ?k m (cell_next now res (node_cell m ?k))" if "residue_key res \<in> {None, Some ?k}" for res m
    using that next_touches [of res ?k now m]
    by (auto simp: done_iff [symmetric]) (cases res; simp add: touches_def next_access_def cell_next_def)
  obtain n1 res1 where b: "begin_command cmd n = (n1, res1)" by fastforce
  obtain n2 res2 where c: "next_access now res1 n1 = (n2, res2)" by fastforce
  have i: "store_inv (store n)" "kv_capacity (store n) = 0" using assms(1) by (simp_all add: sound_node_def node_inv_def)
  obtain c1 where c1: "cell_begin cmd (node_cell n ?k) = (c1, res1)" "node_cell n1 = (node_cell n)(?k := c1)"
    using begin_touches [OF i assms(2)] b by (cases "cell_begin cmd (node_cell n ?k)") (simp add: touches_def)
  have k1: "residue_key res1 \<in> {None, Some ?k}" using cell_begin_key [of cmd "node_cell n ?k"] c1(1) by simp
  obtain c2 where c2: "cell_next now res1 c1 = (c2, res2)" "node_cell n2 = (node_cell n)(?k := c2)"
    using step [OF k1, of n1] c c1(2) by (cases "cell_next now res1 c1") (simp add: touches_def)
  have k2: "residue_key res2 \<in> {None, Some ?k}" using cell_next_key [of now res1 c1] k1 c2(1) by auto
  have "next_access now res2 n2 = (n', Done r)" using run_alone_execute [of now cmd n] assms(3) by (simp add: run_alone_def b c)
  with step [OF k2, of n2] c2(2) have "node_cell n' = (node_cell n)(?k := fst (cell_next now res2 c2))" "snd (cell_next now res2 c2) = Done r"
    by (simp_all add: touches_def)
  then show "node_cell n' = (node_cell n)(?k := fst (cell_exec now cmd (node_cell n ?k)))"
    and "snd (cell_exec now cmd (node_cell n ?k)) = Done r"
    using c1(1) c2(1) by (simp_all add: cell_exec_def)
qed

section \<open>Properties\<close>


end
