(* ===== verification/Command_Threads.thy ===== *)
theory Command_Threads
  imports Command_Accesses
begin

text \<open>
  Commands of several threads, access by access, with the sweeper, which takes a deadline and deletes the
  key in two accesses of its own. The lemmas show that with at most one of them at a time on a key every
  interleaving is a sequence of whole commands and expiries, by a simulation in which a command takes
  effect with its last access; and what two commands on one key can do to each other.
\<close>

section \<open>Interleaving\<close>

record cmd_system =
  cs_node :: node
  cs_sweeper :: sweeper
  cs_clock :: nanos
  cs_threads :: "nat \<Rightarrow> (Command \<times> residue) option"

text \<open>What has been completed: a command with the time of its last access and its reply, or an expiry.\<close>

datatype performed = Command_done nanos Command string | Key_expired nanos key

inductive access_step :: "cmd_system \<Rightarrow> performed list \<Rightarrow> cmd_system \<Rightarrow> bool" where
  ac_whole: "cs_threads s i = None \<Longrightarrow> data_command cmd \<Longrightarrow> begin_command cmd (cs_node s) = (n', Done r) \<Longrightarrow>
    access_step s [Command_done (cs_clock s) cmd r] (s\<lparr>cs_node := n'\<rparr>)"
| ac_begin: "cs_threads s i = None \<Longrightarrow> data_command cmd \<Longrightarrow> begin_command cmd (cs_node s) = (n', res) \<Longrightarrow> \<not> is_done res \<Longrightarrow>
    access_step s [] (s\<lparr>cs_node := n', cs_threads := (cs_threads s)(i \<mapsto> (cmd, res))\<rparr>)"
| ac_next: "cs_threads s i = Some (cmd, res) \<Longrightarrow> next_access (cs_clock s) res (cs_node s) = (n', res') \<Longrightarrow> \<not> is_done res' \<Longrightarrow>
    access_step s [] (s\<lparr>cs_node := n', cs_threads := (cs_threads s)(i \<mapsto> (cmd, res'))\<rparr>)"
| ac_finish: "cs_threads s i = Some (cmd, res) \<Longrightarrow> next_access (cs_clock s) res (cs_node s) = (n', Done r) \<Longrightarrow>
    access_step s [Command_done (cs_clock s) cmd r] (s\<lparr>cs_node := n', cs_threads := (cs_threads s)(i := None)\<rparr>)"
| ac_sweep: "\<forall>k. cs_sweeper s \<noteq> Firing k \<Longrightarrow> sweep_step (cs_clock s) (expiry (cs_node s), cs_sweeper s) (m, w) \<Longrightarrow>
    access_step s [] (s\<lparr>cs_node := (cs_node s)\<lparr>expiry := m\<rparr>, cs_sweeper := w\<rparr>)"
| ac_expired: "cs_sweeper s = Firing k \<Longrightarrow>
    access_step s [Key_expired (cs_clock s) k]
      (s\<lparr>cs_node := (cs_node s)\<lparr>store := fst (kv_del (store (cs_node s)) k)\<rparr>, cs_sweeper := Checking\<rparr>)"
| ac_tick: "cs_clock s \<le> t \<Longrightarrow> access_step s [] (s\<lparr>cs_clock := t\<rparr>)"

text \<open>A key nothing is under way on; runs in which a key is used by one command, or the sweeper, at a time.\<close>

definition free_key :: "cmd_system \<Rightarrow> key \<Rightarrow> bool" where
  "free_key s k \<longleftrightarrow> cs_sweeper s \<noteq> Firing k \<and> (\<forall>i cmd res. cs_threads s i = Some (cmd, res) \<longrightarrow> cmd_key cmd \<noteq> k)"

definition one_per_key :: "cmd_system \<Rightarrow> bool" where
  "one_per_key s \<longleftrightarrow>
     (\<forall>i j c r c' r'. cs_threads s i = Some (c, r) \<longrightarrow> cs_threads s j = Some (c', r') \<longrightarrow> i \<noteq> j \<longrightarrow> cmd_key c \<noteq> cmd_key c') \<and>
     (\<forall>i c r. cs_threads s i = Some (c, r) \<longrightarrow> cs_sweeper s \<noteq> Firing (cmd_key c))"

definition start_system :: "node \<Rightarrow> nanos \<Rightarrow> cmd_system" where
  "start_system n t = \<lparr>cs_node = n, cs_sweeper = Checking, cs_clock = t, cs_threads = \<lambda>i. None\<rparr>"

inductive calm_run :: "node \<Rightarrow> nanos \<Rightarrow> performed list \<Rightarrow> cmd_system \<Rightarrow> bool" for n0 t0 where
  cr_start: "calm_run n0 t0 [] (start_system n0 t0)"
| cr_step: "calm_run n0 t0 es s \<Longrightarrow> access_step s es' s' \<Longrightarrow> one_per_key s' \<Longrightarrow>
    (\<And>now cmd r. Command_done now cmd r \<in> set es' \<Longrightarrow> free_key s' (cmd_key cmd)) \<Longrightarrow> calm_run n0 t0 (es @ es') s'"

text \<open>Without the restriction.\<close>

inductive access_run :: "node \<Rightarrow> nanos \<Rightarrow> performed list \<Rightarrow> cmd_system \<Rightarrow> bool" for n0 t0 where
  ar_start: "access_run n0 t0 [] (start_system n0 t0)"
| ar_step: "access_run n0 t0 es s \<Longrightarrow> access_step s es' s' \<Longrightarrow> access_run n0 t0 (es @ es') s'"

section \<open>Whole commands and expiries, one after the other\<close>

definition expire_key :: "key \<Rightarrow> node \<Rightarrow> node" where
  "expire_key k n = n\<lparr>store := fst (kv_del (store n) k), expiry := cancel (expiry n) k\<rparr>"

fun perform :: "performed \<Rightarrow> node \<Rightarrow> node option" where
  "perform (Command_done now cmd r) n = (case execute now cmd n of (n', r') \<Rightarrow> if r' = r then Some n' else None)"
| "perform (Key_expired now k) n =
     (case expiryOf (expiry n) k of None \<Rightarrow> None | Some w \<Rightarrow> if w \<le> now then Some (expire_key k n) else None)"

fun perform_all :: "performed list \<Rightarrow> node \<Rightarrow> node option" where
  "perform_all [] n = Some n"
| "perform_all (e # es) n = Option.bind (perform e n) (perform_all es)"

lemma perform_all_append: "perform_all (es @ es') n = Option.bind (perform_all es n) (perform_all es')"
  by (induction es arbitrary: n) (simp_all split: bind_split)

section \<open>Simulation\<close>

lemma begin_expiry: "data_command cmd \<Longrightarrow> expiry (fst (begin_command cmd n)) = expiry n"
  unfolding data_command_def
  by (elim insertE emptyE; cases "cmd_args cmd" rule: args_cases)
    (simp_all add: begin_command_def begin_defs execute_def exec_GET_def incrementReply_def Let_def split: option.split prod.split sum.split)

lemma next_heap: "exp_heap (expiry n) \<subseteq># exp_heap (expiry (fst (next_access now res n)))"
  by (cases res) (simp_all add: next_access_def cancel_def schedule_def)

text \<open>
  The node under interleaving against the node on which everything completed so far has been
  performed whole: equal on free keys, ahead on a key with a command under way, and without the deadline
  that the sweeper has taken.
\<close>

definition linked :: "cmd_system \<Rightarrow> node \<Rightarrow> bool" where
  "linked s q \<longleftrightarrow> sound_node (cs_node s) \<and> sound_node q \<and> wait_covers (expiry (cs_node s)) (cs_sweeper s) \<and> one_per_key s \<and>
     (\<forall>k. free_key s k \<longrightarrow> node_cell (cs_node s) k = node_cell q k) \<and>
     (\<forall>i cmd res. cs_threads s i = Some (cmd, res) \<longrightarrow> data_command cmd \<and> \<not> is_done res \<and>
        under_way cmd (node_cell q (cmd_key cmd)) (node_cell (cs_node s) (cmd_key cmd)) res) \<and>
     (\<forall>k. cs_sweeper s = Firing k \<longrightarrow>
        (\<exists>v w. node_cell (cs_node s) k = (v, None) \<and> node_cell q k = (v, Some w) \<and> w \<le> cs_clock s))"

lemma linkedD:
  assumes "linked s q"
  shows "sound_node (cs_node s)" "sound_node q" "wait_covers (expiry (cs_node s)) (cs_sweeper s)" "one_per_key s"
    and "free_key s k \<Longrightarrow> node_cell (cs_node s) k = node_cell q k"
    and "cs_threads s i = Some (cmd, res) \<Longrightarrow> data_command cmd \<and> \<not> is_done res \<and>
        under_way cmd (node_cell q (cmd_key cmd)) (node_cell (cs_node s) (cmd_key cmd)) res"
    and "cs_sweeper s = Firing k \<Longrightarrow>
        \<exists>v w. node_cell (cs_node s) k = (v, None) \<and> node_cell q k = (v, Some w) \<and> w \<le> cs_clock s"
  using assms unfolding linked_def by blast+

lemma free_keyD:
  assumes "free_key s k"
  shows "cs_threads s i = Some (cmd, res) \<Longrightarrow> cmd_key cmd \<noteq> k" and "cs_sweeper s \<noteq> Firing k"
  using assms unfolding free_key_def by blast+

lemma one_per_keyD:
  assumes "one_per_key s"
  shows "cs_threads s i = Some (c, r) \<Longrightarrow> cs_threads s j = Some (c', r') \<Longrightarrow> i \<noteq> j \<Longrightarrow> cmd_key c \<noteq> cmd_key c'"
    and "cs_threads s i = Some (c, r) \<Longrightarrow> cs_sweeper s \<noteq> Firing (cmd_key c)"
  using assms unfolding one_per_key_def by metis+

lemma one_per_key_update:
  assumes "one_per_key s" and o: "\<And>j cmd res. j \<noteq> i \<Longrightarrow> cs_threads s j = Some (cmd, res) \<Longrightarrow> cmd_key cmd \<noteq> k"
    and "cs_sweeper s \<noteq> Firing k" and "\<And>cmd res. p = Some (cmd, res) \<Longrightarrow> cmd_key cmd = k"
  shows "one_per_key (s\<lparr>cs_node := n', cs_threads := (cs_threads s)(i := p)\<rparr>)"
proof -
  let ?s = "s\<lparr>cs_node := n', cs_threads := (cs_threads s)(i := p)\<rparr>"
  have "cmd_key c \<noteq> cmd_key c'" if "cs_threads ?s a = Some (c, r)" "cs_threads ?s b = Some (c', r')" "a \<noteq> b" for a b c r c' r'
    using that one_per_keyD(1) [OF assms(1), of a c r b c' r'] o [of a c r] o [of b c' r'] assms(4) [of c r] assms(4) [of c' r']
    by (cases "a = i"; cases "b = i") auto
  moreover have "cs_sweeper ?s \<noteq> Firing (cmd_key c)" if "cs_threads ?s a = Some (c, r)" for a c r
    using that one_per_keyD(2) [OF assms(1), of a c r] assms(3,4) by (cases "a = i") auto
  ultimately show ?thesis unfolding one_per_key_def by blast
qed

lemma linked_update:
  assumes "linked s q" and "sound_node n'" and "sound_node q'" and "wait_covers (expiry n') (cs_sweeper s)"
    and "node_cell n' = (node_cell (cs_node s))(k := c)" and "node_cell q' = (node_cell q)(k := d)"
    and "\<And>j cmd res. j \<noteq> i \<Longrightarrow> cs_threads s j = Some (cmd, res) \<Longrightarrow> cmd_key cmd \<noteq> k"
    and "\<And>cmd res. cs_threads s i = Some (cmd, res) \<Longrightarrow> cmd_key cmd = k" and "cs_sweeper s \<noteq> Firing k"
    and "case p of None \<Rightarrow> c = d
         | Some (cmd, res) \<Rightarrow> cmd_key cmd = k \<and> data_command cmd \<and> \<not> is_done res \<and> under_way cmd d c res"
  shows "linked (s\<lparr>cs_node := n', cs_threads := (cs_threads s)(i := p)\<rparr>) q'"
proof -
  let ?s = "s\<lparr>cs_node := n', cs_threads := (cs_threads s)(i := p)\<rparr>"
  have "one_per_key ?s" using assms(10) by (intro one_per_key_update [OF linkedD(4) [OF assms(1)] assms(7,9)]) auto
  moreover have "node_cell n' k' = node_cell q' k'" if f: "free_key ?s k'" for k'
  proof (cases "k' = k")
    case True
    then have "p = None" using free_keyD(1) [OF f, of i] assms(10) by (cases p) auto
    with True assms(5,6,10) show ?thesis by simp
  next
    case False
    have "cmd_key cmd \<noteq> k'" if "cs_threads s j = Some (cmd, res)" for j cmd res
      using free_keyD(1) [OF f, of j cmd res] assms(8) [of cmd res] that False by (cases "j = i") auto
    then have "free_key s k'" using free_keyD(2) [OF f] by (simp add: free_key_def)
    from linkedD(5) [OF assms(1) this] False assms(5,6) show ?thesis by simp
  qed
  moreover have "data_command cmd \<and> \<not> is_done res \<and> under_way cmd (node_cell q' (cmd_key cmd)) (node_cell n' (cmd_key cmd)) res"
    if "cs_threads ?s j = Some (cmd, res)" for j cmd res
    using that assms(5,6,10) assms(7) [of j cmd res] linkedD(6) [OF assms(1), of j cmd res] by (cases "j = i") auto
  moreover have "\<exists>v w. node_cell n' k' = (v, None) \<and> node_cell q' k' = (v, Some w) \<and> w \<le> cs_clock s"
    if "cs_sweeper s = Firing k'" for k'
    using linkedD(7) [OF assms(1) that] assms(5,6,9) that by auto
  ultimately show ?thesis using assms(2-4) by (auto simp: linked_def)
qed

lemma perform_command:
  assumes "linked s q" and "data_command cmd" and "cell_exec now cmd (node_cell q (cmd_key cmd)) = (c', Done r)"
  shows "\<exists>q'. perform_all [Command_done now cmd r] q = Some q' \<and> sound_node q' \<and> node_cell q' = (node_cell q)(cmd_key cmd := c')"
proof -
  obtain q' r' where e: "execute now cmd q = (q', r')" by fastforce
  note x = execute_cell [OF linkedD(2) [OF assms(1)] assms(2) e]
  have "sound_node q'" using linkedD(2) [OF assms(1)] execute_node_inv [of q now cmd] execute_capacity [of now cmd q]
    by (simp add: sound_node_def e)
  with x assms(3) e show ?thesis by simp
qed

lemma begin_cells:
  assumes "linked s q" and "data_command cmd" and "begin_command cmd (cs_node s) = (n', res)"
  shows "sound_node n'" and "wait_covers (expiry n') (cs_sweeper s)"
    and "\<exists>c. cell_begin cmd (node_cell (cs_node s) (cmd_key cmd)) = (c, res) \<and> node_cell n' = (node_cell (cs_node s))(cmd_key cmd := c)"
proof -
  have i: "store_inv (store (cs_node s))" "kv_capacity (store (cs_node s)) = 0"
    using linkedD(1) [OF assms(1)] by (simp_all add: sound_node_def node_inv_def)
  show "sound_node n'" and "wait_covers (expiry n') (cs_sweeper s)"
    using sound_begin [OF linkedD(1) [OF assms(1)], of cmd] begin_expiry [OF assms(2), of "cs_node s"] assms(3) linkedD(3) [OF assms(1)]
    by simp_all
  show "\<exists>c. cell_begin cmd (node_cell (cs_node s) (cmd_key cmd)) = (c, res) \<and> node_cell n' = (node_cell (cs_node s))(cmd_key cmd := c)"
    using begin_touches [OF i assms(2)] assms(3)
    by (cases "cell_begin cmd (node_cell (cs_node s) (cmd_key cmd))") (simp add: touches_def)
qed

lemma linked_whole:
  assumes "linked s q" and "cs_threads s i = None" and "data_command cmd" and "begin_command cmd (cs_node s) = (n', Done r)"
    and "free_key s (cmd_key cmd)"
  shows "\<exists>q'. perform_all [Command_done (cs_clock s) cmd r] q = Some q' \<and> linked (s\<lparr>cs_node := n'\<rparr>) q'"
proof -
  let ?k = "cmd_key cmd"
  note b = begin_cells [OF assms(1,3,4)]
  obtain c where c: "cell_begin cmd (node_cell (cs_node s) ?k) = (c, Done r)" "node_cell n' = (node_cell (cs_node s))(?k := c)"
    using b(3) by blast
  then have "cell_exec (cs_clock s) cmd (node_cell q ?k) = (c, Done r)"
    using linkedD(5) [OF assms(1,5)] by (simp add: cell_exec_def cell_next_def)
  from perform_command [OF assms(1,3) this] obtain q' where
    q': "perform_all [Command_done (cs_clock s) cmd r] q = Some q'" "sound_node q'" "node_cell q' = (node_cell q)(?k := c)" by blast
  have "linked (s\<lparr>cs_node := n', cs_threads := (cs_threads s)(i := None)\<rparr>) q'"
    by (rule linked_update [OF assms(1) b(1) q'(2) b(2) c(2) q'(3)]) (use assms(2,5) in \<open>auto simp: free_key_def\<close>)
  moreover have "s\<lparr>cs_node := n', cs_threads := (cs_threads s)(i := None)\<rparr> = s\<lparr>cs_node := n'\<rparr>" using assms(2) by (simp add: fun_upd_idem)
  ultimately show ?thesis using q'(1) by auto
qed

lemma linked_begin:
  assumes "linked s q" and "cs_threads s i = None" and "data_command cmd" and "begin_command cmd (cs_node s) = (n', res)"
    and "\<not> is_done res" and "one_per_key (s\<lparr>cs_node := n', cs_threads := (cs_threads s)(i \<mapsto> (cmd, res))\<rparr>)"
  shows "linked (s\<lparr>cs_node := n', cs_threads := (cs_threads s)(i \<mapsto> (cmd, res))\<rparr>) q"
proof -
  let ?k = "cmd_key cmd"
  note b = begin_cells [OF assms(1,3,4)]
  obtain c where c: "cell_begin cmd (node_cell (cs_node s) ?k) = (c, res)" "node_cell n' = (node_cell (cs_node s))(?k := c)"
    using b(3) by blast
  have o: "cmd_key cmd' \<noteq> ?k" if "j \<noteq> i" "cs_threads s j = Some (cmd', res')" for j cmd' res'
    using one_per_keyD(1) [OF assms(6), of j cmd' res' i cmd res] that by simp
  have w: "cs_sweeper s \<noteq> Firing ?k" using one_per_keyD(2) [OF assms(6), of i cmd res] by simp
  have "free_key s ?k" unfolding free_key_def using o w assms(2) by (metis option.distinct(1))
  then have "under_way cmd (node_cell q ?k) c res" using linkedD(5) [OF assms(1)] c(1) by (simp add: uw_begin)
  then show ?thesis
    by (intro linked_update [OF assms(1) b(1) linkedD(2) [OF assms(1)] b(2) c(2), of "node_cell q ?k"])
      (use o w assms(2,3,5) in auto)
qed

lemma next_cells:
  assumes "linked s q" and "cs_threads s i = Some (cmd, res)" and "next_access now res (cs_node s) = (n', res')"
  shows "sound_node n'" and "wait_covers (expiry n') (cs_sweeper s)"
    and "\<exists>c. cell_next now res (node_cell (cs_node s) (cmd_key cmd)) = (c, res') \<and> node_cell n' = (node_cell (cs_node s))(cmd_key cmd := c)"
proof -
  show "sound_node n'" "wait_covers (expiry n') (cs_sweeper s)"
    using sound_next [OF linkedD(1) [OF assms(1)], of now res] wait_covers_mono [OF linkedD(3) [OF assms(1)] next_heap [of _ now res]] assms(3)
    by simp_all
  have "residue_key res = Some (cmd_key cmd)" using linkedD(6) [OF assms(1,2)] under_way_key by blast
  from next_touches [OF this, of now "cs_node s"] assms(3)
  show "\<exists>c. cell_next now res (node_cell (cs_node s) (cmd_key cmd)) = (c, res') \<and> node_cell n' = (node_cell (cs_node s))(cmd_key cmd := c)"
    by (cases "cell_next now res (node_cell (cs_node s) (cmd_key cmd))") (simp add: touches_def)
qed

lemma busy_alone:
  assumes "linked s q" and "cs_threads s i = Some (cmd, res)"
  shows "j \<noteq> i \<Longrightarrow> cs_threads s j = Some (cmd', res') \<Longrightarrow> cmd_key cmd' \<noteq> cmd_key cmd" and "cs_sweeper s \<noteq> Firing (cmd_key cmd)"
  using one_per_keyD [OF linkedD(4) [OF assms(1)]] assms(2) by metis+

lemma linked_next:
  assumes "linked s q" and "cs_threads s i = Some (cmd, res)" and "next_access (cs_clock s) res (cs_node s) = (n', res')" and "\<not> is_done res'"
  shows "linked (s\<lparr>cs_node := n', cs_threads := (cs_threads s)(i \<mapsto> (cmd, res'))\<rparr>) q"
proof -
  let ?k = "cmd_key cmd"
  note n = next_cells [OF assms(1-3)]
  obtain c where c: "cell_next (cs_clock s) res (node_cell (cs_node s) ?k) = (c, res')" "node_cell n' = (node_cell (cs_node s))(?k := c)"
    using n(3) by blast
  have u: "data_command cmd" "under_way cmd (node_cell q ?k) (node_cell (cs_node s) ?k) res" using linkedD(6) [OF assms(1,2)] by simp_all
  have "under_way cmd (node_cell q ?k) c res'" using uw_next [OF u(2) c(1)] .
  with u(1) assms(4) show ?thesis
    by (intro linked_update [OF assms(1) n(1) linkedD(2) [OF assms(1)] n(2) c(2), of "node_cell q ?k"])
      (use busy_alone [OF assms(1,2)] assms(2) in auto)
qed

lemma linked_finish:
  assumes "linked s q" and "cs_threads s i = Some (cmd, res)" and "next_access (cs_clock s) res (cs_node s) = (n', Done r)"
  shows "\<exists>q'. perform_all [Command_done (cs_clock s) cmd r] q = Some q' \<and>
    linked (s\<lparr>cs_node := n', cs_threads := (cs_threads s)(i := None)\<rparr>) q'"
proof -
  let ?k = "cmd_key cmd"
  note n = next_cells [OF assms]
  obtain c where c: "cell_next (cs_clock s) res (node_cell (cs_node s) ?k) = (c, Done r)" "node_cell n' = (node_cell (cs_node s))(?k := c)"
    using n(3) by blast
  have u: "data_command cmd" "\<not> is_done res" "under_way cmd (node_cell q ?k) (node_cell (cs_node s) ?k) res"
    using linkedD(6) [OF assms(1,2)] by simp_all
  from perform_command [OF assms(1) u(1) under_way_finish [OF u(3,2) c(1)]] obtain q' where
    q': "perform_all [Command_done (cs_clock s) cmd r] q = Some q'" "sound_node q'" "node_cell q' = (node_cell q)(?k := c)" by blast
  have "linked (s\<lparr>cs_node := n', cs_threads := (cs_threads s)(i := None)\<rparr>) q'"
    by (rule linked_update [OF assms(1) n(1) q'(2) n(2) c(2) q'(3)]) (use busy_alone [OF assms(1,2)] assms(2) in auto)
  with q'(1) show ?thesis by blast
qed

text \<open>The sweeper takes a due deadline, or changes none.\<close>

lemma sweep_effect:
  assumes "sweep_step now (m0, w0) (m, w)" and "wait_covers m0 w0" and "\<forall>k. w0 \<noteq> Firing k"
  shows "(\<exists>k d. w = Firing k \<and> expiryOf m = (expiryOf m0)(k := None) \<and> expiryOf m0 k = Some d \<and> d \<le> now) \<or>
    (\<forall>k. w \<noteq> Firing k) \<and> expiryOf m = expiryOf m0"
proof (cases "\<exists>k. w = Firing k")
  case True
  then obtain k d where k: "w = Firing k" "w0 = Waiting d" using assms(1,3) by (auto elim: sweep_step.cases)
  obtain e where "expiryOf m0 k = Some e" "e \<le> now" using fire_is_due [of now m0 d m k] assms(1,2) k by (auto simp: expiryOf_def)
  moreover have "expiryOf m = (expiryOf m0)(k := None)"
    using assms(1) k by (auto elim!: from_WaitingE simp: expiryOf_def fun_eq_iff lookup_delete_if)
  ultimately show ?thesis using k(1) by blast
next
  case False
  then have "expiryOf m = expiryOf m0" using assms(1) by (auto elim!: sweep_step.cases simp: expiryOf_def fun_eq_iff)
  with False show ?thesis by blast
qed

lemma linked_sweep:
  assumes "linked s q" and "\<forall>k. cs_sweeper s \<noteq> Firing k"
    and "sweep_step (cs_clock s) (expiry (cs_node s), cs_sweeper s) (m, w)"
    and "one_per_key (s\<lparr>cs_node := (cs_node s)\<lparr>expiry := m\<rparr>, cs_sweeper := w\<rparr>)"
  shows "linked (s\<lparr>cs_node := (cs_node s)\<lparr>expiry := m\<rparr>, cs_sweeper := w\<rparr>) q"
proof -
  let ?n = "cs_node s" and ?n' = "(cs_node s)\<lparr>expiry := m\<rparr>"
  let ?s = "s\<lparr>cs_node := ?n', cs_sweeper := w\<rparr>"
  note d = linkedD [OF assms(1)]
  have inv: "sound_node ?n'" "wait_covers m w"
    using d(1) sweep_step_heap_covers [OF assms(3)] sweep_step_wait_covers [OF assms(3)] d(3) by (auto simp: sound_node_def node_inv_def)
  from sweep_effect [OF assms(3) d(3) assms(2)] show ?thesis
  proof (elim disjE exE conjE)
    fix k e
    assume k: "w = Firing k" "expiryOf m = (expiryOf (expiry ?n))(k := None)" "expiryOf (expiry ?n) k = Some e" "e \<le> cs_clock s"
    have o: "cmd_key cmd \<noteq> k" if "cs_threads s i = Some (cmd, res)" for i cmd res
      using one_per_keyD(2) [OF assms(4), of i cmd res] that k(1) by auto
    have f: "free_key s k" using o assms(2) by (auto simp: free_key_def)
    have c: "node_cell ?n' = (node_cell ?n)(k := (contents (store ?n) k, None))" using k(2) by (auto simp: node_cell_def fun_eq_iff)
    have "node_cell q k = (contents (store ?n) k, Some e)" using d(5) [OF f] k(3) by (simp add: node_cell_def)
    moreover have "node_cell ?n' k' = node_cell q k'" if "free_key ?s k'" for k'
    proof -
      have "k' \<noteq> k" using free_keyD(2) [OF that] k(1) by auto
      moreover have "free_key s k'" using that assms(2) by (auto simp: free_key_def)
      ultimately show ?thesis using c d(5) by simp
    qed
    ultimately show ?thesis
      using d(2,6) o c inv k(1,4) assms(4) unfolding linked_def by simp
  next
    assume k: "\<forall>k. w \<noteq> Firing k" "expiryOf m = expiryOf (expiry ?n)"
    have c: "node_cell ?n' = node_cell ?n" using k(2) by (simp add: node_cell_def fun_eq_iff)
    have "free_key s k'" if "free_key ?s k'" for k' using that assms(2) by (auto simp: free_key_def)
    then show ?thesis using d(2,5,6) c inv k(1) assms(4) unfolding linked_def by simp
  qed
qed

lemma linked_expired:
  assumes "linked s q" and "cs_sweeper s = Firing k"
  shows "\<exists>q'. perform_all [Key_expired (cs_clock s) k] q = Some q' \<and>
    linked (s\<lparr>cs_node := (cs_node s)\<lparr>store := fst (kv_del (store (cs_node s)) k)\<rparr>, cs_sweeper := Checking\<rparr>) q'"
proof -
  let ?n' = "(cs_node s)\<lparr>store := fst (kv_del (store (cs_node s)) k)\<rparr>" and ?q' = "expire_key k q"
  let ?s = "s\<lparr>cs_node := ?n', cs_sweeper := Checking\<rparr>"
  note d = linkedD [OF assms(1)]
  obtain v w where f: "node_cell (cs_node s) k = (v, None)" "node_cell q k = (v, Some w)" "w \<le> cs_clock s" using d(7) [OF assms(2)] by blast
  have i: "store_inv (store (cs_node s))" "store_inv (store q)" using d(1,2) by (simp_all add: sound_node_def node_inv_def)
  have inv: "sound_node ?n'" "sound_node ?q'"
    using d(1,2) store_inv_del heap_covers_cancel by (simp_all add: sound_node_def node_inv_def expire_key_def)
  have "expiryOf (expiry (cs_node s)) k = None" using f(1) by (simp add: node_cell_def)
  then have c: "node_cell ?n' = (node_cell (cs_node s))(k := (None, None))" "node_cell ?q' = (node_cell q)(k := (None, None))"
    using contents_del [OF i(1)] contents_del [OF i(2)] by (auto simp: node_cell_def expire_key_def expiryOf_fun fun_eq_iff)
  have p: "perform_all [Key_expired (cs_clock s) k] q = Some ?q'" using f(2,3) by (simp add: node_cell_def)
  have o: "cmd_key cmd \<noteq> k" if "cs_threads s i = Some (cmd, res)" for i cmd res
    using one_per_keyD(2) [OF d(4) that] assms(2) by auto
  have "one_per_key ?s" using d(4) by (simp add: one_per_key_def)
  moreover have "node_cell ?n' k' = node_cell ?q' k'" if "free_key ?s k'" for k'
    using c d(5) [of k'] that assms(2) by (cases "k' = k") (auto simp: free_key_def)
  ultimately have "linked ?s ?q'"
    using d(6) o c inv unfolding linked_def by (simp add: wait_covers_def)
  with p show ?thesis by blast
qed

lemma linked_tick: "linked s q \<Longrightarrow> cs_clock s \<le> t \<Longrightarrow> linked (s\<lparr>cs_clock := t\<rparr>) q"
  unfolding linked_def by (auto simp: free_key_def one_per_key_def)

lemma linked_step:
  assumes "linked s q" and "access_step s es s'" and "one_per_key s'"
    and "\<And>now cmd r. Command_done now cmd r \<in> set es \<Longrightarrow> free_key s' (cmd_key cmd)"
  shows "\<exists>q'. perform_all es q = Some q' \<and> linked s' q'"
  using assms(2)
proof cases
  case (ac_whole i cmd n' r)
  have "free_key s (cmd_key cmd)" using assms(4) [of "cs_clock s" cmd r] ac_whole(1,2) by (simp add: free_key_def)
  with linked_whole [OF assms(1) ac_whole(3-5)] ac_whole(1,2) show ?thesis by simp
next
  case (ac_begin i cmd n' res)
  then show ?thesis using linked_begin [OF assms(1) ac_begin(3-6)] assms(3) by simp
next
  case (ac_next i cmd res n' res')
  then show ?thesis using linked_next [OF assms(1) ac_next(3-5)] by simp
next
  case (ac_finish i cmd res n' r)
  then show ?thesis using linked_finish [OF assms(1) ac_finish(3,4)] by simp
next
  case (ac_sweep m w)
  then show ?thesis using linked_sweep [OF assms(1) ac_sweep(3,4)] assms(3) by simp
next
  case (ac_expired k)
  then show ?thesis using linked_expired [OF assms(1) ac_expired(3)] by simp
next
  case (ac_tick t)
  then show ?thesis using linked_tick [OF assms(1)] by simp
qed

section \<open>Two writers\<close>

abbreviation put :: "key \<Rightarrow> val \<Rightarrow> Command" where
  "put k v \<equiv> mk_command ''SET'' [k, v]"

abbreviation put_ex :: "key \<Rightarrow> val \<Rightarrow> string \<Rightarrow> Command" where
  "put_ex k v s \<equiv> mk_command ''SET'' [k, v, ''EX'', s]"

lemma put_begin: "begin_command (put k v) n =
    (n\<lparr>totalCommands := totalCommands n + 1, store := kv_set (store n) k v\<rparr>, ThenCancel k Reply_ok)"
  by (simp add: begin_command_def begin_SET_def text_simps)

lemma put_ex_begin:
  assumes "parsePositiveSeconds secs = Some x"
  shows "begin_command (put_ex k v secs) n =
    (n\<lparr>totalCommands := totalCommands n + 1, store := kv_set (store n) k v\<rparr>, ThenSchedule k x Reply_ok)"
proof -
  have "equalsIgnoreCase ''EX'' ''EX''" by code_simp
  with assms show ?thesis by (simp add: begin_command_def begin_SET_def text_simps)
qed

lemma put_data: "data_command (put k v)" "data_command (put_ex k v secs)"
  by (simp_all add: data_command_def text_simps)

text \<open>
  A plain \<^verbatim>\<open>SET\<close> and one with an expiry time: the plain one writes first, the other writes
  and schedules, and the plain one cancels last.
\<close>

definition crossed :: "node \<Rightarrow> key \<Rightarrow> val \<Rightarrow> key \<Rightarrow> val \<Rightarrow> nanos \<Rightarrow> int \<Rightarrow> node" where
  "crossed n k v k' v' now x =
     n\<lparr>totalCommands := totalCommands n + 1 + 1, store := kv_set (kv_set (store n) k v) k' v',
       expiry := cancel (schedule (expiry n) k' (deadline_after now x)) k\<rparr>"

lemma crossed_steps:
  assumes "parsePositiveSeconds secs = Some x" and "cs_threads s 0 = None" and "cs_threads s 1 = None"
  obtains s1 s2 s3 where "access_step s [] s1" and "access_step s1 [] s2"
    and "access_step s2 [Command_done (cs_clock s) (put_ex k' v' secs) Reply_ok] s3"
    and "access_step s3 [Command_done (cs_clock s) (put k v) Reply_ok] (s\<lparr>cs_node := crossed (cs_node s) k v k' v' (cs_clock s) x\<rparr>)"
    and "cs_threads s1 = (cs_threads s)(0 \<mapsto> (put k v, ThenCancel k Reply_ok))"
    and "cs_threads s2 = (cs_threads s)(0 \<mapsto> (put k v, ThenCancel k Reply_ok), 1 \<mapsto> (put_ex k' v' secs, ThenSchedule k' x Reply_ok))"
    and "cs_threads s3 = (cs_threads s)(0 \<mapsto> (put k v, ThenCancel k Reply_ok))"
    and "cs_sweeper s1 = cs_sweeper s" and "cs_sweeper s2 = cs_sweeper s" and "cs_sweeper s3 = cs_sweeper s"
proof -
  let ?n = "cs_node s"
  let ?n1 = "?n\<lparr>totalCommands := totalCommands ?n + 1, store := kv_set (store ?n) k v\<rparr>"
  let ?n2 = "?n1\<lparr>totalCommands := totalCommands ?n + 1 + 1, store := kv_set (kv_set (store ?n) k v) k' v'\<rparr>"
  let ?n3 = "?n2\<lparr>expiry := schedule (expiry ?n) k' (deadline_after (cs_clock s) x)\<rparr>"
  let ?t1 = "(cs_threads s)(0 \<mapsto> (put k v, ThenCancel k Reply_ok))"
  let ?t2 = "?t1(1 \<mapsto> (put_ex k' v' secs, ThenSchedule k' x Reply_ok))"
  have 1: "access_step s [] (s\<lparr>cs_node := ?n1, cs_threads := ?t1\<rparr>)"
    by (rule ac_begin [OF assms(2)]) (simp_all add: put_data put_begin)
  have 2: "access_step (s\<lparr>cs_node := ?n1, cs_threads := ?t1\<rparr>) [] (s\<lparr>cs_node := ?n2, cs_threads := ?t2\<rparr>)"
    using ac_begin [of "s\<lparr>cs_node := ?n1, cs_threads := ?t1\<rparr>" 1 "put_ex k' v' secs"] assms(3) put_ex_begin [OF assms(1)]
    by (simp add: put_data)
  have 3: "access_step (s\<lparr>cs_node := ?n2, cs_threads := ?t2\<rparr>) [Command_done (cs_clock s) (put_ex k' v' secs) Reply_ok]
      (s\<lparr>cs_node := ?n3, cs_threads := ?t1\<rparr>)"
    using ac_finish [of "s\<lparr>cs_node := ?n2, cs_threads := ?t2\<rparr>" 1 "put_ex k' v' secs"] assms(3)
    by (simp add: next_access_def fun_upd_twist fun_upd_idem)
  have 4: "access_step (s\<lparr>cs_node := ?n3, cs_threads := ?t1\<rparr>) [Command_done (cs_clock s) (put k v) Reply_ok]
      (s\<lparr>cs_node := crossed ?n k v k' v' (cs_clock s) x\<rparr>)"
    using ac_finish [of "s\<lparr>cs_node := ?n3, cs_threads := ?t1\<rparr>" 0 "put k v"] assms(2)
    by (simp add: next_access_def fun_upd_idem crossed_def)
  show thesis by (rule that [OF 1 2 3 4]) simp_all
qed

lemma ten_seconds: "parsePositiveSeconds ''10'' = Some 10"
  by code_simp

section \<open>Properties\<close>

text \<open>
  C7: commands on different keys are atomic. Take any interleaving of the accesses of data commands and
  of the sweeper in which a key is used by one of them at a time. Then the commands completed, with
  their replies, and the expiries, all of them due, are those of performing them whole in the order of
  completion; and wherever nothing is under way, the values and deadlines are the same.
\<close>

theorem commands_linearize:
  assumes "calm_run n0 t0 es s" and "node_inv n0" and "kv_capacity (store n0) = 0"
  shows "\<exists>n. perform_all es n0 = Some n \<and> (\<forall>k. free_key s k \<longrightarrow>
    contents (store (cs_node s)) k = contents (store n) k \<and> expiryOf (expiry (cs_node s)) k = expiryOf (expiry n) k)"
proof -
  have "\<exists>q. perform_all es n0 = Some q \<and> linked s q"
    using assms(1)
  proof (induction rule: calm_run.induct)
    case cr_start
    have "linked (start_system n0 t0) n0"
      using assms(2,3) by (simp add: linked_def sound_node_def start_system_def wait_covers_def one_per_key_def)
    then show ?case by simp
  next
    case (cr_step es s es' s')
    then obtain q where "perform_all es n0 = Some q" "linked s q" by blast
    with linked_step [OF _ cr_step(2,3,4), of q] show ?case by (simp add: perform_all_append)
  qed
  then obtain q where q: "perform_all es n0 = Some q" "linked s q" by blast
  have "contents (store (cs_node s)) k = contents (store q) k \<and> expiryOf (expiry (cs_node s)) k = expiryOf (expiry q) k" if "free_key s k" for k
    using linkedD(5) [OF q(2) that] by (simp add: node_cell_def)
  with q(1) show ?thesis by blast
qed

theorem commands_linearize_witness:
  "\<exists>s n. calm_run (new_node 0 blank_disk) 5 [Command_done 5 (put_ex ''b'' ''2'' ''10'') Reply_ok, Command_done 5 (put ''a'' ''1'') Reply_ok] s \<and>
     perform_all [Command_done 5 (put_ex ''b'' ''2'' ''10'') Reply_ok, Command_done 5 (put ''a'' ''1'') Reply_ok] (new_node 0 blank_disk) = Some n \<and>
     contents (store (cs_node s)) ''b'' = contents (store n) ''b'' \<and> expiryOf (expiry (cs_node s)) ''b'' = expiryOf (expiry n) ''b''"
proof -
  let ?n = "new_node 0 blank_disk" and ?e1 = "Command_done 5 (put_ex ''b'' ''2'' ''10'') Reply_ok" and ?e2 = "Command_done 5 (put ''a'' ''1'') Reply_ok"
  let ?s = "start_system ?n 5"
  have z: "cs_threads ?s 0 = None" "cs_threads ?s 1 = None" "cs_clock ?s = 5" "cs_threads ?s = (\<lambda>i. None)" "cs_sweeper ?s = Checking"
    by (simp_all add: start_system_def)
  from crossed_steps [OF ten_seconds z(1,2), of "''b''" "''2''" "''a''" "''1''", unfolded z(3-5)] obtain s1 s2 s3 where
    st: "access_step ?s [] s1" "access_step s1 [] s2" "access_step s2 [?e1] s3"
      "access_step s3 [?e2] (?s\<lparr>cs_node := crossed (cs_node ?s) ''a'' ''1'' ''b'' ''2'' 5 10\<rparr>)"
    and th: "cs_threads s1 = [0 \<mapsto> (put ''a'' ''1'', ThenCancel ''a'' Reply_ok)]"
      "cs_threads s2 = [0 \<mapsto> (put ''a'' ''1'', ThenCancel ''a'' Reply_ok), 1 \<mapsto> (put_ex ''b'' ''2'' ''10'', ThenSchedule ''b'' 10 Reply_ok)]"
      "cs_threads s3 = [0 \<mapsto> (put ''a'' ''1'', ThenCancel ''a'' Reply_ok)]"
      "cs_sweeper s1 = Checking" "cs_sweeper s2 = Checking" "cs_sweeper s3 = Checking" by metis
  let ?s4 = "?s\<lparr>cs_node := crossed (cs_node ?s) ''a'' ''1'' ''b'' ''2'' 5 10\<rparr>"
  note c = one_per_key_def free_key_def cmd_key_def start_system_def
  have "calm_run ?n 5 ([] @ []) s1" by (rule cr_step [OF cr_start st(1)]) (auto simp: c th)
  then have "calm_run ?n 5 (([] @ []) @ []) s2" by (rule cr_step [OF _ st(2)]) (auto simp: c th)
  then have "calm_run ?n 5 ((([] @ []) @ []) @ [?e1]) s3" by (rule cr_step [OF _ st(3)]) (auto simp: c th)
  then have "calm_run ?n 5 (((([] @ []) @ []) @ [?e1]) @ [?e2]) ?s4" by (rule cr_step [OF _ st(4)]) (auto simp: c)
  then have r: "calm_run ?n 5 [?e1, ?e2] ?s4" by simp
  have i: "node_inv ?n" "kv_capacity (store ?n) = 0" by (simp, simp add: new_node_def)
  have "free_key ?s4 ''b''" by (simp add: c)
  with commands_linearize [OF r i] r show ?thesis by blast
qed

text \<open>
  Two commands on one key are not atomic. A plain \<^verbatim>\<open>SET\<close> and a \<^verbatim>\<open>SET\<close> with an expiry time, both
  acknowledged, can leave the value of the second without its deadline, which performing them whole in
  either order does not do: a value that was to expire stays for good.
\<close>

theorem crossed_sets_lose_deadline:
  assumes "node_inv n" and "v \<noteq> v'"
  shows "\<exists>s. access_run n t [Command_done t (put_ex k v' ''10'') Reply_ok, Command_done t (put k v) Reply_ok] s \<and>
    node_cell (cs_node s) k = (Some v', None) \<and>
    node_cell (fst (execute t (put k v) (fst (execute t (put_ex k v' ''10'') n)))) k = (Some v, None) \<and>
    node_cell (fst (execute t (put_ex k v' ''10'') (fst (execute t (put k v) n)))) k = (Some v', Some (deadline_after t 10))"
proof -
  let ?s = "start_system n t"
  let ?s4 = "?s\<lparr>cs_node := crossed (cs_node ?s) k v k v' t 10\<rparr>"
  have z: "cs_threads ?s 0 = None" "cs_threads ?s 1 = None" "cs_clock ?s = t" "cs_node ?s = n" by (simp_all add: start_system_def)
  have "access_run n t [Command_done t (put_ex k v' ''10'') Reply_ok, Command_done t (put k v) Reply_ok] ?s4"
  proof (rule crossed_steps [OF ten_seconds z(1,2), of k v' k v, unfolded z(3)])
    fix s1 s2 s3
    assume st: "access_step ?s [] s1" "access_step s1 [] s2" "access_step s2 [Command_done t (put_ex k v' ''10'') Reply_ok] s3"
      "access_step s3 [Command_done t (put k v) Reply_ok] ?s4"
    from ar_step [OF ar_step [OF ar_step [OF ar_step [OF ar_start st(1)] st(2)] st(3)] st(4)] show ?thesis by simp
  qed
  moreover have i: "store_inv (store n)" using assms by (simp add: node_inv_def)
  have set: "contents (kv_set s k v) k = Some v" "store_inv (kv_set s k v)" if "store_inv s" for s k v
    using that contents_set_same store_inv_set by (simp_all add: kv_set_def)
  have ex: "execute t (put_ex k v' ''10'') m = (m\<lparr>totalCommands := totalCommands m + 1, store := kv_set (store m) k v',
      expiry := schedule (expiry m) k (deadline_after t 10)\<rparr>, Reply_ok)" for m
  proof -
    have "equalsIgnoreCase ''EX'' ''EX''" by code_simp
    then show ?thesis by (simp add: execute_def exec_SET_def ten_seconds text_simps)
  qed
  have pl: "execute t (put k v) m = (m\<lparr>totalCommands := totalCommands m + 1, store := kv_set (store m) k v, expiry := cancel (expiry m) k\<rparr>, Reply_ok)" for m
    by (simp add: execute_def exec_SET_def text_simps)
  ultimately show ?thesis
    using set i z(4) by (intro exI [of _ ?s4]) (simp add: node_cell_def crossed_def ex pl expiry_simps)
qed

theorem crossed_sets_lose_deadline_witness:
  "\<exists>s. access_run (new_node 0 blank_disk) 0 [Command_done 0 (put_ex ''k'' ''w'' ''10'') Reply_ok, Command_done 0 (put ''k'' ''v'') Reply_ok] s \<and>
    node_cell (cs_node s) ''k'' = (Some ''w'', None)"
proof -
  have "node_inv (new_node 0 blank_disk)" "''v'' \<noteq> ''w''" by simp_all
  from crossed_sets_lose_deadline [OF this, of 0 "''k''"] show ?thesis by blast
qed

end
