(* ===== verification/Router_Threads.thy ===== *)
theory Router_Threads
  imports Router
begin

text \<open>
  Client connections of the router side by side. \<^verbatim>\<open>Router::forward\<close> runs in the thread of each client
  in three sections: it reads the active address of the shard (under the table's mutex), finds or
  creates the backend (under the mutex of the map), and then, holding the backend's own mutex, turns
  to the address, connects, sends the line and receives the reply. The health checker's thread changes the
  table in between. The lemmas show that every interleaving amounts to forwarding one line after the
  other, each with the table of the moment it read its address, and what that moment leaves open.
\<close>

section \<open>Sections\<close>

definition fresh_backend :: BackendConnection where
  "fresh_backend = \<lparr>be_client = new_TcpClient, be_address = []\<rparr>"

text \<open>The section under the backend's mutex.\<close>

definition talk :: "network \<Rightarrow> string \<Rightarrow> wire_line \<Rightarrow> BackendConnection \<Rightarrow> BackendConnection \<times> wire_line option" where
  "talk net a line b =
     (case ensure_connected net a (retarget a b) of
        (b1, False) \<Rightarrow> (b1, None)
      | (b1, True) \<Rightarrow> exchange line b1)"

definition backend_of :: "Router \<Rightarrow> string \<Rightarrow> BackendConnection" where
  "backend_of r i = (case Mapping.lookup (rt_backends r) i of None \<Rightarrow> fresh_backend | Some b \<Rightarrow> b)"

text \<open>Where the thread of a client is: with the table its address was read from, for the account of the run.\<close>

datatype fwd_pos =
    FwIdle
  | FwAddress ShardTopology string string wire_line
  | FwBackend ShardTopology string string wire_line

record router_system =
  rsy_router :: Router
  rsy_topology :: ShardTopology
  rsy_clients :: "nat \<Rightarrow> fwd_pos"

type_synonym served = "network \<times> ShardTopology \<times> string \<times> wire_line \<times> wire_line option"

inductive router_step :: "router_system \<Rightarrow> served list \<Rightarrow> router_system \<Rightarrow> bool" where
  ro_address: "rsy_clients s c = FwIdle \<Longrightarrow> activeAddressFor (rsy_topology s) i = a \<Longrightarrow> a \<noteq> [] \<Longrightarrow>
    router_step s [] (s\<lparr>rsy_clients := (rsy_clients s)(c := FwAddress (rsy_topology s) i a line)\<rparr>)"
| ro_unknown: "rsy_clients s c = FwIdle \<Longrightarrow> activeAddressFor (rsy_topology s) i = [] \<Longrightarrow>
    router_step s [(net, rsy_topology s, i, line, None)] s"
| ro_backend: "rsy_clients s c = FwAddress t i a line \<Longrightarrow> backendFor (rsy_router s) i = (r', b) \<Longrightarrow>
    router_step s [] (s\<lparr>rsy_router := r', rsy_clients := (rsy_clients s)(c := FwBackend t i a line)\<rparr>)"
| ro_talk: "rsy_clients s c = FwBackend t i a line \<Longrightarrow> talk net a line (backend_of (rsy_router s) i) = (b', response) \<Longrightarrow>
    router_step s [(net, t, i, line, response)]
      (s\<lparr>rsy_router := put_backend (rsy_router s) i b', rsy_clients := (rsy_clients s)(c := FwIdle)\<rparr>)"
| ro_table: "router_step s [] (s\<lparr>rsy_topology := topo_step e (rsy_topology s)\<rparr>)"

inductive router_run :: "Router \<Rightarrow> ShardTopology \<Rightarrow> served list \<Rightarrow> router_system \<Rightarrow> bool" for r0 t0 where
  ru_start: "router_run r0 t0 [] \<lparr>rsy_router = r0, rsy_topology = t0, rsy_clients = \<lambda>c. FwIdle\<rparr>"
| ru_step: "router_run r0 t0 es s \<Longrightarrow> router_step s es' s' \<Longrightarrow> router_run r0 t0 (es @ es') s'"

text \<open>One line after the other, with the replies compared.\<close>

fun serial :: "served list \<Rightarrow> Router \<Rightarrow> Router option" where
  "serial [] r = Some r"
| "serial ((net, t, i, line, response) # es) r =
     (case forward net t r i line of (r', response') \<Rightarrow> if response' = response then serial es r' else None)"

section \<open>Forwarding in terms of backends\<close>

lemma backend_of_put: "backend_of (put_backend r i b) = (backend_of r)(i := b)"
  by (rule ext) (simp add: backend_of_def put_backend_def lookup_update_if)

lemma backend_of_backendFor:
  "backendFor r i = (r', b) \<Longrightarrow> backend_of r' = backend_of r \<and> b = backend_of r i"
  by (cases "Mapping.lookup (rt_backends r) i")
    (auto simp: backendFor_def backend_of_def fresh_backend_def lookup_update_if Let_def fun_eq_iff)

lemma forward_talk:
  assumes "activeAddressFor t i \<noteq> []" and "talk net (activeAddressFor t i) line (backend_of r i) = (b', response)"
  shows "\<exists>r'. forward net t r i line = (r', response) \<and> backend_of r' = (backend_of r)(i := b')"
proof -
  obtain r1 b0 where b0: "backendFor r i = (r1, b0)" by fastforce
  note k = backend_of_backendFor [OF b0]
  obtain b1 ok where b1: "ensure_connected net (activeAddressFor t i) (retarget (activeAddressFor t i) b0) = (b1, ok)" by fastforce
  show ?thesis
    using assms k by (cases ok) (auto simp: forward_def b0 b1 talk_def Let_def backend_of_put split: prod.split)
qed

lemma forward_cong:
  assumes "backend_of r = backend_of q" and "forward net t r i line = (r', response)"
  shows "\<exists>q'. forward net t q i line = (q', response) \<and> backend_of q' = backend_of r'"
proof (cases "activeAddressFor t i = []")
  case True
  then show ?thesis using assms by (auto simp: forward_def)
next
  case False
  obtain b' resp where k: "talk net (activeAddressFor t i) line (backend_of r i) = (b', resp)" by fastforce
  from forward_talk [OF False k] assms(2) have "resp = response" "backend_of r' = (backend_of r)(i := b')" by auto
  with forward_talk [OF False, of net line q b' resp] k assms(1) show ?thesis by auto
qed

lemma serial_append: "serial es r = Some r' \<Longrightarrow> serial (es @ es') r = serial es' r'"
  by (induction es r rule: serial.induct) (auto split: prod.splits if_splits)

text \<open>An address a thread holds was the active one of its shard in the table it was read from.\<close>

definition holds_read_address :: "fwd_pos \<Rightarrow> bool" where
  "holds_read_address p = (case p of FwIdle \<Rightarrow> True
     | FwAddress t i a line \<Rightarrow> a \<noteq> [] \<and> a = activeAddressFor t i
     | FwBackend t i a line \<Rightarrow> a \<noteq> [] \<and> a = activeAddressFor t i)"

lemma router_run_address: "router_run r0 t0 es s \<Longrightarrow> holds_read_address (rsy_clients s c)"
proof (induction arbitrary: c rule: router_run.induct)
  case (ru_step es s es' s')
  have h: "holds_read_address (rsy_clients s c)" for c by (rule ru_step(3))
  from ru_step(2) show ?case
  proof cases
    case (ro_backend c' t i a line r' b)
    then show ?thesis using h [of c] h [of c'] by (auto simp: holds_read_address_def)
  qed (use h [of c] in \<open>auto simp: holds_read_address_def\<close>)
qed (simp add: holds_read_address_def)

section \<open>Properties\<close>

text \<open>
  C31: threads of the router do not mix up replies. However any number of client threads and the health
  checker interleave, the lines forwarded have the effect and the replies of forwarding them one
  after the other, in the order in which their threads held the backend's mutex, each with the shard
  table as it was when the thread read the address.
\<close>

theorem forwards_serialize:
  assumes "router_run r0 t0 es s"
  shows "\<exists>r. serial es r0 = Some r \<and> backend_of r = backend_of (rsy_router s)"
  using assms
proof (induction rule: router_run.induct)
  case (ru_step es s es' s')
  then obtain r where r: "serial es r0 = Some r" "backend_of r = backend_of (rsy_router s)" by blast
  from ru_step(2) have "\<exists>r'. serial es' r = Some r' \<and> backend_of r' = backend_of (rsy_router s')"
  proof cases
    case (ro_unknown c i net line)
    then show ?thesis using r(2) by (simp add: forward_def)
  next
    case (ro_backend c t i a line r' b)
    then show ?thesis using r(2) backend_of_backendFor by auto
  next
    case (ro_talk c t i a line net b' response)
    have "a \<noteq> [] \<and> a = activeAddressFor t i"
      using router_run_address [OF ru_step(1), of c] unfolding ro_talk(3) holds_read_address_def by auto
    with forward_talk [of t i net line r b' response] ro_talk r(2) obtain r' where
      "forward net t r i line = (r', response)" "backend_of r' = (backend_of r)(i := b')" by auto
    with ro_talk r(2) show ?thesis by (simp add: backend_of_put)
  qed (use r(2) in simp_all)
  with serial_append [OF r(1)] show ?case by simp
qed simp

text \<open>A client forwards a line while a failover happens between its reading of the address and its turn at the backend.\<close>

definition late_failover :: "network \<Rightarrow> wire_line \<Rightarrow> router_system" where
  "late_failover net line = \<lparr>rsy_router = put_backend (fst (backendFor (new_Router one_shard) ''s1'')) ''s1''
       (fst (talk net ''p:1'' line fresh_backend)),
     rsy_topology = fst (promoteReplica one_shard ''s1''), rsy_clients = \<lambda>c. FwIdle\<rparr>"

lemma late_failover_run:
  assumes "talk net ''p:1'' line fresh_backend = (b', response)"
  shows "router_run (new_Router one_shard) one_shard [(net, one_shard, ''s1'', line, response)] (late_failover net line)"
proof -
  let ?r = "new_Router one_shard" and ?t = "one_shard"
  let ?R = "router_run ?r ?t"
  obtain r1 b where b: "backendFor ?r ''s1'' = (r1, b)" by fastforce
  have f: "backend_of r1 ''s1'' = fresh_backend"
    using backend_of_backendFor [OF b] by (simp add: backend_of_def new_Router_def)
  have a: "activeAddressFor ?t ''s1'' = ''p:1''"
    by (simp add: one_shard_def activeAddressFor_def topo_simps new_ShardNode_def)
  note s = ru_step [of ?r ?t]
  have "?R [] \<lparr>rsy_router = ?r, rsy_topology = ?t, rsy_clients = \<lambda>c. FwIdle\<rparr>" by (rule ru_start)
  from s [OF this ro_address [of _ 0 "''s1''" "''p:1''" line]] a
  have "?R [] \<lparr>rsy_router = ?r, rsy_topology = ?t, rsy_clients = (\<lambda>c. FwIdle)(0 := FwAddress ?t ''s1'' ''p:1'' line)\<rparr>" by simp
  from s [OF this ro_table [of _ "Promote ''s1''"]]
  have "?R [] \<lparr>rsy_router = ?r, rsy_topology = fst (promoteReplica ?t ''s1''), rsy_clients = (\<lambda>c. FwIdle)(0 := FwAddress ?t ''s1'' ''p:1'' line)\<rparr>"
    by simp
  from s [OF this ro_backend [of _ 0 ?t "''s1''" "''p:1''" line r1 b]] b
  have "?R [] \<lparr>rsy_router = r1, rsy_topology = fst (promoteReplica ?t ''s1''), rsy_clients = (\<lambda>c. FwIdle)(0 := FwBackend ?t ''s1'' ''p:1'' line)\<rparr>"
    by simp
  from s [OF this ro_talk [of _ 0 ?t "''s1''" "''p:1''" line net b' response]] assms f
  show ?thesis by (simp add: late_failover_def b fun_upd_idem)
qed

text \<open>
  A failover does not stop a request under way. The address is read before the backend's mutex is
  taken; when the shard is failed over in between, the line is still sent to the node that has just
  been given up, and its acknowledgement is passed on to the client.
\<close>

theorem request_reaches_failed_over_primary:
  "\<exists>s net b k. router_run (new_Router one_shard) one_shard [(net, one_shard, ''s1'', ''SET k v'', Some ''+OK'')] s \<and>
     activeAddressFor (rsy_topology s) ''s1'' = ''r:2'' \<and> backend_of (rsy_router s) ''s1'' = b \<and>
     be_address b = ''p:1'' \<and> cl_sock (be_client b) = Some k \<and> sk_out k = ''SET k v'' @ [LF]"
proof -
  let ?net = "\<lambda>h p. Some \<lparr>sk_rx = [''+OK'' @ [LF]], sk_tx = [100], sk_out = []\<rparr>"
  let ?b = "fst (talk ?net ''p:1'' ''SET k v'' fresh_backend)"
  have t: "snd (talk ?net ''p:1'' ''SET k v'' fresh_backend) = Some ''+OK''" "be_address ?b = ''p:1''"
    "map_option sk_out (cl_sock (be_client ?b)) = Some (''SET k v'' @ [LF])" by code_simp+
  then obtain k where k: "cl_sock (be_client ?b) = Some k" "sk_out k = ''SET k v'' @ [LF]" by auto
  have "talk ?net ''p:1'' ''SET k v'' fresh_backend = (?b, Some ''+OK'')" using t(1) by (simp add: prod_eq_iff)
  note r = late_failover_run [OF this]
  have "activeAddressFor (rsy_topology (late_failover ?net ''SET k v'')) ''s1'' = ''r:2''"
    by (simp add: late_failover_def one_shard_def activeAddressFor_def topo_simps new_ShardNode_def)
  moreover have "backend_of (rsy_router (late_failover ?net ''SET k v'')) ''s1'' = ?b"
    by (simp add: late_failover_def backend_of_put)
  ultimately show ?thesis using r t(2) k
    by (intro exI [of _ "late_failover ?net ''SET k v''"] exI [of _ ?net] exI [of _ ?b] exI [of _ k]) simp
qed

theorem forwards_serialize_witness:
  "\<exists>net r. serial [(net, one_shard, ''s1'', ''SET k v'', Some ''+OK'')] (new_Router one_shard) = Some r \<and> be_address (backend_of r ''s1'') = ''p:1''"
proof -
  let ?net = "\<lambda>h p. Some \<lparr>sk_rx = [''+OK'' @ [LF]], sk_tx = [100], sk_out = []\<rparr>"
  let ?b = "fst (talk ?net ''p:1'' ''SET k v'' fresh_backend)"
  have t: "snd (talk ?net ''p:1'' ''SET k v'' fresh_backend) = Some ''+OK''" "be_address ?b = ''p:1''" by code_simp+
  then have "talk ?net ''p:1'' ''SET k v'' fresh_backend = (?b, Some ''+OK'')" by (simp add: prod_eq_iff)
  from forwards_serialize [OF late_failover_run [OF this]] obtain r where
    "serial [(?net, one_shard, ''s1'', ''SET k v'', Some ''+OK'')] (new_Router one_shard) = Some r"
    "backend_of r = backend_of (rsy_router (late_failover ?net ''SET k v''))" by blast
  with t(2) show ?thesis
    by (intro exI [of _ ?net] exI [of _ r]) (simp add: late_failover_def backend_of_put del: serial.simps)
qed

end
