(* ===== verification/Cluster.thy ===== *)
theory Cluster
  imports Router_Threads Server_Durability Command_Accesses
begin

text \<open>
  The router and the nodes behind it as one system. A client sends request lines to the router, the
  router forwards each by its key to the active node of a shard (\<^verbatim>\<open>Router::handleConnection\<close>), the node's
  connection handler answers it (\<^verbatim>\<open>handleConnection\<close> of \<^verbatim>\<open>server_main.cpp\<close>), and the reply travels back.
  The network carries the bytes a node wrote, in any chunks, or loses the exchange. The lemmas show
  that the nodes together hold one map, and that clients of the router see commands on that map.
\<close>

section \<open>State\<close>

text \<open>The nodes by their addresses.\<close>

record cluster =
  cu_router :: Router
  cu_nodes :: "string \<Rightarrow> server"

text \<open>The bytes on their way to the router, on the connection it has or on the one it opens.\<close>

definition inbox :: "string list \<Rightarrow> BackendConnection \<Rightarrow> BackendConnection" where
  "inbox chunks b = b\<lparr>be_client := (be_client b)\<lparr>cl_sock := map_option (\<lambda>k. k\<lparr>sk_rx := chunks\<rparr>) (cl_sock (be_client b))\<rparr>\<rparr>"

definition carrying :: "string list \<Rightarrow> network \<Rightarrow> network" where
  "carrying chunks net = (\<lambda>host port. map_option (\<lambda>k. k\<lparr>sk_rx := chunks\<rparr>) (net host port))"

definition incoming :: "string \<Rightarrow> string list \<Rightarrow> Router \<Rightarrow> Router" where
  "incoming i chunks r = put_backend r i (inbox chunks (backend_of r i))"

text \<open>The command a line is forwarded for, if it is.\<close>

definition forwarded :: "wire_line \<Rightarrow> Command option" where
  "forwarded line = (case parse line of Inl e \<Rightarrow> None
     | Inr cmd \<Rightarrow> if cmd_type cmd \<in> {ROUTE, NODES} \<or> cmd_args cmd = [] then None else Some cmd)"

definition home :: "(string \<Rightarrow> string) \<Rightarrow> cluster \<Rightarrow> key \<Rightarrow> string" where
  "home addr c k = addr (getNode (rt_ring (cu_router c)) k)"

section \<open>Requests\<close>

type_synonym request = "nanos \<times> wire_line \<times> wire_line option"

text \<open>
  A request with the clock of the node and the reply of the router: answered by the router itself;
  forwarded, handled by the node and its reply delivered; or lost, before or after the node handled
  it. The shard table may change from request to request, but not the active addresses.
\<close>

inductive cluster_step :: "(string \<Rightarrow> string) \<Rightarrow> cluster \<Rightarrow> request \<Rightarrow> cluster \<Rightarrow> bool" for addr where
  cs_own: "forwarded line = None \<Longrightarrow> activeAddressFor t = addr \<Longrightarrow> router_answer net t line (cu_router c) = (r', reply) \<Longrightarrow>
    cluster_step addr c (now, line, reply) (c\<lparr>cu_router := r'\<rparr>)"
| cs_served: "forwarded line = Some cmd \<Longrightarrow> activeAddressFor t = addr \<Longrightarrow> a = home addr c (cmd_key cmd) \<Longrightarrow>
    fd \<notin> set (replicaFds (svr_registry (cu_nodes c a))) \<Longrightarrow>
    handle_line now fd (strip_cr line) (cu_nodes c a) = (s', NextLine) \<Longrightarrow>
    sk_out (svr_socks s' fd) = sk_out (svr_socks (cu_nodes c a) fd) @ concat chunks \<Longrightarrow> \<forall>p \<in> set chunks. p \<noteq> [] \<Longrightarrow>
    router_answer (carrying chunks net) t line (incoming (getNode (rt_ring (cu_router c)) (cmd_key cmd)) chunks (cu_router c)) = (r', reply) \<Longrightarrow>
    cluster_step addr c (now, line, reply) \<lparr>cu_router = r', cu_nodes = (cu_nodes c)(a := s')\<rparr>"
| cs_lost: "forwarded line = Some cmd \<Longrightarrow> activeAddressFor t = addr \<Longrightarrow> a = home addr c (cmd_key cmd) \<Longrightarrow>
    fd \<notin> set (replicaFds (svr_registry (cu_nodes c a))) \<Longrightarrow>
    s' = cu_nodes c a \<or> s' = fst (handle_line now fd (strip_cr line) (cu_nodes c a)) \<Longrightarrow>
    router_answer (carrying [] net) t line (incoming (getNode (rt_ring (cu_router c)) (cmd_key cmd)) [] (cu_router c)) = (r', reply) \<Longrightarrow>
    cluster_step addr c (now, line, reply) \<lparr>cu_router = r', cu_nodes = (cu_nodes c)(a := s')\<rparr>"

inductive cluster_run :: "(string \<Rightarrow> string) \<Rightarrow> cluster \<Rightarrow> request list \<Rightarrow> cluster \<Rightarrow> bool" for addr c0 where
  cu_start: "cluster_run addr c0 [] c0"
| cu_step: "cluster_run addr c0 es c \<Longrightarrow> cluster_step addr c e c' \<Longrightarrow> cluster_run addr c0 (es @ [e]) c'"

section \<open>One map\<close>

text \<open>The value and the deadline of a key are those of the node the key is routed to.\<close>

definition cluster_abs :: "(string \<Rightarrow> string) \<Rightarrow> cluster \<Rightarrow> spec_state" where
  "cluster_abs addr c =
     (\<lambda>k. contents (store (svr_node (cu_nodes c (home addr c k)))) k,
      \<lambda>k. expiryOf (expiry (svr_node (cu_nodes c (home addr c k)))) k)"

text \<open>
  What a client may see of one map: the reply and the effect of the command; an error for a command
  that is none; or the answer that the shard is unavailable, with the effect or without.
\<close>

definition unavailable :: "wire_line \<Rightarrow> bool" where
  "unavailable reply \<longleftrightarrow> (\<exists>i. reply = Reply_error (''shard '' @ i @ '' unavailable''))"

definition one_map :: "spec_state \<Rightarrow> request \<Rightarrow> spec_state \<Rightarrow> bool" where
  "one_map s e s' = (case e of (now, line, reply) \<Rightarrow>
     (case forwarded line of None \<Rightarrow> s' = s
      | Some cmd \<Rightarrow> (case spec_exec now (cmd_type cmd) (cmd_args cmd) s of
            None \<Rightarrow> s' = s \<and> (\<exists>r. reply = Some r \<and> is_error_reply r)
          | Some (s1, r) \<Rightarrow> reply = Some r \<and> s' = s1 \<or> (\<exists>u. reply = Some u \<and> unavailable u) \<and> s' \<in> {s, s1})))"

fun one_map_run :: "spec_state \<Rightarrow> request list \<Rightarrow> spec_state \<Rightarrow> bool" where
  "one_map_run s [] s' \<longleftrightarrow> s' = s"
| "one_map_run s (e # es) s' \<longleftrightarrow> (\<exists>s1. one_map s e s1 \<and> one_map_run s1 es s')"

text \<open>Lines that leave data and roles to the data commands.\<close>

definition data_line :: "wire_line \<Rightarrow> bool" where
  "data_line line \<longleftrightarrow> safe_line line \<and> (case forwarded line of None \<Rightarrow> True | Some cmd \<Rightarrow> data_command cmd)"

definition node_ready :: "server \<Rightarrow> bool" where
  "node_ready s \<longleftrightarrow> data_ok (svr_node s) \<and> svr_role s = PRIMARY_ROLE"

definition cluster_ok :: "(string \<Rightarrow> string) \<Rightarrow> cluster \<Rightarrow> bool" where
  "cluster_ok addr c \<longleftrightarrow> (\<forall>i. node_ready (cu_nodes c (addr i))) \<and>
     (\<forall>i. cl_buffer (be_client (backend_of (cu_router c) i)) = [])"

section \<open>The exchange\<close>

definition whole_reply :: "string list \<Rightarrow> wire_line \<Rightarrow> bool" where
  "whole_reply chunks r \<longleftrightarrow> (\<forall>p \<in> set chunks. p \<noteq> []) \<and> concat chunks = r @ [LF] \<and> LF \<notin> set r \<and>
     length r \<le> reader_limit \<and> strip_cr r = r"

lemma talk_carrying:
  assumes "cl_buffer (be_client b) = []" and "talk (carrying chunks net) a line (inbox chunks b) = (b', response)"
    and "chunks = [] \<or> whole_reply chunks r"
  shows "cl_buffer (be_client b') = [] \<and> (response = None \<or> response = Some r \<and> chunks \<noteq> [])"
proof -
  obtain b1 ok where b1: "ensure_connected (carrying chunks net) a (retarget a (inbox chunks b)) = (b1, ok)" by fastforce
  have bf: "cl_buffer (be_client b1) = []"
    and rx: "cl_sock (be_client b1) = Some k \<Longrightarrow> sk_rx k = chunks" for k
    using b1 assms(1)
    by (auto simp: ensure_connected_def retarget_def inbox_def tcp_close_def isConnected_def tcp_connect_def carrying_def
        split: if_splits option.splits prod.splits)
  show ?thesis
  proof (cases ok)
    case False
    with assms(2) b1 bf show ?thesis by (auto simp: talk_def)
  next
    case True
    with assms(2) b1 have ex: "exchange line b1 = (b', response)" by (simp add: talk_def)
    obtain k where k: "cl_sock (be_client b1) = Some k"
      using ensure_connected_result [of "carrying chunks net" a "retarget a (inbox chunks b)" b1] b1 True by auto
    obtain k1 sent where w: "writeLine k line = (k1, sent)" by fastforce
    have rx1: "sk_rx k1 = chunks" using writeLine_result [OF w] rx [OF k] by simp
    obtain l bf1 cs where rl: "readLine [] chunks = (l, bf1, cs)" by (metis prod_cases3)
    have l: "l = None \<and> bf1 = [] \<or> l = Some r \<and> bf1 = [] \<and> chunks \<noteq> []"
    proof (cases "chunks = []")
      case True
      with rl show ?thesis by (simp add: readLine.simps)
    next
      case False
      with assms(3) have "whole_reply chunks r" by simp
      with rl False show ?thesis using readLine_found [of chunks "[]" r "[]"] by (auto simp: whole_reply_def)
    qed
    show ?thesis
      using ex l bf by (cases sent; cases l)
        (auto simp: exchange_def sendLine_def receiveLine_def k w rx1 rl tcp_close_def)
  qed
qed

text \<open>A node that can be reached and written to: the reply then comes through.\<close>

definition can_talk :: "network \<Rightarrow> string \<Rightarrow> wire_line \<Rightarrow> BackendConnection \<Rightarrow> bool" where
  "can_talk net a line b \<longleftrightarrow> (case ensure_connected net a (retarget a b) of
     (b1, ok) \<Rightarrow> ok \<and> (case cl_sock (be_client b1) of None \<Rightarrow> False | Some k \<Rightarrow> snd (writeLine k line)))"

lemma talk_answers:
  assumes "cl_buffer (be_client b) = []" and "whole_reply chunks r" and "can_talk (carrying chunks net) a line (inbox chunks b)"
  shows "snd (talk (carrying chunks net) a line (inbox chunks b)) = Some r"
proof -
  obtain b1 ok where b1: "ensure_connected (carrying chunks net) a (retarget a (inbox chunks b)) = (b1, ok)" by fastforce
  with assms(3) obtain k k1 where k: "ok" "cl_sock (be_client b1) = Some k" "writeLine k line = (k1, True)"
    by (cases "cl_sock (be_client b1)") (auto simp: can_talk_def prod_eq_iff)
  have bf: "cl_buffer (be_client b1) = []" and rx: "sk_rx k = chunks"
    using b1 assms(1) k(1,2)
    by (auto simp: ensure_connected_def retarget_def inbox_def tcp_close_def isConnected_def tcp_connect_def carrying_def
        split: if_splits option.splits prod.splits)
  obtain bf1 cs where "readLine [] chunks = (Some r, bf1, cs)"
    using assms(2) readLine_found [of chunks "[]" r "[]"] by (auto simp: whole_reply_def)
  moreover have "sk_rx k1 = chunks" using writeLine_result [OF k(3)] rx by simp
  ultimately show ?thesis
    by (simp add: talk_def b1 k exchange_def sendLine_def receiveLine_def bf)
qed

lemma backend_of_incoming: "backend_of (incoming i chunks r) = (backend_of r)(i := inbox chunks (backend_of r i))"
  by (simp add: incoming_def backend_of_put)

lemma ring_incoming [simp]: "rt_ring (incoming i chunks r) = rt_ring r"
  by (simp add: incoming_def put_backend_def)

lemma ring_forward: "forward net t r i line = (r', response) \<Longrightarrow> rt_ring r' = rt_ring r"
  by (auto simp: forward_def put_backend_def Let_def dest: backendFor_address split: if_splits prod.splits)

lemma ring_answer: "router_answer net t line r = (r', reply) \<Longrightarrow> rt_ring r' = rt_ring r"
  by (auto simp: router_answer_def Let_def dest: ring_forward
      split: if_splits sum.splits ProtocolError.splits list.splits prod.splits option.splits)

text \<open>The router's answer to a forwarded line, and its connections afterwards.\<close>

lemma forwarded_answer:
  assumes "forwarded line = Some cmd" and "cl_buffer (be_client (backend_of r i)) = []"
    and "i = getNode (rt_ring r) (cmd_key cmd)"
    and "router_answer (carrying chunks net) t line (incoming i chunks r) = (r', reply)"
    and "chunks = [] \<or> whole_reply chunks x"
  shows "(\<forall>j. j \<noteq> i \<longrightarrow> backend_of r' j = backend_of r j) \<and> cl_buffer (be_client (backend_of r' i)) = [] \<and>
    ((\<exists>u. reply = Some u \<and> unavailable u) \<or> reply = Some x \<and> chunks \<noteq> [])"
proof -
  let ?q = "incoming i chunks r"
  have p: "parse line = Inr cmd" "cmd_type cmd \<notin> {ROUTE, NODES}" "cmd_args cmd \<noteq> []" "line \<noteq> []"
    using assms(1) by (auto simp: forwarded_def parse_def split: sum.splits if_splits)
  obtain q response where f: "forward (carrying chunks net) t ?q i line = (q, response)" by fastforce
  have a: "r' = q \<and> reply = Some (case response of None \<Rightarrow> Reply_error (''shard '' @ i @ '' unavailable'') | Some y \<Rightarrow> y)"
    using assms(3,4) p f
    by (cases "cmd_args cmd") (auto simp: router_answer_def cmd_key_def split: option.splits)
  show ?thesis
  proof (cases "activeAddressFor t i = []")
    case True
    with f have "q = ?q" "response = None" by (auto simp: forward_def)
    with a assms(2) show ?thesis by (auto simp: backend_of_incoming unavailable_def inbox_def)
  next
    case False
    obtain b' resp where k: "talk (carrying chunks net) (activeAddressFor t i) line (inbox chunks (backend_of r i)) = (b', resp)"
      by fastforce
    have "resp = response" "backend_of q = (backend_of r)(i := b')"
      using forward_talk [OF False, of "carrying chunks net" line ?q b' resp] k f by (auto simp: backend_of_incoming)
    with talk_carrying [OF assms(2) k assms(5)] a show ?thesis by (auto simp: unavailable_def)
  qed
qed

lemma reachable_answer:
  assumes "forwarded line = Some cmd" and "cl_buffer (be_client (backend_of r i)) = []" and "i = getNode (rt_ring r) (cmd_key cmd)"
    and "router_answer (carrying chunks net) t line (incoming i chunks r) = (r', reply)" and "whole_reply chunks x"
    and "activeAddressFor t i \<noteq> []" and "can_talk (carrying chunks net) (activeAddressFor t i) line (inbox chunks (backend_of r i))"
  shows "reply = Some x"
proof -
  let ?q = "incoming i chunks r" and ?a = "activeAddressFor t i"
  have p: "parse line = Inr cmd" "cmd_type cmd \<notin> {ROUTE, NODES}" "cmd_args cmd \<noteq> []" "line \<noteq> []"
    using assms(1) by (auto simp: forwarded_def parse_def split: sum.splits if_splits)
  obtain b' resp where k: "talk (carrying chunks net) ?a line (inbox chunks (backend_of r i)) = (b', resp)" by fastforce
  have "resp = Some x" using talk_answers [OF assms(2,5,7)] k by simp
  moreover obtain q where "forward (carrying chunks net) t ?q i line = (q, resp)"
    using forward_talk [OF assms(6), of "carrying chunks net" line ?q b' resp] k by (auto simp: backend_of_incoming)
  ultimately show ?thesis
    using assms(3,4) p by (cases "cmd_args cmd") (auto simp: router_answer_def cmd_key_def split: option.splits)
qed

lemma own_answer:
  assumes "forwarded line = None" and "router_answer net t line r = (r', reply)"
  shows "r' = r"
  using assms
  by (auto simp: forwarded_def router_answer_def split: if_splits sum.splits ProtocolError.splits list.splits)

section \<open>The node's side\<close>

lemma data_keeps_replication: "data_command cmd \<Longrightarrow> replication (fst (execute now cmd n)) = replication n"
  unfolding data_command_def
  by (elim insertE emptyE) (simp_all add: execute_def Let_def exec_registry split: list.split)

lemma socks_propagate_other: "fd \<notin> set (replicaFds reg) \<Longrightarrow> registry_propagate reg line socks fd = socks fd"
  by (simp add: registry_propagate_def propagate_others)

lemma record_data:
  "node_cell (svr_node (recordAndPropagateIfWrite cmd line r s)) = node_cell (svr_node s)"
  "data_ok (svr_node (recordAndPropagateIfWrite cmd line r s)) = data_ok (svr_node s)"
  "svr_role (recordAndPropagateIfWrite cmd line r s) = svr_role s"
  by (simp_all add: recordAndPropagateIfWrite_def Let_def node_cell_def fun_eq_iff data_ok_def node_inv_def svr_role_def)

lemma record_sock:
  "fd \<notin> set (replicaFds (svr_registry s)) \<Longrightarrow> svr_socks (recordAndPropagateIfWrite cmd line r s) fd = svr_socks s fd"
  by (simp add: recordAndPropagateIfWrite_def Let_def socks_propagate_other svr_registry_def)

lemma reply_with_parts:
  assumes "reply_with fd r s = (s', nx)"
  shows "svr_node s' = svr_node s" and "nx = NextLine \<Longrightarrow> sk_out (svr_socks s' fd) = sk_out (svr_socks s fd) @ r @ [LF]"
  using assms writeLine_result [of "svr_socks s fd" r]
  by (auto simp: reply_with_def write_reply_def split: prod.splits if_splits)

text \<open>A data command at a ready node: what it does to the cell of its key, and what the node writes.\<close>

lemma node_handles:
  assumes "node_ready s" and "parse line = Inr cmd" and "data_command cmd" and "length line \<le> 8172"
    and "handle_line now fd line s = (s', nx)" and "execute now cmd (svr_node s) = (n', r)"
  shows "node_cell (svr_node s') = node_cell n'" and "node_ready s'"
    and "nx = NextLine \<Longrightarrow> fd \<notin> set (replicaFds (svr_registry s)) \<Longrightarrow> sk_out (svr_socks s' fd) = sk_out (svr_socks s fd) @ r @ [LF]"
proof -
  let ?s1 = "s\<lparr>svr_node := n'\<rparr>" and ?s2 = "recordAndPropagateIfWrite cmd line r (s\<lparr>svr_node := n'\<rparr>)"
  have "cmd_type cmd \<noteq> SYNC" using assms(3) by (auto simp: data_command_def)
  moreover have "line \<noteq> []" using assms(2) by (auto simp: parse_def)
  ultimately have h: "reply_with fd r ?s2 = (s', nx)"
    using assms(1,2,5,6) by (simp add: handle_line_def node_ready_def execute_on_def)
  have rep: "replication n' = replication (svr_node s)" using data_keeps_replication [OF assms(3), of now "svr_node s"] assms(6) by simp
  then have reg: "svr_registry ?s1 = svr_registry s" "svr_role ?s1 = svr_role s" by (simp_all add: svr_registry_def svr_role_def)
  have ok: "data_ok n'" using execute_data_ok(1) [OF _ assms(2,4), of "svr_node s" now] assms(1,6) by (simp add: node_ready_def)
  show "node_cell (svr_node s') = node_cell n'" using reply_with_parts(1) [OF h] record_data(1) by simp
  show "node_ready s'"
    using reply_with_parts(1) [OF h] record_data(2,3) [of cmd line r ?s1] reg ok assms(1)
    by (simp add: node_ready_def svr_role_def)
  show "sk_out (svr_socks s' fd) = sk_out (svr_socks s fd) @ r @ [LF]"
    if "nx = NextLine" "fd \<notin> set (replicaFds (svr_registry s))"
    using reply_with_parts(2) [OF h that(1)] record_sock [of fd ?s1 cmd line r] that(2) reg by simp
qed

text \<open>What it writes is one line within the limit of the router's reader.\<close>

lemma short_name: "data_command cmd \<Longrightarrow> cmd_type cmd = commandTypeFromName (cmd_name cmd) \<Longrightarrow> length (cmd_name cmd) \<le> 9"
  by (auto simp: data_command_def commandTypeFromName_def toUpper_def Let_def split: if_splits dest!: arg_cong [where f = length])

definition good_reply :: "wire_line \<Rightarrow> bool" where
  "good_reply r \<longleftrightarrow> LF \<notin> set r \<and> length r \<le> reader_limit \<and> strip_cr r = r"

lemma good_word: "is_word w \<Longrightarrow> length w < reader_limit \<Longrightarrow> c \<noteq> LF \<Longrightarrow> good_reply (c # w)"
proof -
  assume w: "is_word w" "length w < reader_limit" "c \<noteq> LF"
  have c: "isspace CR" by code_simp
  have "w \<noteq> []" "\<not> isspace (last w)" using w(1) by (simp_all add: is_word_def)
  with c have "w \<noteq> []" "last w \<noteq> CR" by metis+
  then show ?thesis using w word_no_LF by (simp add: good_reply_def strip_cr_def)
qed

lemma good_replies:
  "good_reply Reply_ok" "good_reply Reply_nil" "in_int64 x \<Longrightarrow> good_reply (Reply_integer x)"
  "is_word v \<Longrightarrow> length v < reader_limit \<Longrightarrow> good_reply (Reply_bulk v)"
  "is_word (cmd_name cmd) \<Longrightarrow> length (cmd_name cmd) \<le> 9 \<Longrightarrow> good_reply (arityError cmd)"
  "good_reply (Reply_error ''value is not an integer or out of range'')"
  "good_reply (Reply_error (''invalid expire time in '' @ [CHR 0x27] @ ''SET'' @ [CHR 0x27] @ '' command''))"
proof -
  show "good_reply Reply_ok" "good_reply Reply_nil"
    "good_reply (Reply_error ''value is not an integer or out of range'')"
    "good_reply (Reply_error (''invalid expire time in '' @ [CHR 0x27] @ ''SET'' @ [CHR 0x27] @ '' command''))"
    by (simp_all add: good_reply_def reply_defs strip_cr_def reader_limit_def)
  show "in_int64 x \<Longrightarrow> good_reply (Reply_integer x)"
    using to_string_length [of x] to_string_word [of x] by (simp add: Reply_integer_def good_word reader_limit_def)
  show "is_word v \<Longrightarrow> length v < reader_limit \<Longrightarrow> good_reply (Reply_bulk v)" by (simp add: Reply_bulk_def good_word)
  show "is_word (cmd_name cmd) \<Longrightarrow> length (cmd_name cmd) \<le> 9 \<Longrightarrow> good_reply (arityError cmd)"
    using word_no_LF by (simp add: good_reply_def arityError_def Reply_error_def strip_cr_def reader_limit_def)
qed

lemma seconds_left_range: "in_int64 (max 0 (seconds_left now e))"
proof (cases "wrap64 (e - now) \<ge> 0")
  case True
  then have "seconds_left now e = wrap64 (e - now) div nanosPerSecond"
    by (simp add: seconds_left_def cpp_quotient_nonneg nanosPerSecond_def)
  moreover have "wrap64 (e - now) div nanosPerSecond \<le> wrap64 (e - now)"
    using True zdiv_mono2 [of "wrap64 (e - now)" 1 nanosPerSecond] by (simp add: nanosPerSecond_def)
  ultimately show ?thesis using wrap64_range [of "e - now"] by simp
next
  case False
  then have "seconds_left now e \<le> 0" by (simp add: seconds_left_def cpp_quotient_nonpos nanosPerSecond_def)
  then show ?thesis by simp
qed

lemma cell_reply:
  assumes "\<forall>v. fst c = Some v \<longrightarrow> is_word v \<and> length v < reader_limit"
    and "is_word (cmd_name cmd)" and "length (cmd_name cmd) \<le> 9" and "snd (cell_exec now cmd c) = Done r"
  shows "good_reply r"
  using assms(1,4) seconds_left_range good_replies(5) [OF assms(2,3)] good_replies(7)
  by (cases "cmd_type cmd"; cases "cmd_args cmd" rule: args_cases)
    (auto simp: cell_exec_def cell_begin_def cell_incr_def cell_next_def good_replies wrap64_range
      split: option.splits sum.splits if_splits)

section \<open>Commands on one cell are commands on the map\<close>

lemma spec_cell:
  assumes "data_command cmd" and "k = cmd_key cmd" and "cell_exec now cmd (m k, t k) = ((v, d), Done r)"
  shows "case spec_exec now (cmd_type cmd) (cmd_args cmd) (m, t) of
      None \<Rightarrow> is_error_reply r \<and> m(k := v) = m \<and> t(k := d) = t
    | Some (s1, r1) \<Rightarrow> r1 = r \<and> s1 = (m(k := v), t(k := d))"
  using assms
  by (cases "cmd_type cmd"; cases "cmd_args cmd" rule: args_cases)
    (auto simp: data_command_def cmd_key_def cell_exec_def cell_begin_def cell_incr_def cell_next_def spec_incr_def
      fun_upd_idem_iff split: option.splits sum.splits if_splits)

section \<open>A request in the cluster\<close>

lemma ready_sound: "node_ready s \<Longrightarrow> sound_node (svr_node s)"
  by (simp add: node_ready_def data_ok_def sound_node_def)

lemma ready_values: "node_ready s \<Longrightarrow> contents (store (svr_node s)) k = Some v \<Longrightarrow> is_word v \<and> length v < reader_limit"
proof -
  assume "node_ready s" and "contents (store (svr_node s)) k = Some v"
  then have "is_word v \<and> fits (k, v)" by (auto simp: node_ready_def data_ok_def storable_def)
  then show ?thesis by (simp add: fits_def kMaxLineLength_def reader_limit_def)
qed

lemma forwarded_parse:
  assumes "forwarded line = Some cmd"
  shows "parse (strip_cr line) = Inr cmd" and "is_word (cmd_name cmd)" and "cmd_type cmd = commandTypeFromName (cmd_name cmd)"
proof -
  have p: "parse line = Inr cmd" using assms by (auto simp: forwarded_def split: sum.splits if_splits)
  then show "parse (strip_cr line) = Inr cmd" using parse_strip_cr [OF parse_InrD(1) [OF p]] by simp
  show "is_word (cmd_name cmd)" using tokenize_words [of "cmd_name cmd" line] parse_InrD(2) [OF p] by simp
  show "cmd_type cmd = commandTypeFromName (cmd_name cmd)" by (rule parse_InrD(3) [OF p])
qed

lemma data_line_command:
  "data_line line \<Longrightarrow> forwarded line = Some cmd \<Longrightarrow> data_command cmd \<and> length (strip_cr line) \<le> 8172"
  by (auto simp: data_line_def safe_line_def strip_cr_def)

text \<open>Changing one cell of the node a key is routed to changes the map at that key.\<close>

lemma cluster_abs_update:
  assumes "rt_ring r' = rt_ring (cu_router c)" and "a = home addr c k"
    and "node_cell (svr_node s') = (node_cell (svr_node (cu_nodes c a)))(k := (v, d))"
  shows "cluster_abs addr \<lparr>cu_router = r', cu_nodes = (cu_nodes c)(a := s')\<rparr> =
    ((fst (cluster_abs addr c))(k := v), (snd (cluster_abs addr c))(k := d))"
proof -
  have h: "home addr \<lparr>cu_router = r', cu_nodes = f\<rparr> = home addr c" for f
    using assms(1) by (simp add: home_def fun_eq_iff)
  have "contents (store (svr_node s')) j = (if j = k then v else contents (store (svr_node (cu_nodes c a))) j)"
    and "expiryOf (expiry (svr_node s')) j = (if j = k then d else expiryOf (expiry (svr_node (cu_nodes c a))) j)" for j
    using fun_cong [OF assms(3), of j] by (auto simp: node_cell_def split: if_splits)
  then show ?thesis using assms(2) by (auto simp: cluster_abs_def h fun_eq_iff)
qed

definition effect_of :: "spec_state \<Rightarrow> nanos \<Rightarrow> Command \<Rightarrow> string \<Rightarrow> spec_state \<Rightarrow> bool" where
  "effect_of s now cmd r s' = (case spec_exec now (cmd_type cmd) (cmd_args cmd) s of
       None \<Rightarrow> is_error_reply r \<and> s' = s
     | Some (s1, r1) \<Rightarrow> r1 = r \<and> s' = s1)"

lemma handled_in_cluster:
  assumes "node_ready (cu_nodes c a)" and "forwarded line = Some cmd" and "data_line line" and "a = home addr c (cmd_key cmd)"
    and "rt_ring r' = rt_ring (cu_router c)" and "handle_line now fd (strip_cr line) (cu_nodes c a) = (s', nx)"
  shows "\<exists>r. good_reply r \<and> node_ready s' \<and>
    effect_of (cluster_abs addr c) now cmd r (cluster_abs addr \<lparr>cu_router = r', cu_nodes = (cu_nodes c)(a := s')\<rparr>) \<and>
    (nx = NextLine \<longrightarrow> fd \<notin> set (replicaFds (svr_registry (cu_nodes c a))) \<longrightarrow>
      sk_out (svr_socks s' fd) = sk_out (svr_socks (cu_nodes c a) fd) @ r @ [LF])"
proof -
  let ?s = "cu_nodes c a" and ?k = "cmd_key cmd"
  obtain n' r where ex: "execute now cmd (svr_node ?s) = (n', r)" by fastforce
  note fp = forwarded_parse [OF assms(2)] and dc = data_line_command [OF assms(3,2)]
  note nh = node_handles [OF assms(1) fp(1) conjunct1 [OF dc] conjunct2 [OF dc] assms(6) ex]
  note ce = execute_cell [OF ready_sound [OF assms(1)] conjunct1 [OF dc] ex]
  obtain v d where vd: "cell_exec now cmd (node_cell (svr_node ?s) ?k) = ((v, d), Done r)"
    using ce(2) by (cases "cell_exec now cmd (node_cell (svr_node ?s) ?k)") (auto split: prod.splits)
  have "node_cell (svr_node ?s) ?k = (fst (cluster_abs addr c) ?k, snd (cluster_abs addr c) ?k)"
    using assms(4) by (simp add: cluster_abs_def node_cell_def)
  then have sc: "cell_exec now cmd (fst (cluster_abs addr c) ?k, snd (cluster_abs addr c) ?k) = ((v, d), Done r)" using vd by simp
  have up: "cluster_abs addr \<lparr>cu_router = r', cu_nodes = (cu_nodes c)(a := s')\<rparr> =
      ((fst (cluster_abs addr c))(?k := v), (snd (cluster_abs addr c))(?k := d))"
    using nh(1) ce(1) vd by (intro cluster_abs_update assms(4,5)) simp
  have "effect_of (cluster_abs addr c) now cmd r (cluster_abs addr \<lparr>cu_router = r', cu_nodes = (cu_nodes c)(a := s')\<rparr>)"
    using spec_cell [of cmd ?k now "fst (cluster_abs addr c)" "snd (cluster_abs addr c)" v d r] dc sc
    unfolding up effect_of_def by (simp split: option.splits prod.splits)
  moreover have "good_reply r"
    using ready_values [OF assms(1)] cell_reply [OF _ fp(2) short_name [OF conjunct1 [OF dc] fp(3)] ce(2)] by simp
  ultimately show ?thesis using nh(2,3) by blast
qed

lemma ok_after:
  assumes "cluster_ok addr c" and "node_ready s'"
    and "\<forall>j. j \<noteq> i \<longrightarrow> backend_of r' j = backend_of (cu_router c) j" and "cl_buffer (be_client (backend_of r' i)) = []"
  shows "cluster_ok addr \<lparr>cu_router = r', cu_nodes = (cu_nodes c)(a := s')\<rparr>"
  using assms by (auto simp: cluster_ok_def)

lemma unavailable_error: "unavailable u \<Longrightarrow> is_error_reply u"
  by (auto simp: unavailable_def is_error_reply_def)

lemma one_map_effect:
  assumes "forwarded line = Some cmd" and "effect_of s now cmd r s'"
    and "(\<exists>u. reply = Some u \<and> unavailable u) \<or> reply = Some r"
  shows "one_map s (now, line, reply) s'"
  using assms unavailable_error
  by (cases "spec_exec now (cmd_type cmd) (cmd_args cmd) s") (auto simp: one_map_def effect_of_def)

lemma one_map_nothing:
  assumes "forwarded line = Some cmd" and "\<exists>u. reply = Some u \<and> unavailable u"
  shows "one_map s (now, line, reply) s"
  using assms unavailable_error
  by (cases "spec_exec now (cmd_type cmd) (cmd_args cmd) s") (auto simp: one_map_def)

text \<open>One request, in each of the two ways it can be forwarded.\<close>

lemma served_one_map:
  assumes ok: "cluster_ok addr c" and dl: "data_line line" and f: "forwarded line = Some cmd" and a: "a = home addr c (cmd_key cmd)"
    and fd: "fd \<notin> set (replicaFds (svr_registry (cu_nodes c a)))"
    and h: "handle_line now fd (strip_cr line) (cu_nodes c a) = (s', NextLine)"
    and out: "sk_out (svr_socks s' fd) = sk_out (svr_socks (cu_nodes c a) fd) @ concat chunks" and ne: "\<forall>p \<in> set chunks. p \<noteq> []"
    and ans: "router_answer (carrying chunks net) t line (incoming (getNode (rt_ring (cu_router c)) (cmd_key cmd)) chunks (cu_router c)) = (r', reply)"
  shows "cluster_ok addr \<lparr>cu_router = r', cu_nodes = (cu_nodes c)(a := s')\<rparr> \<and>
    one_map (cluster_abs addr c) (now, line, reply) (cluster_abs addr \<lparr>cu_router = r', cu_nodes = (cu_nodes c)(a := s')\<rparr>)"
proof -
  let ?i = "getNode (rt_ring (cu_router c)) (cmd_key cmd)" and ?c = "\<lparr>cu_router = r', cu_nodes = (cu_nodes c)(a := s')\<rparr>"
  have nr: "node_ready (cu_nodes c a)" and bf: "cl_buffer (be_client (backend_of (cu_router c) ?i)) = []"
    using ok a by (simp_all add: cluster_ok_def home_def)
  have rg: "rt_ring r' = rt_ring (cu_router c)" using ring_answer [OF ans] by simp
  obtain r where r: "good_reply r" "node_ready s'" "effect_of (cluster_abs addr c) now cmd r (cluster_abs addr ?c)"
    "sk_out (svr_socks s' fd) = sk_out (svr_socks (cu_nodes c a) fd) @ r @ [LF]"
    using handled_in_cluster [OF nr f dl a rg h] fd by blast
  then have "whole_reply chunks r" using out ne by (simp add: whole_reply_def good_reply_def)
  note fa = forwarded_answer [OF f bf refl ans disjI2 [OF this]]
  have "cluster_ok addr ?c" using fa by (intro ok_after [OF ok r(2), of ?i]) simp_all
  moreover have "one_map (cluster_abs addr c) (now, line, reply) (cluster_abs addr ?c)"
    using fa by (intro one_map_effect [OF f r(3)]) auto
  ultimately show ?thesis by (rule conjI)
qed

lemma lost_one_map:
  assumes ok: "cluster_ok addr c" and dl: "data_line line" and f: "forwarded line = Some cmd" and a: "a = home addr c (cmd_key cmd)"
    and s': "s' = cu_nodes c a \<or> s' = fst (handle_line now fd (strip_cr line) (cu_nodes c a))"
    and ans: "router_answer (carrying [] net) t line (incoming (getNode (rt_ring (cu_router c)) (cmd_key cmd)) [] (cu_router c)) = (r', reply)"
  shows "cluster_ok addr \<lparr>cu_router = r', cu_nodes = (cu_nodes c)(a := s')\<rparr> \<and>
    one_map (cluster_abs addr c) (now, line, reply) (cluster_abs addr \<lparr>cu_router = r', cu_nodes = (cu_nodes c)(a := s')\<rparr>)"
proof -
  let ?i = "getNode (rt_ring (cu_router c)) (cmd_key cmd)" and ?c = "\<lambda>s. \<lparr>cu_router = r', cu_nodes = (cu_nodes c)(a := s)\<rparr>"
  have nr: "node_ready (cu_nodes c a)" and bf: "cl_buffer (be_client (backend_of (cu_router c) ?i)) = []"
    using ok a by (simp_all add: cluster_ok_def home_def)
  have rg: "rt_ring r' = rt_ring (cu_router c)" using ring_answer [OF ans] by simp
  have b: "\<forall>j. j \<noteq> ?i \<longrightarrow> backend_of r' j = backend_of (cu_router c) j" "cl_buffer (be_client (backend_of r' ?i)) = []"
    and u: "\<exists>u. reply = Some u \<and> unavailable u"
    using forwarded_answer [OF f bf refl ans, of "[]"] by simp_all
  from s' show ?thesis
  proof
    assume same: "s' = cu_nodes c a"
    have "home addr (?c s') = home addr c" using rg by (simp add: home_def fun_eq_iff)
    then have "cluster_abs addr (?c s') = cluster_abs addr c" using same by (simp add: cluster_abs_def)
    with ok_after [OF ok nr b, of a] one_map_nothing [OF f u] same show ?thesis by simp
  next
    assume s': "s' = fst (handle_line now fd (strip_cr line) (cu_nodes c a))"
    then obtain nx where h: "handle_line now fd (strip_cr line) (cu_nodes c a) = (s', nx)" by (metis prod.collapse)
    obtain r where "node_ready s'" and e: "effect_of (cluster_abs addr c) now cmd r (cluster_abs addr (?c s'))"
      using handled_in_cluster [OF nr f dl a rg h] by blast
    then show ?thesis using ok_after [OF ok _ b] one_map_effect [OF f e] u by blast
  qed
qed

lemma cluster_step_one_map:
  assumes "cluster_step addr c e c'" and "cluster_ok addr c" and "data_line (fst (snd e))"
  shows "cluster_ok addr c' \<and> one_map (cluster_abs addr c) e (cluster_abs addr c')"
  using assms
proof (cases rule: cluster_step.cases)
  case (cs_own line t net r' reply now)
  then have "r' = cu_router c" using own_answer by blast
  with cs_own assms(2) show ?thesis by (simp add: one_map_def)
next
  case (cs_served line cmd t a fd now s' chunks net r' reply)
  with assms(3) show ?thesis using served_one_map [OF assms(2) _ cs_served(3,5-10)] by simp
next
  case (cs_lost line cmd t a fd s' now net r' reply)
  with assms(3) show ?thesis using lost_one_map [OF assms(2) _ cs_lost(3,5,7,8)] by simp
qed

lemma one_map_run_snoc: "one_map_run s (es @ [e]) s' \<longleftrightarrow> (\<exists>s1. one_map_run s es s1 \<and> one_map s1 e s')"
  by (induction es arbitrary: s) (simp_all del: split_paired_Ex, blast)

lemma cluster_run_one_map:
  assumes "cluster_run addr c es c'" and "cluster_ok addr c" and "\<forall>e \<in> set es. data_line (fst (snd e))"
  shows "cluster_ok addr c' \<and> one_map_run (cluster_abs addr c) es (cluster_abs addr c')"
  using assms
proof (induction rule: cluster_run.induct)
  case (cu_step es c1 e c2)
  then show ?case using cluster_step_one_map [of addr c1 e c2] by (auto simp: one_map_run_snoc simp del: split_paired_Ex)
qed simp

section \<open>Properties\<close>

text \<open>
  Sharding is transparent. However requests are routed, forwarded, delivered in chunks or lost, and
  whatever the health checker records, as long as no active address changes the nodes together hold
  one map from keys to values and deadlines: every data command a client sends to the router has the
  reply and the effect of the command on that map, or is answered \<^verbatim>\<open>unavailable\<close>, and then has had its
  effect once or not at all. Lines the router answers itself change nothing. The condition on the
  connections (no half-received reply) holds at the start and is kept as long as replies arrive whole or
  not at all.
\<close>

theorem sharding_is_transparent:
  assumes "cluster_run addr c es c'" and "cluster_ok addr c" and "\<forall>e \<in> set es. data_line (fst (snd e))"
  shows "cluster_ok addr c' \<and> one_map_run (cluster_abs addr c) es (cluster_abs addr c')"
  using assms by (rule cluster_run_one_map)

text \<open>
  C4: what can be reached answers. If the active node of the shard has an address, can be connected to and
  written to, handles the line and its reply arrives, in whatever chunks, then the client is not told that
  the shard is unavailable: it gets the reply of the command on the one map (an error for a command that is
  none), and the map afterwards is that of the command.
\<close>

theorem reachable_shard_answers:
  assumes "cluster_ok addr c" and "data_line line" and "forwarded line = Some cmd"
    and "i = getNode (rt_ring (cu_router c)) (cmd_key cmd)" and "activeAddressFor t = addr" and "addr i \<noteq> []"
    and "fd \<notin> set (replicaFds (svr_registry (cu_nodes c (addr i))))"
    and "handle_line now fd (strip_cr line) (cu_nodes c (addr i)) = (s', NextLine)"
    and "sk_out (svr_socks s' fd) = sk_out (svr_socks (cu_nodes c (addr i)) fd) @ concat chunks" and "\<forall>p \<in> set chunks. p \<noteq> []"
    and "can_talk (carrying chunks net) (addr i) line (inbox chunks (backend_of (cu_router c) i))"
    and "router_answer (carrying chunks net) t line (incoming i chunks (cu_router c)) = (r', reply)"
  shows "case spec_exec now (cmd_type cmd) (cmd_args cmd) (cluster_abs addr c) of
      None \<Rightarrow> (\<exists>r. reply = Some r \<and> is_error_reply r) \<and>
        cluster_abs addr \<lparr>cu_router = r', cu_nodes = (cu_nodes c)(addr i := s')\<rparr> = cluster_abs addr c
    | Some (s1, r) \<Rightarrow> reply = Some r \<and> cluster_abs addr \<lparr>cu_router = r', cu_nodes = (cu_nodes c)(addr i := s')\<rparr> = s1"
proof -
  have nr: "node_ready (cu_nodes c (addr i))" and bf: "cl_buffer (be_client (backend_of (cu_router c) i)) = []"
    and a: "addr i = home addr c (cmd_key cmd)"
    using assms(1,4) by (simp_all add: cluster_ok_def home_def)
  have rg: "rt_ring r' = rt_ring (cu_router c)" using ring_answer [OF assms(12)] by simp
  obtain r where r: "good_reply r" "sk_out (svr_socks s' fd) = sk_out (svr_socks (cu_nodes c (addr i)) fd) @ r @ [LF]"
    and e: "effect_of (cluster_abs addr c) now cmd r (cluster_abs addr \<lparr>cu_router = r', cu_nodes = (cu_nodes c)(addr i := s')\<rparr>)"
    using handled_in_cluster [OF nr assms(3,2) a rg assms(8)] assms(7) by blast
  have "whole_reply chunks r" using r assms(9,10) by (simp add: whole_reply_def good_reply_def)
  then have "reply = Some r" using reachable_answer [OF assms(3) bf assms(4,12)] assms(5,6,11) by simp
  with e show ?thesis by (auto simp: effect_of_def split: option.splits prod.splits)
qed

text \<open>One shard, one fresh node, and a network on which every exchange succeeds.\<close>

definition idle_server :: server where
  "idle_server = \<lparr>svr_node = new_node 0 blank_disk, svr_socks = \<lambda>fd. \<lparr>sk_rx = [], sk_tx = [100], sk_out = []\<rparr>\<rparr>"

definition small_cluster :: cluster where
  "small_cluster = \<lparr>cu_router = \<lparr>rt_ring = addNode (new_ConsistentHashRing 1) ''s1'', rt_backends = Mapping.empty\<rparr>,
     cu_nodes = \<lambda>a. idle_server\<rparr>"

definition good_network :: network where
  "good_network = (\<lambda>host port. Some \<lparr>sk_rx = [], sk_tx = [100], sk_out = []\<rparr>)"

lemma small_cluster_ok: "cluster_ok addr small_cluster"
  by (simp add: cluster_ok_def small_cluster_def node_ready_def data_ok_def idle_server_def svr_role_def new_node_def
      backend_of_def fresh_backend_def new_TcpClient_def node_inv_new [unfolded new_node_def] storable_def contents_def entries_new)

lemma small_node_answers:
  "\<exists>s'. handle_line 0 0 ''SET k v'' idle_server = (s', NextLine) \<and> sk_out (svr_socks s' 0) = ''+OK'' @ [LF]"
proof -
  have "snd (handle_line 0 0 ''SET k v'' idle_server) = NextLine" by code_simp
  moreover have "sk_out (svr_socks (fst (handle_line 0 0 ''SET k v'' idle_server)) 0) = ''+OK'' @ [LF]" by code_simp
  ultimately show ?thesis by (metis prod.collapse)
qed

theorem sharding_is_transparent_witness:
  "\<exists>c'. cluster_run (activeAddressFor one_shard) small_cluster [(0, ''SET k v'', Some ''+OK'')] c' \<and>
     fst (cluster_abs (activeAddressFor one_shard) c') ''k'' = Some ''v''"
proof -
  let ?addr = "activeAddressFor one_shard" and ?line = "''SET k v''" and ?c = small_cluster
  let ?r = "incoming (getNode (rt_ring (cu_router ?c)) ''k'') [''+OK'' @ [LF]] (cu_router ?c)"
  have f: "forwarded ?line = Some (mk_command ''SET'' [''k'', ''v''])" by code_simp
  have k: "cmd_key (mk_command ''SET'' [''k'', ''v'']) = ''k''" by (simp add: cmd_key_def)
  obtain s' where h: "handle_line 0 0 ?line idle_server = (s', NextLine)" and out: "sk_out (svr_socks s' 0) = ''+OK'' @ [LF]"
    using small_node_answers by blast
  have "snd (router_answer (carrying [''+OK'' @ [LF]] good_network) one_shard ?line ?r) = Some ''+OK''" by code_simp
  then obtain r' where a: "router_answer (carrying [''+OK'' @ [LF]] good_network) one_shard ?line ?r = (r', Some ''+OK'')"
    by (metis prod.collapse)
  have s: "strip_cr ?line = ?line" "cu_nodes ?c a = idle_server" for a by (simp_all add: strip_cr_def small_cluster_def)
  have "cluster_step ?addr ?c (0, ?line, Some ''+OK'') \<lparr>cu_router = r', cu_nodes = (cu_nodes ?c)(home ?addr ?c ''k'' := s')\<rparr>"
    using h out a
    by (intro cs_served [OF f, where t = one_shard and fd = 0 and chunks = "[''+OK'' @ [LF]]" and net = good_network])
      (simp_all add: s k idle_server_def svr_registry_def new_node_def)
  from cu_step [OF cu_start this] have run: "cluster_run ?addr ?c [(0, ?line, Some ''+OK'')] \<lparr>cu_router = r', cu_nodes = (cu_nodes ?c)(home ?addr ?c ''k'' := s')\<rparr>"
    by simp
  have "data_line ?line" by (simp add: data_line_def f safe_line_def data_command_def text_simps)
  moreover obtain m t where mt: "cluster_abs ?addr ?c = (m, t)" by fastforce
  ultimately have "one_map (m, t) (0, ?line, Some ''+OK'') (cluster_abs ?addr \<lparr>cu_router = r', cu_nodes = (cu_nodes ?c)(home ?addr ?c ''k'' := s')\<rparr>)"
    using sharding_is_transparent [OF run small_cluster_ok] by auto
  then have "fst (cluster_abs ?addr \<lparr>cu_router = r', cu_nodes = (cu_nodes ?c)(home ?addr ?c ''k'' := s')\<rparr>) ''k'' = Some ''v''"
    by (auto simp: one_map_def f text_simps unavailable_def Reply_ok_def Reply_error_def)
  with run show ?thesis by blast
qed

theorem reachable_shard_answers_witness:
  "\<exists>r' s'. router_answer (carrying [''+OK'' @ [LF]] good_network) one_shard ''SET k v''
      (incoming ''s1'' [''+OK'' @ [LF]] (cu_router small_cluster)) = (r', Some ''+OK'') \<and>
    fst (cluster_abs (activeAddressFor one_shard) \<lparr>cu_router = r', cu_nodes = (cu_nodes small_cluster)(''p:1'' := s')\<rparr>) ''k'' = Some ''v''"
proof -
  let ?addr = "activeAddressFor one_shard" and ?line = "''SET k v''" and ?c = small_cluster and ?net = "carrying [''+OK'' @ [LF]] good_network"
  have f: "forwarded ?line = Some (mk_command ''SET'' [''k'', ''v''])" by code_simp
  have g: "''s1'' = getNode (rt_ring (cu_router ?c)) (cmd_key (mk_command ''SET'' [''k'', ''v'']))" by code_simp
  obtain s' where h: "handle_line 0 0 ?line idle_server = (s', NextLine)" and out: "sk_out (svr_socks s' 0) = ''+OK'' @ [LF]"
    using small_node_answers by blast
  have a: "?addr ''s1'' = ''p:1''" by code_simp
  obtain r' reply where ans: "router_answer ?net one_shard ?line (incoming ''s1'' [''+OK'' @ [LF]] (cu_router ?c)) = (r', reply)" by fastforce
  have t: "can_talk ?net (?addr ''s1'') ?line (inbox [''+OK'' @ [LF]] (backend_of (cu_router ?c) ''s1''))" by code_simp
  have dl: "data_line ?line" by (simp add: data_line_def f safe_line_def data_command_def text_simps)
  obtain m d where md: "cluster_abs ?addr ?c = (m, d)" by fastforce
  have s: "strip_cr ?line = ?line" "cu_nodes ?c x = idle_server" for x by (simp_all add: strip_cr_def small_cluster_def)
  have "reply = Some Reply_ok \<and> cluster_abs ?addr \<lparr>cu_router = r', cu_nodes = (cu_nodes ?c)(?addr ''s1'' := s')\<rparr> = (m(''k'' \<mapsto> ''v''), d(''k'' := None))"
    using reachable_shard_answers [OF small_cluster_ok dl f g refl _ _ _ _ _ t ans, of 0 0 s'] h out
    by (simp add: s a md text_simps idle_server_def svr_registry_def new_node_def)
  then show ?thesis using ans by (intro exI [of _ r'] exI [of _ s']) (simp add: a Reply_ok_def)
qed

text \<open>
  Half a reply is glued to the next. The reply to a first request breaks off on its way to the router, which answers that
  the shard is unavailable, closes the connection and keeps the bytes; the reply to the next request for that
  shard, of any client, arrives on a new connection and is delivered with those bytes in front.
\<close>

theorem half_reply_is_glued_to_next:
  "let (r1, reply1) = router_answer (carrying [''+1''] good_network) one_shard ''GET k'' (cu_router small_cluster);
       (r2, reply2) = router_answer (carrying [''+7'' @ [LF]] good_network) one_shard ''GET j'' r1
   in reply1 = Some (Reply_error ''shard s1 unavailable'') \<and> reply2 = Some ''+1+7''"
  by code_simp

end
