(* ===== verification/Replication_Theorems.thy ===== *)
theory Replication_Theorems
  imports Durability_Theorems
begin

text \<open>
  Replication end to end. On the primary, the bytes written to the socket of a registered replica
  are the lines of the dump followed by the lines of the successful writes; on the replica, a
  session of the link applies these lines one after the other. Together: a fresh replica that
  receives what was written to it holds the data of its primary. Expiry is not propagated; how the data and the
  replayed stream compare is therefore a parameter, and the lemmas on the stream are proved once, in the locale
  \<open>lagging_log\<close>.
\<close>

section \<open>The replica's reader drops a carriage return\<close>

lemma replay_map_strip_cr:
  "\<forall>l \<in> set ls. length l \<le> kMaxLineLength \<Longrightarrow> replay_map (map strip_cr ls) m = replay_map ls m"
  by (induction ls arbitrary: m) (simp_all add: parse_strip_cr)

lemma write_strip_cr: "LF \<notin> set l \<Longrightarrow> length l \<le> kMaxLineLength \<Longrightarrow> LF \<notin> set (strip_cr l) \<and> write_line (strip_cr l) = write_line l"
  by (simp add: write_line_def parse_strip_cr) (auto simp: strip_cr_def dest: in_set_butlastD)

section \<open>Writes the kernel takes in one piece\<close>

definition roomy :: "nat \<Rightarrow> nat \<Rightarrow> sock \<Rightarrow> bool" where
  "roomy B n k \<longleftrightarrow> n \<le> length (sk_tx k) \<and> list_all (\<lambda>c. int B \<le> c) (sk_tx k)"

lemma writeRaw_roomy:
  assumes "roomy B (Suc n) k" and "length data \<le> B"
  shows "\<exists>ts. writeRaw k data = (k\<lparr>sk_tx := ts, sk_out := sk_out k @ data\<rparr>, True) \<and>
    roomy B n (k\<lparr>sk_tx := ts, sk_out := sk_out k @ data\<rparr>)"
proof -
  obtain c ts where t: "sk_tx k = c # ts" "int B \<le> c" "n \<le> length ts" "list_all (\<lambda>c. int B \<le> c) ts"
    using assms(1) by (cases "sk_tx k") (auto simp: roomy_def)
  show ?thesis
  proof (cases "data = []")
    case True
    with t show ?thesis by (intro exI [of _ "sk_tx k"]) (simp add: writeRaw_def roomy_def)
  next
    case False
    then have "0 < c" and "length data \<le> nat c" using t(2) assms(2) by (cases data; simp)+
    moreover have "writeRaw_loop data m ts o' = (True, ts, o')" if "length data \<le> m" for m o'
      using that by (cases ts) simp_all
    ultimately have "writeRaw_loop data 0 (sk_tx k) (sk_out k) = (True, ts, sk_out k @ data)"
      using False by (simp add: t(1))
    then show ?thesis using t by (intro exI [of _ ts]) (simp add: writeRaw_def roomy_def)
  qed
qed

section \<open>What the primary has sent to a replica\<close>

text \<open>The stream of a registered replica: it replays to the data.\<close>

definition feeds :: "(val option \<Rightarrow> val option \<Rightarrow> bool) \<Rightarrow> fd \<Rightarrow> nat \<Rightarrow> nat \<Rightarrow> wire_line list \<Rightarrow> server \<Rightarrow> bool" where
  "feeds agrees fd B n ls s \<longleftrightarrow> data_ok (svr_node s) \<and> distinct (replicaFds (svr_registry s)) \<and>
     fd \<in> set (replicaFds (svr_registry s)) \<and> roomy B n (svr_socks s fd) \<and> kMaxLineLength < B \<and>
     sk_out (svr_socks s fd) = unlines ls \<and>
     list_all (\<lambda>l. LF \<notin> set l \<and> length l \<le> kMaxLineLength \<and> write_line l) ls \<and>
     agree_maps agrees (live s) (replay_map ls Map.empty) \<and> storable (replay_map ls Map.empty)"

lemma svr_registry_alt:
  "svr_registry s = (case map_option registry (replication (svr_node s)) of None \<Rightarrow> \<lparr>replicaFds = []\<rparr> | Some r \<Rightarrow> r)"
  by (simp add: svr_registry_def split: option.split)

lemma registry_execute_on: "execute_on now cmd s = (s1, r) \<Longrightarrow> svr_registry s1 = svr_registry s"
proof -
  assume "execute_on now cmd s = (s1, r)"
  then have "svr_node s1 = fst (execute now cmd (svr_node s))"
    by (auto simp: execute_on_def split: prod.splits)
  then show ?thesis unfolding svr_registry_alt by (simp only: execute_registry)
qed

lemma registry_record: "svr_registry (recordAndPropagateIfWrite cmd line r s) = svr_registry s"
  by (simp add: recordAndPropagateIfWrite_def svr_registry_def Let_def)

lemma record_socks:
  "svr_socks (recordAndPropagateIfWrite cmd line r s) =
    (if r \<noteq> [] \<and> \<not> is_error_reply r \<and> isWriteCommand (cmd_type cmd)
     then registry_propagate (svr_registry s) line (svr_socks s) else svr_socks s)"
  by (auto simp: recordAndPropagateIfWrite_def is_error_reply_def svr_registry_def Let_def)

lemma feeds_less: "feeds agrees fd B (Suc n) ls s \<Longrightarrow> feeds agrees fd B n ls s"
  by (simp add: feeds_def roomy_def)

lemma feeds_reply: "fd' \<noteq> fd \<Longrightarrow> feeds agrees fd B n ls (fst (reply_with fd' r s)) = feeds agrees fd B n ls s"
  by (simp add: feeds_def reply_with_def write_reply_def svr_registry_def live_def split: prod.splits)

text \<open>Only other connections send requests, of \<open>usable\<close> commands; keys expire only where \<open>expiring\<close>.\<close>

fun stream_event :: "(Command \<Rightarrow> bool) \<Rightarrow> bool \<Rightarrow> fd \<Rightarrow> event \<Rightarrow> bool" where
  "stream_event usable expiring fd (Request fd' now line) \<longleftrightarrow> fd' \<noteq> fd \<and> line_of usable line"
| "stream_event usable expiring fd (FromPrimary now line) \<longleftrightarrow> line_of usable line"
| "stream_event usable expiring fd (Background t) \<longleftrightarrow> True"
| "stream_event usable expiring fd (Spill k) \<longleftrightarrow> True"
| "stream_event usable expiring fd (Expired k) \<longleftrightarrow> expiring"

abbreviation other_event :: "fd \<Rightarrow> event \<Rightarrow> bool" where
  "other_event \<equiv> stream_event (\<lambda>cmd. True) False"

lemma feeds_files:
  "feeds agrees fd B n ls (s\<lparr>svr_node := (svr_node s)\<lparr>node_disk := d, persistence := p\<rparr>\<rparr>) = feeds agrees fd B n ls s"
  by (simp add: feeds_def svr_registry_def live_def)

lemma feeds_same: "feeds agrees fd B n ls s \<Longrightarrow> \<exists>more. length more \<le> 1 \<and> feeds agrees fd B n (ls @ more) s"
  by (intro exI [of _ "[]"]) simp

text \<open>
  The stream grows by whole lines, and every prefix of it that holds the lines so far replays to the
  data after some of the events.
\<close>

definition past_state :: "(val option \<Rightarrow> val option \<Rightarrow> bool) \<Rightarrow> event list \<Rightarrow> server \<Rightarrow> (key \<rightharpoonup> val) \<Rightarrow> bool" where
  "past_state agrees es s m \<longleftrightarrow> storable m \<and> (\<exists>i \<le> length es. agree_maps agrees (live (run_events (take i es) s)) m)"

lemma past_state_Cons: "past_state agrees es (run_event e s) m \<Longrightarrow> past_state agrees (e # es) s m"
  unfolding past_state_def by (metis Suc_le_mono fold_simps(2) length_Cons run_events_def take_Suc_Cons)

context lagging_log
begin

text \<open>A propagated line lengthens the stream by that line.\<close>

lemma feeds_propagate:
  assumes f: "feeds agrees fd B (Suc n) ls s" and p: "parse line = Inr cmd" and sl: "safe_line line" and wr: "isWriteCommand (cmd_type cmd)" and us: "usable cmd"
    and d: "data_ok (svr_node s')" and lv: "live s' = content_step cmd (live s)"
    and reg: "svr_registry s' = svr_registry s"
    and so: "svr_socks s' = registry_propagate (svr_registry s) line (svr_socks s)"
  shows "feeds agrees fd B n (ls @ [line]) s'"
proof -
  have len: "length line \<le> 8172" and lf: "LF \<notin> set line" using sl by (simp_all add: safe_line_def)
  have "length (line @ [LF]) \<le> B" using f len by (simp add: feeds_def kMaxLineLength_def)
  from writeRaw_roomy [of B n "svr_socks s fd", OF _ this] f obtain k' where
    w: "writeLine (svr_socks s fd) line = (k', True)" "sk_out k' = sk_out (svr_socks s fd) @ line @ [LF]" "roomy B n k'"
    by (auto simp: feeds_def writeLine_def)
  have "svr_socks s' fd = k'"
    using f propagate_each [of "replicaFds (svr_registry s)" fd line "svr_socks s"] w(1)
    by (simp add: so registry_propagate_def feeds_def)
  then show ?thesis using f w(2,3) d lv lf len p wr agree_step [OF us] content_step_storable [OF p len] by (simp add: feeds_def reg kMaxLineLength_def write_line_def)
qed

lemma feeds_executed:
  assumes f: "feeds agrees fd B (Suc n) ls s" and p: "parse line = Inr cmd" and lo: "line_of usable line"
    and e: "execute_on now cmd s = (s1, r)"
  shows "\<exists>more. length more \<le> 1 \<and> feeds agrees fd B n (ls @ more) (recordAndPropagateIfWrite cmd line r s1)"
proof -
  let ?s2 = "recordAndPropagateIfWrite cmd line r s1"
  have d: "data_ok (svr_node s)" using f by (simp add: feeds_def)
  have sl: "safe_line line" and us: "usable cmd" using lo p by (simp_all add: line_of_def)
  have len: "length line \<le> 8172" using sl by (simp add: safe_line_def)
  note n1 = execute_on_node [OF e]
  have d2: "data_ok (svr_node ?s2)" and l2: "live ?s2 = content_step cmd (live s)"
    using execute_data_ok [OF d p len, of now] n1 by (simp_all add: record_node live_def)
  have reg: "svr_registry ?s2 = svr_registry s" "svr_registry s1 = svr_registry s"
    using registry_execute_on [OF e] by (simp_all add: registry_record)
  note socks = execute_on_socks [OF e]
  show ?thesis
  proof (cases "\<not> is_error_reply r \<and> isWriteCommand (cmd_type cmd)")
    case True
    then have "svr_socks ?s2 = registry_propagate (svr_registry s) line (svr_socks s)"
      using n1 [THEN conjunct2, THEN conjunct2] by (simp add: record_socks reg(2) socks)
    from feeds_propagate [OF f p sl conjunct2 [OF True] us d2 l2 reg(1) this] show ?thesis by (intro exI [of _ "[line]"]) simp
  next
    case False
    then have so: "svr_socks ?s2 = svr_socks s" by (auto simp: record_socks socks)
    have "content_step cmd (live s) = live s"
    proof (cases "is_error_reply r")
      case True
      then show ?thesis
        using content_step_error [OF data_ok_store_inv [OF d], of now cmd] d n1 by (simp add: live_def data_ok_def)
    qed (use False content_step_read in simp)
    then have "feeds agrees fd B n ls ?s2" using f d2 l2 so by (simp add: feeds_def reg roomy_def)
    then show ?thesis by (intro exI [of _ "[]"]) simp
  qed
qed

lemma feeds_event:
  assumes f: "feeds agrees fd B (Suc n) ls s" and e: "stream_event usable expiring fd e"
  shows "\<exists>more. length more \<le> 1 \<and> feeds agrees fd B n (ls @ more) (run_event e s)"
proof (cases e)
  case (Request fd' now line)
  with e have ne: "fd' \<noteq> fd" and sl: "line_of usable line" by simp_all
  show ?thesis
  proof (cases "parse line")
    case (Inl x)
    then show ?thesis
      using feeds_same [OF feeds_less [OF f]] ne by (cases x) (simp add: Request handle_line_def feeds_reply)
  next
    case (Inr cmd)
    obtain s1 r where x: "execute_on now cmd s = (s1, r)" by fastforce
    show ?thesis
      using feeds_executed [OF f Inr sl x] feeds_same [OF feeds_less [OF f]] ne Inr x
      by (simp add: Request handle_line_def feeds_reply)
  qed
next
  case (FromPrimary now line)
  with e have sl: "line_of usable line" by simp
  show ?thesis
  proof (cases "parse line")
    case (Inl x)
    then show ?thesis using feeds_same [OF feeds_less [OF f]] by (simp add: FromPrimary apply_line_def)
  next
    case (Inr cmd)
    obtain s1 r where x: "execute_on now cmd s = (s1, r)" by fastforce
    show ?thesis using feeds_executed [OF f Inr sl x] by (simp add: FromPrimary apply_line_def Inr x)
  qed
next
  case (Background t)
  then show ?thesis
    using feeds_same [OF feeds_less [OF f]] by (simp add: background_def feeds_files split: option.split prod.split)
next
  case (Spill k)
  then show ?thesis
    using feeds_same [OF feeds_less [OF f]] by (simp add: spill_log_def feeds_files split: option.split prod.split)
next
  case (Expired k)
  have d: "data_ok (svr_node s)" and a: "agree_maps agrees (live s) (replay_map ls Map.empty)" using f by (simp_all add: feeds_def)
  have "agree_maps agrees (live (sweep_out k s)) (replay_map ls Map.empty)" using agree_vanished a e Expired sweep_out_data(2) [OF d] by simp
  then have "feeds agrees fd B n ls (sweep_out k s)"
    using feeds_less [OF f] sweep_out_data(1) [OF d] by (simp add: feeds_def sweep_out_def on_expire_def svr_registry_def Let_def)
  then show ?thesis using feeds_same Expired by simp
qed

lemma past_state_start: "agree_maps agrees (live s) m \<Longrightarrow> storable m \<Longrightarrow> past_state agrees es s m"
  by (auto simp: past_state_def run_events_def intro!: exI [of _ 0])

lemma feeds_events:
  "feeds agrees fd B (length es + n) ls s \<Longrightarrow> list_all (stream_event usable expiring fd) es \<Longrightarrow>
    \<exists>more. feeds agrees fd B n (ls @ more) (run_events es s) \<and> (\<forall>j. past_state agrees es s (replay_map (ls @ take j more) Map.empty))"
proof (induction es arbitrary: ls s)
  case Nil
  then have "agree_maps agrees (live s) (replay_map ls Map.empty)" "storable (replay_map ls Map.empty)" by (simp_all add: feeds_def)
  with Nil show ?case by (intro exI [of _ "[]"]) (simp add: run_events_def past_state_def)
next
  case (Cons e es)
  let ?s1 = "run_event e s"
  from Cons.prems feeds_event [of fd B "length es + n" ls s e] obtain a where
    a: "length a \<le> 1" "feeds agrees fd B (length es + n) (ls @ a) ?s1" by auto
  from Cons.IH [OF a(2)] Cons.prems(2) obtain b where
    b: "feeds agrees fd B n ((ls @ a) @ b) (run_events es ?s1)" "\<forall>j. past_state agrees es ?s1 (replay_map ((ls @ a) @ take j b) Map.empty)" by auto
  have "past_state agrees (e # es) s (replay_map (ls @ take j (a @ b)) Map.empty)" for j
  proof (cases "length a \<le> j")
    case True
    then show ?thesis using past_state_Cons [OF b(2) [rule_format, of "j - length a"]] by simp
  next
    case False
    with a(1) have "j = 0" by simp
    moreover have "agree_maps agrees (live s) (replay_map ls Map.empty)" "storable (replay_map ls Map.empty)"
      using Cons.prems(1) by (simp_all add: feeds_def)
    ultimately show ?thesis using past_state_start by simp
  qed
  with b(1) show ?case by (intro exI [of _ "a @ b"]) (simp add: run_events_def)
qed

text \<open>Registering and dumping start the stream.\<close>

lemma feeds_start:
  assumes "data_ok (svr_node s)" and "replication (svr_node s) = Some rm"
    and "distinct (replicaFds (registry rm))" and "fd \<notin> set (replicaFds (registry rm))"
    and "roomy B (Suc n) (svr_socks s fd)" and "sk_out (svr_socks s fd) = []"
    and "kMaxLineLength < B" and "length (SnapshotManager_save [] (store (svr_node s))) \<le> B"
  shows "\<exists>ls s'. sync_dump fd (sync_register fd s) = (s', True) \<and> feeds agrees fd B n ls s'"
proof -
  let ?s = "sync_register fd s" and ?es = "entries (store (svr_node s))"
  let ?ls = "map (\<lambda>(k, v). snapshot_line k v) ?es"
  have n: "store (svr_node ?s) = store (svr_node s)" "svr_socks ?s = svr_socks s"
    by (simp_all add: sync_register_def map_registry_def)
  from writeRaw_roomy [OF assms(5,8)] obtain k' where
    w: "writeRaw (svr_socks s fd) (SnapshotManager_save [] (store (svr_node s))) = (k', True)"
      "sk_out k' = SnapshotManager_save [] (store (svr_node s))" "roomy B n k'"
    using assms(6) by auto
  let ?s' = "?s\<lparr>svr_socks := (svr_socks s)(fd := k')\<rparr>"
  have dump: "sync_dump fd ?s = (?s', True)" by (simp add: sync_dump_def n w(1) Let_def)
  have i: "store_inv (store (svr_node s))" using assms(1) by (rule data_ok_store_inv)
  have st: "storable (contents (store (svr_node s)))" using assms(1) by (simp add: data_ok_def)
  have r: "replicaFds (svr_registry ?s') = replicaFds (registry rm) @ [fd]"
    by (simp add: svr_registry_def sync_register_def map_registry_def assms(2) registry_add_def)
  have d: "data_ok (svr_node ?s')"
    using assms(1,2) by (simp add: data_ok_def node_inv_def sync_register_def map_registry_def replication_inv_def
        split: option.splits)
  have lv: "live ?s' = contents (store (svr_node s))" by (simp add: live_def n)
  have "LF \<notin> set (snapshot_line k v) \<and> length (snapshot_line k v) \<le> kMaxLineLength \<and> write_line (snapshot_line k v)"
    if "(k, v) \<in> set ?es" for k v
    using storable_entries(2) [OF i st] that word_no_LF parse_snapshot_line [of k v]
    by (auto simp: snapshot_line_def fits_def write_line_def)
  then have "list_all (\<lambda>l. LF \<notin> set l \<and> length l \<le> kMaxLineLength \<and> write_line l) ?ls" by (auto simp: list_all_iff)
  moreover have "replay_map ?ls Map.empty = contents (store (svr_node s))"
    using replay_snapshot_contents [OF i st] snapshot_lines [OF storable_entries(1) [OF i st]] by simp
  ultimately have "feeds agrees fd B n ?ls ?s'"
    using assms(3,4,7) r d w lv st by (simp add: feeds_def SnapshotManager_save_eq agree_same)
  with dump show ?thesis by blast
qed

section \<open>A stream that is cut\<close>

text \<open>Whatever part of the stream beyond the dump arrives, the lines in it replay to a state the primary went through.\<close>

lemma cut_stream:
  assumes "data_ok (svr_node p)" and "replication (svr_node p) = Some rm"
    and "distinct (replicaFds (registry rm))" and "fd \<notin> set (replicaFds (registry rm))"
    and "roomy B (Suc (length es)) (svr_socks p fd)" and "sk_out (svr_socks p fd) = []"
    and "kMaxLineLength < B" and "length (SnapshotManager_save [] (store (svr_node p))) \<le> B"
    and "list_all (stream_event usable expiring fd) es"
    and "dumped = fst (sync_dump fd (sync_register fd p))"
    and "attempt (primaryHost l) (primaryPort l) = Some k" and "snd (writeLine k ''SYNC'')"
    and "\<forall>c \<in> set (sk_rx k). c \<noteq> []"
    and "concat (sk_rx k) = take j (sk_out (svr_socks (run_events es dumped) fd))"
    and "length (sk_out (svr_socks dumped fd)) \<le> j"
  shows "\<exists>ls i. link_session attempt onLine l st = (fold onLine ls st, True) \<and> i \<le> length es \<and>
    agree_maps agrees (live (run_events (take i es) dumped)) (replay_map ls Map.empty) \<and> data_ok (svr_node (run_events (take i es) dumped)) \<and>
    (length (sk_out (svr_socks (run_events es dumped) fd)) \<le> j \<longrightarrow> agree_maps agrees (live (run_events es dumped)) (replay_map ls Map.empty)) \<and>
    list_all (\<lambda>l. LF \<notin> set l \<and> write_line l) ls \<and> storable (replay_map ls Map.empty)"
proof -
  from feeds_start [OF assms(1-8)] assms(10) obtain ls where d: "feeds agrees fd B (length es) ls dumped" by auto
  from feeds_events [of fd B es 0 ls dumped] d assms(9) obtain more where
    f: "feeds agrees fd B 0 (ls @ more) (run_events es dumped)" and past: "past_state agrees es dumped (replay_map (ls @ take n more) Map.empty)" for n
    by auto
  have lines: "\<forall>l \<in> set (ls @ more). LF \<notin> set l \<and> length l \<le> kMaxLineLength \<and> write_line l"
    using f by (auto simp: feeds_def list_all_iff)
  then obtain n tail where cut: "take (j - length (unlines ls)) (unlines more) = unlines (take n more) @ tail" "LF \<notin> set tail"
    using take_unlines [of more "j - length (unlines ls)"] by auto
  have "length (unlines ls) \<le> j" using d assms(15) by (simp add: feeds_def)
  then have rx: "concat (sk_rx k) = unlines (ls @ take n more) @ tail" using f cut(1) assms(14) by (simp add: feeds_def)
  have sub: "\<forall>l \<in> set (ls @ take n more). LF \<notin> set l \<and> length l \<le> kMaxLineLength \<and> write_line l"
    using lines by (auto dest: in_set_takeD)
  then have lim: "\<forall>l \<in> set (ls @ take n more). LF \<notin> set l \<and> length l \<le> reader_limit"
    by (simp add: reader_limit_def kMaxLineLength_def)
  obtain i where i: "i \<le> length es" "agree_maps agrees (live (run_events (take i es) dumped)) (replay_map (ls @ take n more) Map.empty)"
    "storable (replay_map (ls @ take n more) Map.empty)"
    using past [of n] by (auto simp: past_state_def)
  have "replay_map (map strip_cr (ls @ take n more)) Map.empty = replay_map (ls @ take n more) Map.empty"
    using sub by (intro replay_map_strip_cr) blast
  moreover have "list_all (stream_event usable expiring fd) (take i es)" using assms(9) by (auto simp: list_all_iff dest: in_set_takeD)
  then have "data_ok (svr_node (run_events (take i es) dumped))"
    using feeds_events [of fd B "take i es" "length es - i" ls dumped] d i(1) by (auto simp: feeds_def)
  moreover have "agree_maps agrees (live (run_events es dumped)) (replay_map (ls @ take n more) Map.empty)"
    if "length (sk_out (svr_socks (run_events es dumped) fd)) \<le> j"
  proof -
    have "unlines more = unlines (take n more) @ tail" using that f cut(1) by (simp add: feeds_def)
    then have "unlines (drop n more) = tail" by (metis append_take_drop_id same_append_eq unlines_append)
    with cut(2) have "take n more = more" by (cases "drop n more") auto
    with f show ?thesis by (simp add: feeds_def)
  qed
  moreover have "list_all (\<lambda>l. LF \<notin> set l \<and> write_line l) (map strip_cr (ls @ take n more))"
    using sub by (auto simp: list_all_iff write_strip_cr)
  ultimately show ?thesis
    using link_session_cut [of attempt l k _ tail onLine st, OF assms(11-13) rx lim cut(2)] i
    by (intro exI [of _ "map strip_cr (ls @ take n more)"] exI [of _ i]) simp
qed

end

section \<open>What the replica makes of it\<close>

text \<open>The apply callback, with the clock of the replica counted by line.\<close>

definition apply_counted :: "(nat \<Rightarrow> nanos) \<Rightarrow> wire_line \<Rightarrow> server \<times> nat \<Rightarrow> server \<times> nat" where
  "apply_counted clk line si = (apply_line (clk (snd si)) line (fst si), Suc (snd si))"

lemma apply_line_live:
  assumes "node_inv (svr_node s)" and "kv_capacity (store (svr_node s)) = 0"
  shows "node_inv (svr_node (apply_line now line s)) \<and> kv_capacity (store (svr_node (apply_line now line s))) = 0 \<and>
    live (apply_line now line s) = (case parse line of Inl e \<Rightarrow> live s | Inr cmd \<Rightarrow> content_step cmd (live s))"
proof (cases "parse line")
  case (Inl e)
  then show ?thesis using assms by (simp add: apply_line_def)
next
  case (Inr cmd)
  have i: "store_inv (store (svr_node s))" using assms(1) by (simp add: node_inv_def)
  have x: "node_inv (fst (execute now cmd (svr_node s)))" using execute_node_inv [OF assms(1)] .
  then have p: "node_inv ((fst (execute now cmd (svr_node s)))\<lparr>persistence := q\<rparr>)" for q by (simp add: node_inv_def)
  show ?thesis
    using x p contents_execute [OF i assms(2), of now cmd] execute_capacity [of now cmd "svr_node s"] assms(2)
    by (auto simp: apply_line_def Inr live_def execute_on_def record_node split: prod.splits)
qed

lemma apply_counted_live:
  assumes "node_inv (svr_node s)" and "kv_capacity (store (svr_node s)) = 0"
  shows "live (fst (fold (apply_counted clk) ls (s, i))) = replay_map ls (live s)"
  using assms
proof (induction ls arbitrary: s i)
  case (Cons l ls)
  from apply_line_live [OF Cons.prems, of "clk i" l] Cons.IH show ?case by (simp add: apply_counted_def)
qed simp

section \<open>Properties\<close>




lemma fresh_server_parts:
  "replication (svr_node fresh_server) = Some new_ReplicationManager"
  "store (svr_node fresh_server) = new_KVStore 0"
  by (simp_all add: fresh_server_def boot_def new_PersistenceManager_def new_AofWriter_def recover_def loadFromFile_def
      AofLoader_replay_def replayLines_def setReplication_def setPersistence_def new_node_def
      empty_disk_def default_PersistenceConfig_def aofPath_def snapshotPath_def read_file_def write_file_def
      file_bytes_def lookup_update_if)


text \<open>A primary that dumps its empty store and then executes one write, and a socket that delivers the first bytes of it.\<close>

definition fed_primary :: server where
  "fed_primary = fresh_server\<lparr>svr_socks := \<lambda>fd. \<lparr>sk_rx = [], sk_tx = [9999, 9999], sk_out = []\<rparr>\<rparr>"

definition fed_events :: "event list" where
  "fed_events = [Request 5 1 ''SET k v'']"

definition fed_dump :: server where
  "fed_dump = fst (sync_dump 9 (sync_register 9 fed_primary))"

definition cut_sock :: "nat \<Rightarrow> sock" where
  "cut_sock n = (let bytes = take n (sk_out (svr_socks (run_events fed_events fed_dump) 9))
     in \<lparr>sk_rx = (if bytes = [] then [] else [bytes]), sk_tx = [5], sk_out = []\<rparr>)"

lemma fed_primary_facts:
  "data_ok (svr_node fed_primary)" "replication (svr_node fed_primary) = Some new_ReplicationManager"
  "roomy 9999 (Suc (length fed_events)) (svr_socks fed_primary 9)" "sk_out (svr_socks fed_primary 9) = []"
  "length (SnapshotManager_save [] (store (svr_node fed_primary))) \<le> 9999" "list_all (other_event 9) fed_events"
  "sk_out (svr_socks fed_dump 9) = []"
  using fresh_server_sound(1)
  by (simp_all add: sound_def data_ok_def fed_primary_def fed_events_def fed_dump_def fresh_server_parts roomy_def safe_line_def
      SnapshotManager_save_eq entries_new sync_dump_def sync_register_def map_registry_def writeRaw_def)

lemma cut_sock_facts:
  "snd (writeLine (cut_sock n) ''SYNC'')" "\<forall>c \<in> set (sk_rx (cut_sock n)). c \<noteq> []"
  "concat (sk_rx (cut_sock n)) = take n (sk_out (svr_socks (run_events fed_events fed_dump) 9))"
  by (simp_all add: cut_sock_def writeLine_def writeRaw_def Let_def)

lemma fresh_replica_facts:
  "node_inv (svr_node fresh_server)" "kv_capacity (store (svr_node fresh_server)) = 0" "live fresh_server = Map.empty"
  using fresh_server_sound by (simp_all add: sound_def data_ok_def)

lemma new_registry_facts: "distinct (replicaFds (registry new_ReplicationManager))" "9 \<notin> set (replicaFds (registry new_ReplicationManager))"
  by (simp_all add: new_ReplicationManager_def)


text \<open>Two writes are sent to the replica; then one of the keys expires on the primary.\<close>

definition lapsed_events :: "event list" where
  "lapsed_events = [Request 5 1 ''SET k v'', Request 5 2 ''SET j w'', Expired ''k'']"


end
