(* ===== verification/Failover.thy ===== *)
theory Failover
  imports Cluster Replication_Theorems
begin

text \<open>
  Failing over: a primary feeds a replica (\<^verbatim>\<open>handleSyncConnection\<close>, \<^verbatim>\<open>ReplicaRegistry::propagate\<close>), its
  connection breaks at some point, the health checker finds the primary down, asks the replica to
  become a primary (\<^verbatim>\<open>REPLICAOF NO ONE\<close>) and turns the shard to it. The lemmas follow the replica from the
  stream through its promotion to a node that serves the shard; \<^verbatim>\<open>Cluster_Life\<close> builds on them.
\<close>

section \<open>Nodes that can be restarted\<close>

text \<open>
  Log and data agree, what the log holds can be stored, and the replication manager is there, with every replica
  registered once.
\<close>

definition durable_node :: "(val option \<Rightarrow> val option \<Rightarrow> bool) \<Rightarrow> server \<Rightarrow> bool" where
  "durable_node agrees s \<longleftrightarrow> tracks agrees s \<and> storable (logged s) \<and> replication (svr_node s) \<noteq> None \<and>
     distinct (replicaFds (svr_registry s))"

lemma durable_data: "durable_node agrees s \<Longrightarrow> data_ok (svr_node s)"
  by (simp add: durable_node_def tracks_def sound_def)

lemma durable_exact: "durable_node (=) s \<longleftrightarrow> sound s \<and> live s = logged s \<and> replication (svr_node s) \<noteq> None \<and>
    distinct (replicaFds (svr_registry s))"
  using sound_storable [of s] by (auto simp: durable_node_def tracks_def)

lemma registry_apply:
  "map_option registry (replication (svr_node (apply_line now line s))) = map_option registry (replication (svr_node s))"
proof (cases "parse line")
  case (Inr cmd)
  then show ?thesis using execute_registry [of now cmd "svr_node s"] by (simp add: apply_line_def execute_on_def record_node split_beta)
qed (simp add: apply_line_def)

lemma registry_request:
  "map_option registry (replication (svr_node (fst (handle_line now fd line s)))) = map_option registry (replication (svr_node s))"
proof (cases "parse line")
  case (Inl e)
  then show ?thesis by (cases e) (simp add: handle_line_def reply_with_def write_reply_def split_beta)
next
  case (Inr cmd)
  then show ?thesis
    using execute_registry [of now cmd "svr_node s"]
    by (simp add: handle_line_def reply_with_def write_reply_def execute_on_def record_node split_beta)
qed

lemma registry_event:
  "map_option registry (replication (svr_node (run_event e s))) = map_option registry (replication (svr_node s))"
  using registry_apply registry_request
  by (cases e) (simp_all add: background_def spill_log_def sweep_out_def on_expire_def Let_def split: option.split prod.split)

lemma same_registry:
  assumes "map_option registry (replication (svr_node s')) = map_option registry (replication (svr_node s))"
  shows "svr_registry s' = svr_registry s" and "replication (svr_node s') = None \<longleftrightarrow> replication (svr_node s) = None"
proof -
  show "svr_registry s' = svr_registry s" unfolding svr_registry_alt assms ..
  show "replication (svr_node s') = None \<longleftrightarrow> replication (svr_node s) = None" using assms by (metis option.map_disc_iff)
qed

context lagging_log
begin

lemma durable_event:
  assumes "durable_node agrees s" and "usable_event usable expiring e"
  shows "durable_node agrees (run_event e s) \<and> svr_registry (run_event e s) = svr_registry s"
  using assms tracks_event [of s e] same_registry [OF registry_event, of e s] by (simp add: durable_node_def)

lemma durable_restarted:
  "durable_node agrees s \<Longrightarrow> durable_node agrees (restarted clk1 clk2 k s) \<and> agree_maps agrees (live s) (live (restarted clk1 clk2 k s))"
  using restarted_node [of s clk1 clk2 k]
  by (simp add: durable_node_def tracks_def agree_same svr_registry_def new_ReplicationManager_def)

end

section \<open>The replica when the primary is lost\<close>

text \<open>
  A primary \<open>p\<close> dumped its data to a replica on descriptor \<open>fd\<close> and is \<open>s\<close> now, at most \<open>n\<close> events later; the
  replica, fresh before, received the dump and some of the bytes after it (\<open>whole\<close>: all of them), and is \<open>q'\<close> now.
\<close>

definition fed :: "nat \<Rightarrow> fd \<Rightarrow> server \<Rightarrow> server \<Rightarrow> bool \<Rightarrow> server \<Rightarrow> bool" where
  "fed n fd p s whole q' \<longleftrightarrow> (\<exists>B attempt l k j q clk.
     roomy B (Suc n) (svr_socks p fd) \<and> sk_out (svr_socks p fd) = [] \<and>
     kMaxLineLength < B \<and> length (SnapshotManager_save [] (store (svr_node p))) \<le> B \<and>
     attempt (primaryHost l) (primaryPort l) = Some k \<and> snd (writeLine k ''SYNC'') \<and> (\<forall>c \<in> set (sk_rx k). c \<noteq> []) \<and>
     concat (sk_rx k) = take j (sk_out (svr_socks s fd)) \<and>
     length (sk_out (svr_socks (fst (sync_dump fd (sync_register fd p))) fd)) \<le> j \<and>
     whole = (length (sk_out (svr_socks s fd)) \<le> j) \<and>
     durable_node (=) q \<and> live q = Map.empty \<and>
     q' = fst (fst (link_session attempt (apply_counted clk) l (q, 0))))"

lemma apply_line_logged:
  assumes "node_inv (svr_node s)" and "kv_capacity (store (svr_node s)) = 0" and "log_ok (svr_node s)" and "live s = logged s"
    and "LF \<notin> set line" and "write_line line"
  shows "log_ok (svr_node (apply_line now line s)) \<and> live (apply_line now line s) = logged (apply_line now line s)"
proof (cases "parse line")
  case (Inl e)
  with assms show ?thesis by (simp add: apply_line_def)
next
  case (Inr cmd)
  obtain s1 r where e: "execute_on now cmd s = (s1, r)" by fastforce
  have a: "apply_line now line s = recordAndPropagateIfWrite cmd line r s1" by (simp add: apply_line_def Inr e)
  have lv: "live (apply_line now line s) = content_step cmd (live s)" using apply_line_live [OF assms(1,2), of now line] Inr by simp
  have ns: "cmd_type cmd \<noteq> SAVE" using assms(6) Inr by (auto simp: write_line_def)
  have i: "store_inv (store (svr_node s))" using assms(1) by (simp add: node_inv_def)
  show ?thesis
  proof (cases "is_error_reply r")
    case True
    then have "content_step cmd (live s) = live s"
      using content_step_error [OF i assms(2), of now cmd] execute_on_node [OF e] by (simp add: live_def)
    then show ?thesis using record_error_log [OF assms(3) e True, of line] lv assms(4) by (simp add: a logged_def)
  next
    case False
    then show ?thesis using record_other_log [OF assms(3) Inr assms(5) e False ns] lv assms(4) by (simp add: a logged_def)
  qed
qed

lemma apply_counted_durable:
  assumes "node_inv (svr_node s)" and "kv_capacity (store (svr_node s)) = 0" and "log_ok (svr_node s)" and "live s = logged s"
    and "list_all (\<lambda>l. LF \<notin> set l \<and> write_line l) ls" and "s' = fst (fold (apply_counted clk) ls (s, i))"
  shows "node_inv (svr_node s') \<and> kv_capacity (store (svr_node s')) = 0 \<and> log_ok (svr_node s') \<and> live s' = logged s' \<and>
    map_option registry (replication (svr_node s')) = map_option registry (replication (svr_node s))"
  using assms
proof (induction ls arbitrary: s i)
  case (Cons line ls)
  note l = apply_line_live [OF Cons.prems(1,2), of "clk i" line]
  have g: "log_ok (svr_node (apply_line (clk i) line s)) \<and> live (apply_line (clk i) line s) = logged (apply_line (clk i) line s)"
    using Cons.prems(5) by (intro apply_line_logged Cons.prems) simp_all
  have "apply_counted clk line (s, i) = (apply_line (clk i) line s, Suc i)" by (simp add: apply_counted_def)
  then have "s' = fst (fold (apply_counted clk) ls (apply_line (clk i) line s, Suc i))" using Cons.prems(6) by simp
  then show ?case
    using Cons.IH [of "apply_line (clk i) line s" "Suc i"] l g Cons.prems(5) registry_apply [of "clk i" line s] by simp
qed simp

context lagging_log
begin

lemma fed_registered:
  assumes "fed n fd p s whole q'" and "durable_node agrees p" and "fd \<notin> set (replicaFds (svr_registry p))"
  shows "fd \<in> set (replicaFds (svr_registry (fst (sync_dump fd (sync_register fd p)))))"
proof -
  obtain rm where rm: "replication (svr_node p) = Some rm" using assms(2) by (auto simp: durable_node_def)
  then have p: "distinct (replicaFds (registry rm))" "fd \<notin> set (replicaFds (registry rm))"
    using assms(2,3) by (simp_all add: durable_node_def svr_registry_def)
  obtain B where "roomy B (Suc n) (svr_socks p fd)" "sk_out (svr_socks p fd) = []"
      "kMaxLineLength < B" "length (SnapshotManager_save [] (store (svr_node p))) \<le> B"
    using assms(1) unfolding fed_def by auto
  from feeds_start [OF durable_data [OF assms(2)] rm p this] show ?thesis by (auto simp: feeds_def)
qed

lemma fed_replica:
  assumes "fed n fd p (run_events es dumped) whole q'" and "dumped = fst (sync_dump fd (sync_register fd p))"
    and "list_all (stream_event usable expiring fd) es" and "length es \<le> n" and "durable_node agrees p"
    and "fd \<notin> set (replicaFds (svr_registry p))"
  shows "\<exists>i \<le> length es. agree_maps agrees (live (run_events (take i es) dumped)) (live q')"
    and "whole \<Longrightarrow> agree_maps agrees (live (run_events es dumped)) (live q')" and "durable_node agrees q'"
proof -
  obtain rm where rm: "replication (svr_node p) = Some rm" using assms(5) by (auto simp: durable_node_def)
  then have p: "distinct (replicaFds (registry rm))" "fd \<notin> set (replicaFds (registry rm))"
    using assms(5,6) by (simp_all add: durable_node_def svr_registry_def)
  obtain B attempt l k j q clk where
    f: "roomy B (Suc (length es)) (svr_socks p fd)" "sk_out (svr_socks p fd) = []"
      "kMaxLineLength < B" "length (SnapshotManager_save [] (store (svr_node p))) \<le> B"
    and k: "attempt (primaryHost l) (primaryPort l) = Some k" "snd (writeLine k ''SYNC'')" "\<forall>c \<in> set (sk_rx k). c \<noteq> []"
      "concat (sk_rx k) = take j (sk_out (svr_socks (run_events es dumped) fd))"
      "length (sk_out (svr_socks dumped fd)) \<le> j"
    and w: "whole = (length (sk_out (svr_socks (run_events es dumped) fd)) \<le> j)"
    and q: "durable_node (=) q" "live q = Map.empty" "q' = fst (fst (link_session attempt (apply_counted clk) l (q, 0)))"
    using assms(1,2,4) unfolding fed_def roomy_def by auto
  from cut_stream [of p rm fd B es dumped attempt l k j "apply_counted clk" "(q, 0)",
      OF durable_data [OF assms(5)] rm p f assms(3,2) k] obtain ls i where
    ls: "link_session attempt (apply_counted clk) l (q, 0) = (fold (apply_counted clk) ls (q, 0), True)" "i \<le> length es"
      "agree_maps agrees (live (run_events (take i es) dumped)) (replay_map ls Map.empty)"
      "whole \<longrightarrow> agree_maps agrees (live (run_events es dumped)) (replay_map ls Map.empty)"
      "list_all (\<lambda>l. LF \<notin> set l \<and> write_line l) ls" "storable (replay_map ls Map.empty)"
    unfolding w by blast
  have q': "q' = fst (fold (apply_counted clk) ls (q, 0))" using q(3) ls(1) by simp
  have nq: "node_inv (svr_node q)" "kv_capacity (store (svr_node q)) = 0" "log_ok (svr_node q)" "live q = logged q"
    using q(1) by (simp_all add: durable_exact sound_def data_ok_def)
  have lv: "live q' = replay_map ls Map.empty" using apply_counted_live [OF nq(1,2)] q(2) q' by simp
  then show "\<exists>i \<le> length es. agree_maps agrees (live (run_events (take i es) dumped)) (live q')"
    and "whole \<Longrightarrow> agree_maps agrees (live (run_events es dumped)) (live q')"
    using ls(2-4) by auto
  note kept = apply_counted_durable [OF nq ls(5) q']
  then have "agree_maps agrees (live q') (logged q')" using agree_same by simp
  then show "durable_node agrees q'"
    using kept lv ls(6) q(1) same_registry [of q' q] by (simp add: durable_node_def tracks_def sound_def data_ok_def live_def)
qed

end

section \<open>Promotion\<close>

lemma parse_promotion: "parse ''REPLICAOF NO ONE'' = Inr (mk_command ''REPLICAOF'' [''NO'', ''ONE''])"
  by code_simp

context lagging_log
begin

text \<open>The replica's answer to \<^verbatim>\<open>REPLICAOF NO ONE\<close>: the data stays, and it takes writes from now on.\<close>

lemma promoted_node:
  assumes "durable_node agrees q" and "handle_line now fd ''REPLICAOF NO ONE'' q = (q', nx)"
  shows "node_ready q'" and "durable_node agrees q'" and "node_cell (svr_node q') = node_cell (svr_node q)"
    and "nx = NextLine \<Longrightarrow> sk_out (svr_socks q' fd) = sk_out (svr_socks q fd) @ ''+OK'' @ [LF]"
proof -
  let ?cmd = "mk_command ''REPLICAOF'' [''NO'', ''ONE'']"
  obtain rm where rm: "replication (svr_node q) = Some rm" using assms(1) by (auto simp: durable_node_def)
  have t: "commandTypeFromName ''REPLICAOF'' = REPLICAOF" "equalsIgnoreCase ''NO'' ''NO''" "equalsIgnoreCase ''ONE'' ''ONE''"
    by code_simp+
  have x: "execute now ?cmd (svr_node q) =
      ((svr_node q)\<lparr>totalCommands := totalCommands (svr_node q) + 1, replication := Some (replicaOfNoOne rm)\<rparr>, Reply_ok)"
    by (simp add: execute_def exec_REPLICAOF_def rm t Let_def)
  let ?q1 = "q\<lparr>svr_node := fst (execute now ?cmd (svr_node q))\<rparr>"
  have "recordAndPropagateIfWrite ?cmd ''REPLICAOF NO ONE'' Reply_ok ?q1 = ?q1" by (simp add: recordAndPropagateIfWrite_def t)
  then have h: "reply_with fd Reply_ok ?q1 = (q', nx)"
    using assms(2) by (simp add: handle_line_def parse_promotion t execute_on_def x)
  have ro: "role (replicaOfNoOne rm) = PRIMARY_ROLE" by (simp add: replicaOfNoOne_def Let_def)
  show "node_ready q'"
    using durable_data [OF assms(1)] reply_with_parts(1) [OF h] ro
    by (simp add: node_ready_def data_ok_def node_inv_def svr_role_def x)
  have "line_of usable ''REPLICAOF NO ONE''" by (simp add: line_of_def safe_line_def parse_promotion harmless t)
  then show "durable_node agrees q'"
    using durable_event [OF assms(1), of "Request fd now ''REPLICAOF NO ONE''"] assms(2) by simp
  show "node_cell (svr_node q') = node_cell (svr_node q)"
    using reply_with_parts(1) [OF h] by (simp add: x node_cell_def fun_eq_iff)
  show "nx = NextLine \<Longrightarrow> sk_out (svr_socks q' fd) = sk_out (svr_socks q fd) @ ''+OK'' @ [LF]"
    using reply_with_parts(2) [OF h] by (simp add: Reply_ok_def)
qed

end

text \<open>A check changes the active address of no other shard.\<close>

lemma checkShard_others: "j \<noteq> i \<Longrightarrow> activeAddressFor (checkShard nets m t i) j = activeAddressFor t j"
proof -
  assume j: "j \<noteq> i"
  obtain es where es: "checkShard nets m t i = fold topo_step es t" "\<forall>e \<in> set es. \<forall>j. e = Promote j \<longrightarrow> j = i"
    using checkShard_steps by blast
  have "activeAddressFor (fold topo_step es t) j = activeAddressFor t j"
    using es(2) j shard_table.only_promotion [of _ j] by (induction es arbitrary: t) auto
  then show ?thesis by (simp add: es(1))
qed

lemma checkShard_active:
  assumes "\<not> alreadyFailedOver t i" and "alreadyFailedOver (checkShard nets m t i) i"
  shows "activeAddressFor (checkShard nets m t i) = (activeAddressFor t)(i := replicaAddress t i)"
proof
  fix j
  obtain es where es: "checkShard nets m t i = fold topo_step es t" using checkShard_steps by blast
  show "activeAddressFor (checkShard nets m t i) j = ((activeAddressFor t)(i := replicaAddress t i)) j"
    using checkShard_others [of j i nets m t] shard_table.served [OF assms(1), of es] assms(2) by (cases "j = i") (simp_all add: es)
qed

text \<open>The nodes once the replica of shard \<open>i\<close> has handled the request of the health checker.\<close>

definition promoted :: "nanos \<Rightarrow> fd \<Rightarrow> ShardTopology \<Rightarrow> string \<Rightarrow> cluster \<Rightarrow> cluster" where
  "promoted now fd t i c =
     (let a = replicaAddress t i
      in c\<lparr>cu_nodes := (cu_nodes c)(a := fst (handle_line now fd ''REPLICAOF NO ONE'' (cu_nodes c a)))\<rparr>)"

context lagging_log
begin

text \<open>
  The shard turned to its replica: the cluster is in order, the keys of the shard are what the replica has, all others
  are what they were.
\<close>

lemma failover_step:
  assumes "cluster_ok (activeAddressFor t) c" and "\<not> alreadyFailedOver t i" and "alreadyFailedOver (checkShard nets m t i) i"
    and "durable_node agrees (cu_nodes c (replicaAddress t i))"
  shows "cluster_ok (activeAddressFor (checkShard nets m t i)) (promoted now fd t i c)"
    and "durable_node agrees (cu_nodes (promoted now fd t i c) (replicaAddress t i))"
    and "fst (cluster_abs (activeAddressFor (checkShard nets m t i)) (promoted now fd t i c)) =
       (\<lambda>k. if getNode (rt_ring (cu_router c)) k = i then live (cu_nodes c (replicaAddress t i)) k
            else fst (cluster_abs (activeAddressFor t) c) k)"
    and "getNode (rt_ring (cu_router c)) k \<noteq> i \<Longrightarrow>
       snd (cluster_abs (activeAddressFor (checkShard nets m t i)) (promoted now fd t i c)) k = snd (cluster_abs (activeAddressFor t) c) k"
proof -
  let ?a = "replicaAddress t i" and ?q = "cu_nodes c (replicaAddress t i)" and ?c = "promoted now fd t i c"
  let ?addr = "(activeAddressFor t)(i := replicaAddress t i)"
  note act = checkShard_active [OF assms(2,3)]
  obtain q' nx where h: "handle_line now fd ''REPLICAOF NO ONE'' ?q = (q', nx)" by fastforce
  note pn = promoted_node [OF assms(4) h]
  have c: "?c = c\<lparr>cu_nodes := (cu_nodes c)(?a := q')\<rparr>" by (simp add: promoted_def h)
  have cell: "node_cell (svr_node (cu_nodes ?c x)) = node_cell (svr_node (cu_nodes c x))" for x using pn(3) by (simp add: c)
  have ring: "rt_ring (cu_router ?c) = rt_ring (cu_router c)" by (simp add: c)
  show "cluster_ok (activeAddressFor (checkShard nets m t i)) ?c" unfolding act using assms(1) pn(1) by (auto simp: cluster_ok_def c)
  show "durable_node agrees (cu_nodes ?c ?a)" using pn(2) by (simp add: c)
  have abs: "(fst (cluster_abs ?addr ?c) k, snd (cluster_abs ?addr ?c) k) =
      node_cell (svr_node (cu_nodes c (?addr (getNode (rt_ring (cu_router c)) k)))) k" for k
    using cell [of "?addr (getNode (rt_ring (cu_router c)) k)"] by (simp add: cluster_abs_def home_def ring node_cell_def fun_eq_iff)
  show "fst (cluster_abs (activeAddressFor (checkShard nets m t i)) ?c) =
      (\<lambda>k. if getNode (rt_ring (cu_router c)) k = i then live ?q k else fst (cluster_abs (activeAddressFor t) c) k)"
    unfolding act using abs by (auto simp: fun_eq_iff node_cell_def live_def cluster_abs_def home_def)
  show "getNode (rt_ring (cu_router c)) k \<noteq> i \<Longrightarrow>
      snd (cluster_abs (activeAddressFor (checkShard nets m t i)) ?c) k = snd (cluster_abs (activeAddressFor t) c) k"
    unfolding act using abs [of k] by (auto simp: node_cell_def cluster_abs_def home_def)
qed

end

end
