(* ===== verification/Cluster_Life.thy ===== *)
theory Cluster_Life
  imports Failover
begin

text \<open>
  The life of a whole cluster: requests sent to the router (\<^verbatim>\<open>Router::handleConnection\<close>), pings and background
  work at the nodes, keys that expire, replicas that connect to their primaries (\<^verbatim>\<open>SYNC\<close>), rounds of the health checker that fail
  shards over, and nodes that are stopped and started again, in any order. The chronicle of a life is
  the list of its events, each with the state it led to; every step of it is related to one map of values and deadlines.
\<close>

section \<open>State\<close>

record life =
  lf_cluster :: cluster
  lf_table :: ShardTopology

datatype life_event =
    Asked request
  | Worked string event
  | Lapsed string key nanos
  | Synced string fd
  | Elsewhere string
  | Checked string
  | FailedOver string string bool
  | Restarted string

type_synonym chronicle = "(life_event \<times> life) list"

definition present :: "life \<Rightarrow> chronicle \<Rightarrow> life" where
  "present l0 tr = (if tr = [] then l0 else snd (last tr))"

definition addr_of :: "life \<Rightarrow> string \<Rightarrow> string" where
  "addr_of l = activeAddressFor (lf_table l)"

definition node_at :: "life \<Rightarrow> string \<Rightarrow> server" where
  "node_at l = cu_nodes (lf_cluster l)"

definition put_node :: "string \<Rightarrow> server \<Rightarrow> life \<Rightarrow> life" where
  "put_node a s l = l\<lparr>lf_cluster := (lf_cluster l)\<lparr>cu_nodes := (cu_nodes (lf_cluster l))(a := s)\<rparr>\<rparr>"

definition shard_of :: "life \<Rightarrow> key \<Rightarrow> string" where
  "shard_of l = getNode (rt_ring (cu_router (lf_cluster l)))"

definition life_abs :: "life \<Rightarrow> spec_state" where
  "life_abs l = cluster_abs (addr_of l) (lf_cluster l)"

section \<open>Steps\<close>

text \<open>What a node does besides serving the router: flushes, snapshots, pings of the health checker, \<^verbatim>\<open>SAVE\<close>.\<close>

fun quiet_event :: "server \<Rightarrow> event \<Rightarrow> bool" where
  "quiet_event s (Request fd now line) \<longleftrightarrow> fd \<notin> set (replicaFds (svr_registry s)) \<and> line \<in> {''PING'', ''SAVE''}"
| "quiet_event s (Background t) \<longleftrightarrow> True"
| "quiet_event s (Spill k) \<longleftrightarrow> True"
| "quiet_event s (FromPrimary now line) \<longleftrightarrow> False"
| "quiet_event s (Expired k) \<longleftrightarrow> False"

text \<open>Events after which the stream from a node to its replica begins anew.\<close>

fun cuts :: "string \<Rightarrow> life_event \<Rightarrow> bool" where
  "cuts a (Synced b fd) \<longleftrightarrow> b = a"
| "cuts a (Restarted b) \<longleftrightarrow> b = a"
| "cuts a e \<longleftrightarrow> False"

text \<open>
  A replica of the node at \<open>a\<close> that was fresh when it connected, and has received the dump and a part of the
  stream since.
\<close>

definition caught_up :: "life \<Rightarrow> chronicle \<Rightarrow> string \<Rightarrow> bool \<Rightarrow> server \<Rightarrow> bool" where
  "caught_up l0 tr a whole q \<longleftrightarrow> (\<exists>tr1 fd d tr2. tr = tr1 @ (Synced a fd, d) # tr2 \<and> (\<forall>x \<in> set tr2. \<not> cuts a (fst x)) \<and>
     fed (length tr2) fd (node_at (present l0 tr1) a) (node_at (present l0 tr) a) whole q)"

text \<open>
  One event, with requests of \<open>usable\<close> commands, and expiry only where \<open>expiring\<close>. Addresses that serve no shard are not followed: nodes that are replicas, or have been given
  up, may do anything. A failover finds the replica in the state its stream has left it in.
\<close>

inductive life_step :: "(Command \<Rightarrow> bool) \<Rightarrow> bool \<Rightarrow> life \<Rightarrow> chronicle \<Rightarrow> life_event \<Rightarrow> life \<Rightarrow> bool" for usable expiring l0 tr where
  ls_asked: "l = present l0 tr \<Longrightarrow> data_line (fst (snd rq)) \<Longrightarrow> line_of usable (fst (snd rq)) \<Longrightarrow> cluster_step (addr_of l) (lf_cluster l) rq c' \<Longrightarrow>
    life_step usable expiring l0 tr (Asked rq) (l\<lparr>lf_cluster := c'\<rparr>)"
| ls_worked: "l = present l0 tr \<Longrightarrow> quiet_event (node_at l a) e \<Longrightarrow>
    life_step usable expiring l0 tr (Worked a e) (put_node a (run_event e (node_at l a)) l)"
| ls_lapsed: "l = present l0 tr \<Longrightarrow> expiring \<Longrightarrow> s = node_at l a \<Longrightarrow> wait_covers (expiry (svr_node s)) (Waiting d) \<Longrightarrow>
    sweep_step now (expiry (svr_node s), Waiting d) (m, Firing k) \<Longrightarrow>
    life_step usable expiring l0 tr (Lapsed a k now) (put_node a (on_expire k (s\<lparr>svr_node := (svr_node s)\<lparr>expiry := m\<rparr>\<rparr>)) l)"
| ls_synced: "l = present l0 tr \<Longrightarrow> fd \<notin> set (replicaFds (svr_registry (node_at l a))) \<Longrightarrow>
    life_step usable expiring l0 tr (Synced a fd) (put_node a (fst (sync_dump fd (sync_register fd (node_at l a)))) l)"
| ls_elsewhere: "l = present l0 tr \<Longrightarrow> a \<notin> range (addr_of l) \<Longrightarrow> life_step usable expiring l0 tr (Elsewhere a) (put_node a s l)"
| ls_checked: "l = present l0 tr \<Longrightarrow> t' = checkShard nets m (lf_table l) i \<Longrightarrow>
    alreadyFailedOver t' i = alreadyFailedOver (lf_table l) i \<Longrightarrow> life_step usable expiring l0 tr (Checked i) (l\<lparr>lf_table := t'\<rparr>)"
| ls_failed_over: "l = present l0 tr \<Longrightarrow> t' = checkShard nets m (lf_table l) i \<Longrightarrow>
    \<not> alreadyFailedOver (lf_table l) i \<Longrightarrow> alreadyFailedOver t' i \<Longrightarrow> b = replicaAddress (lf_table l) i \<Longrightarrow>
    caught_up l0 tr (addr_of l i) whole (node_at l b) \<Longrightarrow> fd \<notin> set (replicaFds (svr_registry (node_at l b))) \<Longrightarrow>
    life_step usable expiring l0 tr (FailedOver i (addr_of l i) whole)
      \<lparr>lf_cluster = promoted now fd (lf_table l) i (lf_cluster l), lf_table = t'\<rparr>"
| ls_restarted: "l = present l0 tr \<Longrightarrow> a \<in> range (addr_of l) \<Longrightarrow>
    life_step usable expiring l0 tr (Restarted a) (put_node a (restarted clk1 clk2 socks (node_at l a)) l)"

inductive lifetime :: "(Command \<Rightarrow> bool) \<Rightarrow> bool \<Rightarrow> life \<Rightarrow> chronicle \<Rightarrow> bool" for usable expiring l0 where
  lt_born: "lifetime usable expiring l0 []"
| lt_step: "lifetime usable expiring l0 tr \<Longrightarrow> life_step usable expiring l0 tr e l' \<Longrightarrow> lifetime usable expiring l0 (tr @ [(e, l')])"

inductive_cases lifetime_snocE: "lifetime usable expiring l0 (tr @ [(e, l')])"

text \<open>
  What an event may do to the one map. Values that expire are gone with their deadlines. A failover takes the values of one
  shard back to a moment since its replica connected, to the present if the replica had received everything; a restart
  keeps all values; values and deadlines of other shards and nodes stay. Where keys expire, to take back and to
  keep means that every value is there, and perhaps some that had expired.
\<close>

fun life_effect :: "(val option \<Rightarrow> val option \<Rightarrow> bool) \<Rightarrow> life \<Rightarrow> chronicle \<Rightarrow> life_event \<Rightarrow> life \<Rightarrow> bool" where
  "life_effect agrees l0 tr (Asked rq) l' \<longleftrightarrow> one_map (life_abs (present l0 tr)) rq (life_abs l')"
| "life_effect agrees l0 tr (Lapsed a k now) l' \<longleftrightarrow> (let (m, d) = life_abs (present l0 tr)
     in if addr_of (present l0 tr) (shard_of l0 k) = a
        then (\<exists>t \<le> now. d k = Some t) \<and> life_abs l' = (m(k := None), d(k := None))
        else life_abs l' = (m, d))"
| "life_effect agrees l0 tr (FailedOver i a whole) l' \<longleftrightarrow>
     (\<exists>tr1 fd d tr2 p. tr = tr1 @ (Synced a fd, d) # tr2 \<and> p \<in> insert d (snd ` set tr2) \<and>
        (\<forall>k. shard_of l0 k = i \<longrightarrow> agrees (fst (life_abs p) k) (fst (life_abs l') k))) \<and>
     (whole \<longrightarrow> (\<forall>k. shard_of l0 k = i \<longrightarrow> agrees (fst (life_abs (present l0 tr)) k) (fst (life_abs l') k))) \<and>
     (\<forall>k. shard_of l0 k \<noteq> i \<longrightarrow> fst (life_abs l') k = fst (life_abs (present l0 tr)) k \<and>
        snd (life_abs l') k = snd (life_abs (present l0 tr)) k)"
| "life_effect agrees l0 tr (Restarted a) l' \<longleftrightarrow>
     (\<forall>k. agrees (fst (life_abs (present l0 tr)) k) (fst (life_abs l') k)) \<and>
     (\<forall>k. addr_of (present l0 tr) (shard_of l0 k) \<noteq> a \<longrightarrow> fst (life_abs l') k = fst (life_abs (present l0 tr)) k \<and>
        snd (life_abs l') k = snd (life_abs (present l0 tr)) k)"
| "life_effect agrees l0 tr e l' \<longleftrightarrow> life_abs l' = life_abs (present l0 tr)"

text \<open>Every node that serves a shard is a primary in order, whose data and log agree.\<close>

definition life_ok :: "(val option \<Rightarrow> val option \<Rightarrow> bool) \<Rightarrow> life \<Rightarrow> bool" where
  "life_ok agrees l \<longleftrightarrow> cluster_ok (addr_of l) (lf_cluster l) \<and> (\<forall>i. durable_node agrees (node_at l (addr_of l i)))"

section \<open>What a step does to the nodes and to the table\<close>

lemma present_snoc [simp]: "present l0 (tr @ [(e, l')]) = l'"
  and present_Nil [simp]: "present l0 [] = l0"
  by (simp_all add: present_def)

lemma put_node_simps [simp]:
  "node_at (put_node a s l) b = (if b = a then s else node_at l b)" "addr_of (put_node a s l) = addr_of l"
  "lf_table (put_node a s l) = lf_table l" "shard_of (put_node a s l) = shard_of l"
  "cu_router (lf_cluster (put_node a s l)) = cu_router (lf_cluster l)" "node_at (l\<lparr>lf_table := t\<rparr>) = node_at l"
  by (simp_all add: node_at_def put_node_def addr_of_def shard_of_def)

lemma life_abs_alt:
  "life_abs l = (\<lambda>k. contents (store (svr_node (node_at l (addr_of l (shard_of l k))))) k,
     \<lambda>k. expiryOf (expiry (svr_node (node_at l (addr_of l (shard_of l k))))) k)"
  by (simp add: life_abs_def cluster_abs_def home_def shard_of_def node_at_def)

text \<open>Between cuts, a node that serves a shard only goes through events on other descriptors than those of its replicas.\<close>

definition moves :: "(Command \<Rightarrow> bool) \<Rightarrow> bool \<Rightarrow> server \<Rightarrow> server \<Rightarrow> bool" where
  "moves usable expiring s s' \<longleftrightarrow> s' = s \<or> (\<exists>ev. usable_event usable expiring ev \<and>
     (\<forall>fd \<in> set (replicaFds (svr_registry s)). stream_event usable expiring fd ev) \<and> s' = run_event ev s)"

lemma moves_refl [simp]: "moves usable expiring s s"
  by (simp add: moves_def)

lemma request_moves:
  "fd \<notin> set (replicaFds (svr_registry s)) \<Longrightarrow> line_of usable line \<Longrightarrow> moves usable expiring s (fst (handle_line now fd line s))"
  unfolding moves_def by (intro disjI2 exI [of _ "Request fd now line"]) auto

lemma line_of_strip: "line_of usable line \<Longrightarrow> line_of usable (strip_cr line)"
proof -
  assume l: "line_of usable line"
  then have "parse (strip_cr line) = parse line" by (intro parse_strip_cr) (simp add: line_of_def safe_line_def kMaxLineLength_def)
  moreover have "LF \<notin> set (strip_cr line)" "length (strip_cr line) \<le> 8172"
    using l by (auto simp: line_of_def safe_line_def strip_cr_def dest: in_set_butlastD)
  ultimately show ?thesis using l by (simp add: line_of_def safe_line_def)
qed

text \<open>The sweeper fires for a key that is due.\<close>

lemma sweep_fires:
  assumes "sweep_step now (expiry (svr_node s), Waiting d) (m, Firing k)" and "wait_covers (expiry (svr_node s)) (Waiting d)"
  shows "on_expire k (s\<lparr>svr_node := (svr_node s)\<lparr>expiry := m\<rparr>\<rparr>) = sweep_out k s"
    and "\<exists>t \<le> now. expiryOf (expiry (svr_node s)) k = Some t"
proof -
  show "on_expire k (s\<lparr>svr_node := (svr_node s)\<lparr>expiry := m\<rparr>\<rparr>) = sweep_out k s"
    using assms(1) by (auto elim!: from_WaitingE simp: sweep_out_def Let_def)
  show "\<exists>t \<le> now. expiryOf (expiry (svr_node s)) k = Some t"
    using fire_is_due [of now "expiry (svr_node s)" d m k] assms by (auto simp: expiryOf_def)
qed

lemma quiet_lines:
  "parse ''PING'' = Inr (mk_command ''PING'' [])" "parse ''SAVE'' = Inr (mk_command ''SAVE'' [])"
  "commandTypeFromName ''PING'' = PING" "commandTypeFromName ''SAVE'' = SAVE"
  by code_simp+

context lagging_log
begin

lemma quiet_moves: "quiet_event s e \<Longrightarrow> moves usable expiring s (run_event e s)"
proof (cases e)
  case (Request fd now line)
  assume "quiet_event s e"
  with Request have fd: "fd \<notin> set (replicaFds (svr_registry s))" and l: "line \<in> {''PING'', ''SAVE''}" by simp_all
  have "line_of usable line" using l by (auto simp: line_of_def safe_line_def quiet_lines harmless)
  from request_moves [OF fd this] show ?thesis by (simp add: Request)
qed (auto simp: moves_def intro!: disjI2 exI [of _ e])

lemma durable_moves: "moves usable expiring s s' \<Longrightarrow> durable_node agrees s \<Longrightarrow> durable_node agrees s' \<and> svr_registry s' = svr_registry s"
  using durable_event by (auto simp: moves_def)

end

lemma asked_nodes:
  assumes "cluster_step addr c rq c'" and "line_of usable (fst (snd rq))"
  shows "rt_ring (cu_router c') = rt_ring (cu_router c)" and "moves usable expiring (cu_nodes c a) (cu_nodes c' a)"
proof -
  have "rt_ring (cu_router c') = rt_ring (cu_router c) \<and> moves usable expiring (cu_nodes c a) (cu_nodes c' a)"
    using assms(1)
  proof (cases rule: cluster_step.cases)
    case (cs_own line t net r' reply now)
    then show ?thesis using own_answer [OF cs_own(3,5)] by simp
  next
    case (cs_served line cmd t b fd now s' chunks net r' reply)
    have "s' = fst (handle_line now fd (strip_cr line) (cu_nodes c b))" using cs_served(7) by simp
    then have "moves usable expiring (cu_nodes c b) s'" using request_moves [OF cs_served(6) line_of_strip] assms(2) cs_served(1) by simp
    then show ?thesis using ring_answer [OF cs_served(10)] by (simp add: cs_served(2))
  next
    case (cs_lost line cmd t b fd s' now net r' reply)
    have "moves usable expiring (cu_nodes c b) s'" using cs_lost(7) request_moves [OF cs_lost(6) line_of_strip] assms(2) cs_lost(1) by auto
    then show ?thesis using ring_answer [OF cs_lost(8)] by (simp add: cs_lost(2))
  qed
  then show "rt_ring (cu_router c') = rt_ring (cu_router c)" and "moves usable expiring (cu_nodes c a) (cu_nodes c' a)" by simp_all
qed

context lagging_log
begin

lemma step_moves:
  assumes "life_step usable expiring l0 tr e l'" and "a \<in> range (addr_of (present l0 tr))" and "\<not> cuts a e"
  shows "moves usable expiring (node_at (present l0 tr) a) (node_at l' a)"
  using assms(1)
proof cases
  case (ls_asked l rq c')
  then show ?thesis using asked_nodes(2) [OF ls_asked(6,5), where a = a and expiring = expiring] by (simp add: node_at_def)
next
  case (ls_worked l b ev)
  then show ?thesis using quiet_moves by simp
next
  case (ls_lapsed l s b d now m k)
  have "moves usable expiring s (sweep_out k s)" using ls_lapsed(4) by (auto simp: moves_def intro!: disjI2 exI [of _ "Expired k"])
  then show ?thesis using ls_lapsed sweep_fires(1) [OF ls_lapsed(7,6)] by simp
next
  case (ls_failed_over l t' nets m i b whole fd now)
  have "commandTypeFromName ''REPLICAOF'' = REPLICAOF" by code_simp
  then have "line_of usable ''REPLICAOF NO ONE''" by (simp add: line_of_def safe_line_def parse_promotion harmless)
  from request_moves [OF ls_failed_over(9) this, where expiring = expiring and now = now] show ?thesis
    by (simp add: ls_failed_over(2,7) ls_failed_over(3) [symmetric] promoted_def node_at_def Let_def)
qed (use assms in auto)

end

text \<open>A shard that has not been failed over is where it was.\<close>

lemma step_table:
  assumes "life_step usable expiring l0 tr e l'" and "\<not> alreadyFailedOver (lf_table l') j"
  shows "\<not> alreadyFailedOver (lf_table (present l0 tr)) j \<and> addr_of l' j = addr_of (present l0 tr) j"
  using assms(1)
proof cases
  case (ls_checked l t' nets m i)
  obtain es where "t' = fold topo_step es (lf_table l)" using checkShard_steps ls_checked(4) by metis
  with assms(2) ls_checked shard_table.latched [of "lf_table l" j es] shard_table.served [of "lf_table l" j es]
  show ?thesis by (auto simp: addr_of_def)
next
  case (ls_failed_over l t' nets m i b whole fd now)
  obtain es where "t' = fold topo_step es (lf_table l)" using checkShard_steps ls_failed_over(4) by metis
  with assms(2) ls_failed_over(2,3) shard_table.latched [of "lf_table l" j es] shard_table.served [of "lf_table l" j es]
  show ?thesis by (auto simp: addr_of_def)
qed (use assms(2) in \<open>auto simp: addr_of_def put_node_def\<close>)

lemma step_ring: "life_step usable expiring l0 tr e l' \<Longrightarrow> shard_of l' = shard_of (present l0 tr)"
  by (cases rule: life_step.cases, assumption) (auto simp: shard_of_def promoted_def Let_def asked_nodes(1))

section \<open>What a replica has missed\<close>

text \<open>From the dump on, the node at \<open>a\<close> goes through events, and every state in between is in the chronicle.\<close>

lemma lifetime_snoc: "lifetime usable expiring l0 (tr @ [(e, l')]) \<Longrightarrow> lifetime usable expiring l0 tr \<and> life_step usable expiring l0 tr e l'"
  by (auto elim: lifetime_snocE)

context lagging_log
begin

lemma since_dump:
  assumes "lifetime usable expiring l0 (tr1 @ (Synced a fd, d) # tr2)" and "l = present l0 (tr1 @ (Synced a fd, d) # tr2)"
    and "\<forall>x \<in> set tr2. \<not> cuts a (fst x)" and "\<not> alreadyFailedOver (lf_table l) i" and "addr_of l i = a"
    and "durable_node agrees (node_at d a)" and "fd \<in> set (replicaFds (svr_registry (node_at d a)))"
  shows "\<exists>es. length es \<le> length tr2 \<and> list_all (stream_event usable expiring fd) es \<and> node_at l a = run_events es (node_at d a) \<and>
    (\<forall>n \<le> length es. \<exists>p \<in> insert d (snd ` set tr2). addr_of p i = a \<and> node_at p a = run_events (take n es) (node_at d a))"
  using assms
proof (induction tr2 arbitrary: l rule: rev_induct)
  case Nil
  then show ?case by (intro exI [of _ "[]"]) (simp add: run_events_def present_def)
next
  case (snoc x tr2)
  let ?tr = "tr1 @ (Synced a fd, d) # tr2"
  obtain e where x: "x = (e, l)" using snoc.prems(2) by (cases x) (simp add: present_def)
  have lt: "lifetime usable expiring l0 ?tr" and st: "life_step usable expiring l0 ?tr e l" using lifetime_snoc [of usable expiring l0 ?tr e l] snoc.prems(1) x by simp_all
  note tb = step_table [OF st snoc.prems(4)]
  from snoc.IH [OF lt refl] snoc.prems(3,5-7) tb obtain es where
    es: "length es \<le> length tr2" "list_all (stream_event usable expiring fd) es" "node_at (present l0 ?tr) a = run_events es (node_at d a)"
      "\<forall>n \<le> length es. \<exists>p \<in> insert d (snd ` set tr2). addr_of p i = a \<and> node_at p a = run_events (take n es) (node_at d a)"
    by auto
  have reg: "svr_registry (node_at (present l0 ?tr) a) = svr_registry (node_at d a)"
    unfolding es(3) by (induction es rule: rev_induct) (simp_all add: run_events_def same_registry(1) [OF registry_event])
  have "moves usable expiring (node_at (present l0 ?tr) a) (node_at l a)"
    using step_moves [OF st, of a] tb snoc.prems(3,5) x by (auto intro: range_eqI [of _ _ i])
  then consider (same) "node_at l a = node_at (present l0 ?tr) a"
    | (event) ev where "stream_event usable expiring fd ev" "node_at l a = run_event ev (node_at (present l0 ?tr) a)"
    using snoc.prems(7) by (auto simp: moves_def reg)
  then show ?case
  proof cases
    case same
    with es show ?thesis by (intro exI [of _ es]) auto
  next
    case event
    have now: "node_at l a = run_events (es @ [ev]) (node_at d a)" by (simp add: event(2) es(3) run_events_def)
    have "\<exists>p \<in> insert d (snd ` set (tr2 @ [x])). addr_of p i = a \<and> node_at p a = run_events (take n (es @ [ev])) (node_at d a)"
      if "n \<le> length (es @ [ev])" for n
    proof (cases "n \<le> length es")
      case True
      with es(4) show ?thesis by auto
    next
      case False
      with that now snoc.prems(5) show ?thesis by (auto simp: x)
    qed
    with event(1) es(1,2) now show ?thesis by (intro exI [of _ "es @ [ev]"]) auto
  qed
qed

section \<open>What an event does to the map\<close>

text \<open>A node replaced by one with the same cells.\<close>

lemma life_put:
  assumes "life_ok agrees l"
    and "a \<in> range (addr_of l) \<Longrightarrow> durable_node agrees s \<and> svr_role s = PRIMARY_ROLE \<and> node_cell (svr_node s) = node_cell (svr_node (node_at l a))"
  shows "life_ok agrees (put_node a s l) \<and> life_abs (put_node a s l) = life_abs l"
proof -
  have n: "node_cell (svr_node (node_at (put_node a s l) (addr_of l i))) = node_cell (svr_node (node_at l (addr_of l i)))"
    and r: "node_ready (node_at (put_node a s l) (addr_of l i)) \<and> durable_node agrees (node_at (put_node a s l) (addr_of l i))" for i
    using assms durable_data by (auto simp: life_ok_def cluster_ok_def node_ready_def node_at_def [symmetric])
  have "cluster_ok (addr_of (put_node a s l)) (lf_cluster (put_node a s l))"
    using assms(1) r by (simp add: life_ok_def cluster_ok_def node_at_def)
  then have "life_ok agrees (put_node a s l)" using r by (simp add: life_ok_def)
  moreover have "life_abs (put_node a s l) = life_abs l"
    using n by (simp add: life_abs_alt node_cell_def fun_eq_iff del: put_node_simps(1))
  ultimately show ?thesis by simp
qed

lemma quiet_execute:
  assumes "line \<in> {''PING'', ''SAVE''}"
  shows "\<exists>cmd. parse line = Inr cmd \<and> cmd_type cmd \<noteq> SYNC \<and> \<not> isWriteCommand (cmd_type cmd) \<and>
    store (fst (execute now cmd n)) = store n \<and> expiry (fst (execute now cmd n)) = expiry n \<and>
    replication (fst (execute now cmd n)) = replication n"
  using assms
  by (auto simp: quiet_lines execute_def Let_def exec_SAVE_def split: option.split prod.split)

lemma quiet_request:
  assumes "line \<in> {''PING'', ''SAVE''}"
  shows "node_cell (svr_node (fst (handle_line now fd line s))) = node_cell (svr_node s)"
    and "svr_role (fst (handle_line now fd line s)) = svr_role s"
proof -
  obtain cmd where c: "parse line = Inr cmd" "cmd_type cmd \<noteq> SYNC" "\<not> isWriteCommand (cmd_type cmd)"
    "store (fst (execute now cmd (svr_node s))) = store (svr_node s)" "expiry (fst (execute now cmd (svr_node s))) = expiry (svr_node s)"
    "replication (fst (execute now cmd (svr_node s))) = replication (svr_node s)"
    using quiet_execute [OF assms] by blast
  have "svr_node (fst (handle_line now fd line s)) = fst (execute now cmd (svr_node s))"
    using assms c(1-3)
    by (auto simp: handle_line_def reply_with_def write_reply_def execute_on_def record_node split_beta)
  with c(4-6) show "node_cell (svr_node (fst (handle_line now fd line s))) = node_cell (svr_node s)"
    and "svr_role (fst (handle_line now fd line s)) = svr_role s"
    by (simp_all add: node_cell_def svr_role_def fun_eq_iff)
qed

lemma quiet_kept:
  assumes "quiet_event s e" and "durable_node agrees s"
  shows "durable_node agrees (run_event e s)" and "svr_role (run_event e s) = svr_role s"
    and "node_cell (svr_node (run_event e s)) = node_cell (svr_node s)"
proof -
  show "durable_node agrees (run_event e s)" using durable_moves [OF quiet_moves [OF assms(1)] assms(2)] by simp
  have "svr_role (run_event e s) = svr_role s \<and> node_cell (svr_node (run_event e s)) = node_cell (svr_node s)"
  proof (cases e)
    case (Request fd now line)
    with assms(1) quiet_request [of line now fd s] show ?thesis by simp
  qed (use assms(1) in \<open>simp_all add: background_def spill_log_def node_cell_def svr_role_def fun_eq_iff split: option.split prod.split\<close>)
  then show "svr_role (run_event e s) = svr_role s" and "node_cell (svr_node (run_event e s)) = node_cell (svr_node s)" by simp_all
qed

lemma synced_node:
  assumes "durable_node agrees s" and "fd \<notin> set (replicaFds (svr_registry s))" and "s' = fst (sync_dump fd (sync_register fd s))"
  shows "durable_node agrees s'" and "svr_role s' = svr_role s" and "node_cell (svr_node s') = node_cell (svr_node s)"
proof -
  obtain rm where rm: "replication (svr_node s) = Some rm" using assms(1) by (auto simp: durable_node_def)
  have d: "data_ok (svr_node s)" "log_ok (svr_node s)" "agree_maps agrees (live s) (logged s)" "storable (logged s)" "distinct (replicaFds (registry rm))" "fd \<notin> set (replicaFds (registry rm))"
    using assms(1,2) rm by (simp_all add: durable_node_def tracks_def sound_def svr_registry_def)
  obtain k' ok where w: "writeRaw (svr_socks s fd) (SnapshotManager_save [] (store (svr_node s))) = (k', ok)" by fastforce
  let ?reg = "if ok then registry_add (registry rm) fd else registry_remove (registry_add (registry rm) fd) fd"
  have n: "svr_node s' = (svr_node s)\<lparr>replication := Some (rm\<lparr>registry := ?reg\<rparr>)\<rparr>"
    by (simp add: assms(3) sync_dump_def sync_register_def map_registry_def rm w Let_def)
  have reg: "distinct (replicaFds ?reg)" using d(5,6) by (simp add: registry_add_def registry_remove_def)
  have "log_ok (svr_node s')" "log_map (svr_node s') = log_map (svr_node s)"
    using log_unaffected [of "svr_node s'" "svr_node s"] d(2) by (simp_all add: n)
  moreover have "data_ok (svr_node s')" using d(1) rm by (simp add: n data_ok_def node_inv_def replication_inv_def split: option.splits)
  ultimately show "durable_node agrees s'" using d(3,4) reg by (simp add: durable_node_def tracks_def sound_def live_def logged_def svr_registry_def n)
  show "svr_role s' = svr_role s" by (simp add: svr_role_def n rm)
  show "node_cell (svr_node s') = node_cell (svr_node s)" by (simp add: n node_cell_def fun_eq_iff)
qed

section \<open>Looking back\<close>

lemma lifetime_split: "lifetime usable expiring l0 (tr1 @ tr2) \<Longrightarrow> lifetime usable expiring l0 tr1"
proof (induction tr2 rule: rev_induct)
  case (snoc x tr2)
  then show ?case using lifetime_snoc [of usable expiring l0 "tr1 @ tr2" "fst x" "snd x"] by simp
qed simp

lemma lifetime_shard: "lifetime usable expiring l0 tr \<Longrightarrow> x \<in> set tr \<Longrightarrow> shard_of (snd x) = shard_of l0"
  and lifetime_present: "lifetime usable expiring l0 tr \<Longrightarrow> shard_of (present l0 tr) = shard_of l0"
proof -
  have "\<forall>x \<in> set tr. shard_of (snd x) = shard_of l0" if "lifetime usable expiring l0 tr" for tr
    using that
  proof (induction rule: lifetime.induct)
    case (lt_step tr e l')
    then have "shard_of (present l0 tr) = shard_of l0" by (cases tr rule: rev_cases) (auto simp: present_def)
    with lt_step step_ring [OF lt_step(2)] show ?case by auto
  qed simp
  then show "lifetime usable expiring l0 tr \<Longrightarrow> x \<in> set tr \<Longrightarrow> shard_of (snd x) = shard_of l0"
    and "lifetime usable expiring l0 tr \<Longrightarrow> shard_of (present l0 tr) = shard_of l0"
    by (auto simp: present_def)
qed

lemma address_before:
  assumes "lifetime usable expiring l0 (tr1 @ tr2)" and "\<not> alreadyFailedOver (lf_table (present l0 (tr1 @ tr2))) i"
  shows "\<not> alreadyFailedOver (lf_table (present l0 tr1)) i \<and> addr_of (present l0 tr1) i = addr_of (present l0 (tr1 @ tr2)) i"
  using assms
proof (induction tr2 rule: rev_induct)
  case (snoc x tr2)
  obtain e l where x: "x = (e, l)" by fastforce
  have lt: "lifetime usable expiring l0 (tr1 @ tr2)" and st: "life_step usable expiring l0 (tr1 @ tr2) e l"
    using lifetime_snoc [of usable expiring l0 "tr1 @ tr2" e l] snoc.prems(1) x by simp_all
  have p: "present l0 (tr1 @ tr2 @ [x]) = l" using present_snoc [of l0 "tr1 @ tr2" e l] x by simp
  from step_table [OF st] snoc.prems(2) snoc.IH [OF lt] show ?case unfolding p by simp
qed simp

lemma life_value: "shard_of p k = i \<Longrightarrow> addr_of p i = a \<Longrightarrow> fst (life_abs p) k = live (node_at p a) k"
  by (auto simp: life_abs_def cluster_abs_def home_def shard_of_def live_def node_at_def)

text \<open>A replica that is caught up holds what its primary had at a moment since the replica connected.\<close>

lemma caught_up_past:
  assumes "lifetime usable expiring l0 tr" and "\<forall>tr1 tr2. tr = tr1 @ tr2 \<longrightarrow> life_ok agrees (present l0 tr1)"
    and "\<not> alreadyFailedOver (lf_table (present l0 tr)) i" and "addr_of (present l0 tr) i = a" and "caught_up l0 tr a whole q"
  shows "durable_node agrees q" and "\<exists>tr1 fd d tr2 p. tr = tr1 @ (Synced a fd, d) # tr2 \<and> p \<in> insert d (snd ` set tr2) \<and>
      addr_of p i = a \<and> agree_maps agrees (live (node_at p a)) (live q)"
    and "whole \<Longrightarrow> agree_maps agrees (live (node_at (present l0 tr) a)) (live q)"
proof -
  obtain tr1 fd d tr2 where tr: "tr = tr1 @ (Synced a fd, d) # tr2" and cut: "\<forall>x \<in> set tr2. \<not> cuts a (fst x)"
    and f: "fed (length tr2) fd (node_at (present l0 tr1) a) (node_at (present l0 tr) a) whole q"
    using assms(5) unfolding caught_up_def by blast
  let ?p = "node_at (present l0 tr1) a"
  have "lifetime usable expiring l0 (tr1 @ [(Synced a fd, d)])" using lifetime_split [of l0 "tr1 @ [(Synced a fd, d)]" tr2] assms(1) tr by simp
  then have "life_step usable expiring l0 tr1 (Synced a fd) d" using lifetime_snoc by blast
  then have d: "node_at d a = fst (sync_dump fd (sync_register fd ?p))" and fd: "fd \<notin> set (replicaFds (svr_registry ?p))"
    by (auto elim!: life_step.cases)
  have "addr_of (present l0 tr1) i = a" using address_before [of l0 tr1 "(Synced a fd, d) # tr2" i] assms(1,3,4) tr by simp
  then have p: "durable_node agrees ?p" using assms(2) tr by (auto simp: life_ok_def)
  note dd = synced_node(1) [OF p fd d] and reg = fed_registered [OF f p fd, folded d]
  have now: "lifetime usable expiring l0 (tr1 @ (Synced a fd, d) # tr2)" "present l0 tr = present l0 (tr1 @ (Synced a fd, d) # tr2)"
    using assms(1) tr by simp_all
  from since_dump [OF now cut assms(3,4) dd reg] obtain es where
    es: "length es \<le> length tr2" "list_all (stream_event usable expiring fd) es" "node_at (present l0 tr) a = run_events es (node_at d a)"
      "\<forall>n \<le> length es. \<exists>p \<in> insert d (snd ` set tr2). addr_of p i = a \<and> node_at p a = run_events (take n es) (node_at d a)"
    by blast
  note fr = fed_replica [OF f [unfolded es(3)] d es(2,1) p fd]
  show "durable_node agrees q" by (rule fr(3))
  show "whole \<Longrightarrow> agree_maps agrees (live (node_at (present l0 tr) a)) (live q)" using fr(2) by (simp add: es(3))
  obtain n where n: "n \<le> length es" "agree_maps agrees (live (run_events (take n es) (node_at d a))) (live q)" using fr(1) by blast
  then obtain p where "p \<in> insert d (snd ` set tr2)" "addr_of p i = a" "node_at p a = run_events (take n es) (node_at d a)"
    using es(4) by blast
  with tr n(2) show "\<exists>tr1 fd d tr2 p. tr = tr1 @ (Synced a fd, d) # tr2 \<and> p \<in> insert d (snd ` set tr2) \<and>
      addr_of p i = a \<and> agree_maps agrees (live (node_at p a)) (live q)" by metis
qed

section \<open>Every step\<close>

lemma asked_ok:
  assumes "life_ok agrees l" and "data_line (fst (snd rq))" and "line_of usable (fst (snd rq))"
    and "cluster_step (addr_of l) (lf_cluster l) rq c'"
  shows "life_ok agrees (l\<lparr>lf_cluster := c'\<rparr>) \<and> one_map (life_abs l) rq (life_abs (l\<lparr>lf_cluster := c'\<rparr>))"
proof -
  have "durable_node agrees (cu_nodes c' (addr_of l i))" for i
    using durable_moves [OF asked_nodes(2) [OF assms(4,3)]] assms(1) by (simp add: life_ok_def node_at_def)
  with cluster_step_one_map [OF assms(4) _ assms(2)] assms(1) show ?thesis
    by (simp add: life_ok_def life_abs_def addr_of_def node_at_def)
qed

lemma failed_over_ok:
  assumes "lifetime usable expiring l0 tr" and "\<forall>tr1 tr2. tr = tr1 @ tr2 \<longrightarrow> life_ok agrees (present l0 tr1)" and "l = present l0 tr"
    and "t' = checkShard nets m (lf_table l) i" and "\<not> alreadyFailedOver (lf_table l) i" and "alreadyFailedOver t' i"
    and "caught_up l0 tr (addr_of l i) whole (node_at l (replicaAddress (lf_table l) i))"
    and "l' = \<lparr>lf_cluster = promoted now fd (lf_table l) i (lf_cluster l), lf_table = t'\<rparr>"
  shows "life_ok agrees l' \<and> life_effect agrees l0 tr (FailedOver i (addr_of l i) whole) l'"
proof -
  let ?q = "node_at l (replicaAddress (lf_table l) i)"
  have ok: "life_ok agrees l" using assms(2,3) by simp
  note cu = caught_up_past [OF assms(1,2) assms(5) [unfolded assms(3)] refl assms(7) [unfolded assms(3)], folded assms(3)]
  have cok: "cluster_ok (activeAddressFor (lf_table l)) (lf_cluster l)" using ok by (simp add: life_ok_def addr_of_def)
  have dq: "durable_node agrees (cu_nodes (lf_cluster l) (replicaAddress (lf_table l) i))" using cu(1) by (simp add: node_at_def)
  note fs = failover_step [OF cok assms(5) assms(6) [unfolded assms(4)] dq, where now = now and fd = fd, folded assms(4)]
  have sh: "shard_of l = shard_of l0" using lifetime_present [OF assms(1)] assms(3) by simp
  have a': "addr_of l' = (addr_of l)(i := replicaAddress (lf_table l) i)"
    using checkShard_active [OF assms(5) assms(6) [unfolded assms(4)]] by (simp add: addr_of_def assms(4,8))
  have "durable_node agrees (node_at l' (addr_of l' j))" for j
    unfolding a' using fs(2) ok by (auto simp: life_ok_def node_at_def assms(8) promoted_def Let_def)
  then have "life_ok agrees l'" using fs(1) by (simp add: life_ok_def addr_of_def assms(8))
  have v: "fst (life_abs l') = (\<lambda>k. if shard_of l0 k = i then live ?q k else fst (life_abs l) k)"
    using fs(3) sh unfolding life_abs_def addr_of_def shard_of_def node_at_def assms(8) by simp
  have others: "\<forall>k. shard_of l0 k \<noteq> i \<longrightarrow> fst (life_abs l') k = fst (life_abs l) k \<and> snd (life_abs l') k = snd (life_abs l) k"
    using fs(4) sh v by (simp add: life_abs_def addr_of_def shard_of_def assms(8))
  have whole: "\<forall>k. shard_of l0 k = i \<longrightarrow> agrees (fst (life_abs l) k) (fst (life_abs l') k)" if "whole"
    using cu(3) [OF that] life_value [of l _ i] v sh by (simp add: agree_maps_def)
  obtain tr1 fd d tr2 p where tr: "tr = tr1 @ (Synced (addr_of l i) fd, d) # tr2" and p: "p \<in> insert d (snd ` set tr2)"
    and lp: "addr_of p i = addr_of l i" "agree_maps agrees (live (node_at p (addr_of l i))) (live ?q)"
    using cu(2) by blast
  have "shard_of p = shard_of l0" using lifetime_shard [OF assms(1)] p tr by fastforce
  then have "\<forall>k. shard_of l0 k = i \<longrightarrow> agrees (fst (life_abs p) k) (fst (life_abs l') k)"
    using v lp life_value [of p _ i] by (simp add: agree_maps_def)
  with \<open>life_ok agrees l'\<close> others whole tr p show ?thesis unfolding life_effect.simps assms(3) [symmetric] by blast
qed

lemma restarted_ok:
  assumes "life_ok agrees l" and "a \<in> range (addr_of l)" and "s = restarted clk1 clk2 socks (node_at l a)"
  shows "life_ok agrees (put_node a s l)" and "agrees (fst (life_abs l) k) (fst (life_abs (put_node a s l)) k)"
    and "addr_of l (shard_of l k) \<noteq> a \<Longrightarrow> fst (life_abs (put_node a s l)) k = fst (life_abs l) k \<and>
      snd (life_abs (put_node a s l)) k = snd (life_abs l) k"
proof -
  have d: "durable_node agrees (node_at l a)" using assms(1,2) by (auto simp: life_ok_def)
  note r = durable_restarted [OF d, of clk1 clk2 socks, folded assms(3)]
  have role: "svr_role s = PRIMARY_ROLE"
    using restarted_node(4) [of "node_at l a" clk1 clk2 socks] d assms(3)
    by (simp add: durable_node_def tracks_def svr_role_def new_ReplicationManager_def)
  have "cluster_ok (addr_of l) (lf_cluster (put_node a s l))"
    using assms(1) r role durable_data by (auto simp: life_ok_def cluster_ok_def node_ready_def put_node_def)
  then show "life_ok agrees (put_node a s l)" using assms(1) r by (simp add: life_ok_def)
  show "agrees (fst (life_abs l) k) (fst (life_abs (put_node a s l)) k)"
    using r same by (auto simp: life_abs_alt live_def agree_maps_def)
  show "addr_of l (shard_of l k) \<noteq> a \<Longrightarrow> fst (life_abs (put_node a s l)) k = fst (life_abs l) k \<and>
      snd (life_abs (put_node a s l)) k = snd (life_abs l) k" by (simp add: life_abs_alt)
qed

lemma lapsed_ok:
  assumes "life_ok agrees l" and "expiring" and "\<exists>t \<le> now. expiryOf (expiry (svr_node (node_at l a))) k = Some t"
    and "s = sweep_out k (node_at l a)" and "life_abs l = (m, d)"
  shows "life_ok agrees (put_node a s l)"
    and "addr_of l (shard_of l k) = a \<Longrightarrow> (\<exists>t \<le> now. d k = Some t) \<and> life_abs (put_node a s l) = (m(k := None), d(k := None))"
    and "addr_of l (shard_of l k) \<noteq> a \<Longrightarrow> life_abs (put_node a s l) = (m, d)"
proof -
  have md: "m = (\<lambda>j. contents (store (svr_node (node_at l (addr_of l (shard_of l j))))) j)"
    "d = (\<lambda>j. expiryOf (expiry (svr_node (node_at l (addr_of l (shard_of l j))))) j)"
    using assms(5) by (simp_all add: life_abs_alt)
  have x: "expiryOf (expiry (svr_node s)) = (expiryOf (expiry (svr_node (node_at l a))))(k := None)"
    by (auto simp: assms(4) sweep_out_def on_expire_def Let_def expiryOf_def lookup_delete_if fun_eq_iff split: option.split)
  have v: "contents (store (svr_node s)) = (contents (store (svr_node (node_at l a))))(k := None)" if "a \<in> range (addr_of l)"
  proof -
    have "data_ok (svr_node (node_at l a))" using assms(1) that durable_data by (auto simp: life_ok_def)
    from sweep_out_data(2) [OF this, of k] show ?thesis by (simp add: assms(4) live_def)
  qed
  have n: "durable_node agrees s \<and> svr_role s = PRIMARY_ROLE" if "a \<in> range (addr_of l)"
  proof -
    have "durable_node agrees (node_at l a)" "svr_role (node_at l a) = PRIMARY_ROLE"
      using assms(1) that by (auto simp: life_ok_def cluster_ok_def node_ready_def node_at_def)
    then show ?thesis
      using durable_event [of "node_at l a" "Expired k"] assms(2,4) by (simp add: sweep_out_def on_expire_def svr_role_def Let_def)
  qed
  have "cluster_ok (addr_of l) (lf_cluster (put_node a s l))"
    using assms(1) n durable_data by (auto simp: life_ok_def cluster_ok_def node_ready_def put_node_def)
  then show "life_ok agrees (put_node a s l)" using assms(1) n by (auto simp: life_ok_def)
  show "(\<exists>t \<le> now. d k = Some t) \<and> life_abs (put_node a s l) = (m(k := None), d(k := None))" if "addr_of l (shard_of l k) = a"
    using assms(3) v x that by (auto simp: md life_abs_alt fun_eq_iff)
  show "life_abs (put_node a s l) = (m, d)" if "addr_of l (shard_of l k) \<noteq> a"
  proof (cases "a \<in> range (addr_of l)")
    case True
    with v x that show ?thesis by (auto simp: md life_abs_alt fun_eq_iff)
  next
    case False
    then show ?thesis by (auto simp: md life_abs_alt fun_eq_iff)
  qed
qed

lemma checked_ok:
  assumes "life_ok agrees l" and "t' = checkShard nets m (lf_table l) i" and "alreadyFailedOver t' i = alreadyFailedOver (lf_table l) i"
  shows "life_ok agrees (l\<lparr>lf_table := t'\<rparr>) \<and> life_abs (l\<lparr>lf_table := t'\<rparr>) = life_abs l"
proof -
  obtain es where es: "t' = fold topo_step es (lf_table l)" using checkShard_steps assms(2) by metis
  have "activeAddressFor t' j = activeAddressFor (lf_table l) j" for j
    using checkShard_others [of j i nets m "lf_table l"] shard_table.latched [of "lf_table l" i es] shard_table.served [of "lf_table l" i es]
      assms(2,3) es by (cases "j = i") auto
  then have "addr_of (l\<lparr>lf_table := t'\<rparr>) = addr_of l" by (simp add: addr_of_def fun_eq_iff)
  with assms(1) show ?thesis by (simp add: life_ok_def life_abs_def)
qed

lemma life_step_ok:
  assumes "lifetime usable expiring l0 tr" and "\<forall>tr1 tr2. tr = tr1 @ tr2 \<longrightarrow> life_ok agrees (present l0 tr1)" and "life_step usable expiring l0 tr e l'"
  shows "life_ok agrees l' \<and> life_effect agrees l0 tr e l'"
proof -
  have ok: "life_ok agrees (present l0 tr)" using assms(2) by simp
  then have dur: "a \<in> range (addr_of (present l0 tr)) \<Longrightarrow> durable_node agrees (node_at (present l0 tr) a)"
    and role: "a \<in> range (addr_of (present l0 tr)) \<Longrightarrow> svr_role (node_at (present l0 tr) a) = PRIMARY_ROLE" for a
    by (auto simp: life_ok_def cluster_ok_def node_ready_def node_at_def)
  show ?thesis
    using assms(3)
  proof cases
    case (ls_asked l rq c')
    then show ?thesis using asked_ok [OF ok] by simp
  next
    case (ls_worked l a ev)
    then show ?thesis using life_put [OF ok, of a] quiet_kept [OF _ dur] role by simp
  next
    case (ls_lapsed l s a d now m k)
    obtain v e where ve: "life_abs l = (v, e)" by fastforce
    note f = sweep_fires [OF ls_lapsed(7,6)]
    show ?thesis
      using lapsed_ok [OF ok, of now a k "sweep_out k s" v e] ls_lapsed ve f lifetime_present [OF assms(1)] by (simp add: Let_def)
  next
    case (ls_synced l fd a)
    then show ?thesis using life_put [OF ok, of a] synced_node [OF dur _ refl] role by simp
  next
    case (ls_elsewhere l a s)
    then show ?thesis using life_put [OF ok, of a s] by simp
  next
    case (ls_checked l t' nets m i)
    then show ?thesis using checked_ok [OF ok] by simp
  next
    case (ls_failed_over l t' nets m i b whole fd now)
    then show ?thesis using failed_over_ok [OF assms(1,2) ls_failed_over(3,4,5,6) _ ls_failed_over(2)] by simp
  next
    case (ls_restarted l a clk1 clk2 socks)
    then show ?thesis using restarted_ok [OF ok _ refl, where ?clk1.0 = clk1 and ?clk2.0 = clk2 and socks = socks] lifetime_present [OF assms(1)] by simp
  qed
qed

lemma lifetime_ok: "lifetime usable expiring l0 tr \<Longrightarrow> life_ok agrees l0 \<Longrightarrow> tr = tr1 @ tr2 \<Longrightarrow> life_ok agrees (present l0 tr1)"
proof (induction arbitrary: tr1 tr2 rule: lifetime.induct)
  case (lt_step tr e l')
  then have "life_ok agrees l'" using life_step_ok [OF lt_step(1) _ lt_step(2)] by blast
  with lt_step show ?case by (cases tr2 rule: rev_cases) auto
qed simp

lemma life_is_one_map:
  assumes "lifetime usable expiring l0 tr" and "life_ok agrees l0" and "tr = tr1 @ (e, l') # tr2"
  shows "life_ok agrees l' \<and> life_effect agrees l0 tr1 e l'"
proof -
  have lt: "lifetime usable expiring l0 (tr1 @ [(e, l')])"
    using lifetime_split [of l0 "tr1 @ [(e, l')]" tr2] assms(1,3) by simp
  then have "lifetime usable expiring l0 tr1" and "life_step usable expiring l0 tr1 e l'" using lifetime_snoc by blast+
  with lifetime_ok [OF _ assms(2)] show ?thesis by (intro life_step_ok) blast+
qed

end

text \<open>A router that has just started, in front of primaries in order.\<close>

lemma new_cluster_ok:
  assumes "\<forall>i. durable_node agrees (nodes (activeAddressFor t i)) \<and> svr_role (nodes (activeAddressFor t i)) = PRIMARY_ROLE"
  shows "life_ok agrees \<lparr>lf_cluster = \<lparr>cu_router = new_Router t, cu_nodes = nodes\<rparr>, lf_table = t\<rparr>"
  using assms durable_data
  by (auto simp: life_ok_def cluster_ok_def node_ready_def node_at_def addr_of_def backend_of_def new_Router_def fresh_backend_def new_TcpClient_def)

section \<open>Properties\<close>



text \<open>One shard whose replica connects and receives everything, one write, and the loss of the primary.\<close>

definition whole_replica :: server where
  "whole_replica = fst (fst (link_session (\<lambda>h q. Some (cut_sock 100)) (apply_counted (\<lambda>i. 7)) (new_ReplicaLink ''127.0.0.1'' 6380)
     (fresh_server, 0)))"

definition small_life :: life where
  "small_life = \<lparr>lf_cluster = small_cluster\<lparr>cu_nodes := (\<lambda>a. fed_primary)(''r:2'' := whole_replica)\<rparr>, lf_table = one_shard\<rparr>"

lemma fed_dump_answers:
  "\<exists>s. handle_line 1 5 ''SET k v'' fed_dump = (s, NextLine) \<and> sk_out (svr_socks s 5) = ''+OK'' @ [LF] \<and>
    sk_out (svr_socks s 9) = ''SET k v'' @ [LF]"
proof -
  have "case handle_line 1 5 ''SET k v'' fed_dump of (s, nx) \<Rightarrow> nx = NextLine \<and> sk_out (svr_socks s 5) = ''+OK'' @ [LF] \<and>
      sk_out (svr_socks s 9) = ''SET k v'' @ [LF]" by code_simp
  then show ?thesis by (auto split: prod.splits)
qed

lemma fed_primary_durable:
  "durable_node (=) fed_primary" "svr_role fed_primary = PRIMARY_ROLE" "replicaFds (svr_registry fed_primary) = []"
  using fresh_server_sound
  by (simp_all add: durable_exact sound_def live_def logged_def fed_primary_def svr_role_def svr_registry_def fresh_server_parts new_ReplicationManager_def)

lemma small_life_addr: "addr_of small_life j = (if j = ''s1'' then ''p:1'' else [])"
  by (simp add: addr_of_def small_life_def activeAddressFor_def one_shard_def topo_simps)

lemma small_life_ok: "life_ok (=) small_life"
proof -
  have n: "node_at small_life (addr_of small_life j) = fed_primary" for j by (simp add: small_life_addr) (simp add: node_at_def small_life_def)
  have "cl_buffer (be_client (backend_of (cu_router (lf_cluster small_life)) i)) = []" for i
    using small_cluster_ok [of "\<lambda>i. []"] by (simp add: cluster_ok_def small_life_def)
  moreover have "node_ready fed_primary" using fed_primary_durable durable_data by (simp add: node_ready_def)
  ultimately show ?thesis using n fed_primary_durable(1) by (simp add: life_ok_def cluster_ok_def node_at_def)
qed

lemma small_line: "forwarded ''SET k v'' = Some (mk_command ''SET'' [''k'', ''v''])" "data_line ''SET k v''"
proof -
  show f: "forwarded ''SET k v'' = Some (mk_command ''SET'' [''k'', ''v''])" by code_simp
  show "data_line ''SET k v''" by (simp add: data_line_def f safe_line_def data_command_def text_simps)
qed

lemma small_life_asked:
  "\<exists>c s. cluster_step (addr_of small_life) (lf_cluster (put_node ''p:1'' fed_dump small_life)) (1, ''SET k v'', Some ''+OK'') c \<and>
     s = run_events fed_events fed_dump \<and> cu_nodes c = (cu_nodes (lf_cluster small_life))(''p:1'' := s) \<and> sk_out (svr_socks s 9) = ''SET k v'' @ [LF]"
proof -
  let ?line = "''SET k v''" and ?rt = "cu_router small_cluster" and ?c1 = "lf_cluster (put_node ''p:1'' fed_dump small_life)"
  let ?inc = "incoming ''s1'' [''+OK'' @ [LF]] ?rt" and ?net = "carrying [''+OK'' @ [LF]] good_network"
  obtain s where h: "handle_line 1 5 ?line fed_dump = (s, NextLine)" and out: "sk_out (svr_socks s 5) = ''+OK'' @ [LF]"
    and st: "sk_out (svr_socks s 9) = ?line @ [LF]" using fed_dump_answers by blast
  have g: "getNode (rt_ring ?rt) ''k'' = ''s1''" by code_simp
  have "snd (router_answer ?net one_shard ?line ?inc) = Some ''+OK''" by code_simp
  then obtain r' where ans: "router_answer ?net one_shard ?line ?inc = (r', Some ''+OK'')" by (metis prod.collapse)
  have c1: "cu_router ?c1 = ?rt" "cu_nodes ?c1 = (cu_nodes (lf_cluster small_life))(''p:1'' := fed_dump)"
    by (simp_all add: small_life_def put_node_def)
  have a: "home (addr_of small_life) ?c1 ''k'' = ''p:1''" using g by (simp add: home_def c1(1) small_life_addr del: put_node_simps)
  have t: "activeAddressFor one_shard = addr_of small_life" by (simp add: addr_of_def small_life_def)
  have k: "cmd_key (mk_command ''SET'' [''k'', ''v'']) = ''k''" by (simp add: cmd_key_def)
  have o: "sk_out (svr_socks fed_dump 5) = []" "5 \<notin> set (replicaFds (svr_registry fed_dump))" by code_simp+
  have "cluster_step (addr_of small_life) ?c1 (1, ?line, Some ''+OK'') \<lparr>cu_router = r', cu_nodes = (cu_nodes ?c1)(''p:1'' := s)\<rparr>"
    using h out ans o
    by (intro cs_served [OF small_line(1) t, where fd = 5 and chunks = "[''+OK'' @ [LF]]" and net = good_network])
      (simp_all add: k a g c1 strip_cr_def del: put_node_simps)
  moreover have "s = run_events fed_events fed_dump" using h by (simp add: fed_events_def run_events_def)
  ultimately show ?thesis using st c1(2) by (intro exI [of _ "\<lparr>cu_router = r', cu_nodes = (cu_nodes ?c1)(''p:1'' := s)\<rparr>"] exI [of _ s]) simp
qed

lemma whole_replica_fed:
  assumes "s = run_events fed_events fed_dump" and "sk_out (svr_socks s 9) = ''SET k v'' @ [LF]"
  shows "fed 1 9 fed_primary s True whole_replica"
proof -
  have "durable_node (=) fresh_server"
    using fresh_server_sound by (simp add: durable_exact svr_registry_def fresh_server_parts new_ReplicationManager_def)
  moreover have "roomy 9999 (Suc 1) (svr_socks fed_primary 9)" using fed_primary_facts(3) by (simp add: fed_events_def)
  ultimately show ?thesis
    unfolding fed_def
    by (intro exI [of _ 9999] exI [of _ "\<lambda>h q. Some (cut_sock 100)"] exI [of _ "new_ReplicaLink ''127.0.0.1'' 6380"]
        exI [of _ "cut_sock 100"] exI [of _ 100] exI [of _ fresh_server] exI [of _ "\<lambda>i. 7"])
      (simp add: fed_primary_facts cut_sock_facts fresh_replica_facts kMaxLineLength_def whole_replica_def
        fed_dump_def [symmetric] assms(1) [symmetric] assms(2))
qed

text \<open>The three events, for any kind of commands \<^verbatim>\<open>SET\<close> belongs to.\<close>

lemma small_life_runs:
  assumes "line_of usable ''SET k v''"
  shows "\<exists>l1 l2 l3. lifetime usable expiring small_life
    [(Synced ''p:1'' 9, l1), (Asked (1, ''SET k v'', Some ''+OK''), l2), (FailedOver ''s1'' ''p:1'' True, l3)]"
proof -
  let ?l1 = "put_node ''p:1'' fed_dump small_life" and ?rq = "(1, ''SET k v'', Some ''+OK'') :: request"
  obtain c s where c: "cluster_step (addr_of small_life) (lf_cluster ?l1) ?rq c" "s = run_events fed_events fed_dump"
      "cu_nodes c = (cu_nodes (lf_cluster small_life))(''p:1'' := s)" "sk_out (svr_socks s 9) = ''SET k v'' @ [LF]"
    using small_life_asked by blast
  let ?l2 = "?l1\<lparr>lf_cluster := c\<rparr>" and ?t3 = "checkShard lost_primary 1 one_shard ''s1''"
  let ?tr1 = "[(Synced ''p:1'' 9, ?l1)]" and ?tr2 = "[(Synced ''p:1'' 9, ?l1), (Asked ?rq, ?l2)]"
  obtain fd where fd: "fd \<notin> set (replicaFds (svr_registry whole_replica))" using ex_new_if_finite [OF infinite_UNIV_int finite_set] by blast
  let ?l3 = "\<lparr>lf_cluster = promoted 0 fd one_shard ''s1'' c, lf_table = ?t3\<rparr>"
  have n: "node_at small_life ''p:1'' = fed_primary" "node_at ?l2 ''p:1'' = s" "node_at ?l2 ''r:2'' = whole_replica"
    "lf_table ?l2 = one_shard" "addr_of ?l2 ''s1'' = ''p:1''"
    using c(3) small_life_addr [of "''s1''"] by (simp_all add: node_at_def small_life_def addr_of_def put_node_def)
  have "life_step usable expiring small_life [] (Synced ''p:1'' 9) ?l1"
    using ls_synced [OF refl, where ?l0.0 = small_life and tr = "[]" and fd = 9 and a = "''p:1''"] by (simp add: n(1) fed_primary_durable fed_dump_def)
  from lt_step [OF lt_born this] have t1: "lifetime usable expiring small_life ?tr1" by simp
  have p: "present small_life ?tr1 = ?l1" "present small_life ?tr2 = ?l2" by (simp_all add: present_def)
  have "life_step usable expiring small_life ?tr1 (Asked ?rq) ?l2" using ls_asked [OF p(1) [symmetric], where rq = ?rq and c' = c] c(1) small_line(2) assms by simp
  from lt_step [OF t1 this] have t2: "lifetime usable expiring small_life ?tr2" by simp
  have "caught_up small_life ?tr2 ''p:1'' True whole_replica"
    unfolding caught_up_def using whole_replica_fed [OF c(2,4)]
    by (intro exI [of _ "[]"] exI [of _ 9] exI [of _ ?l1] exI [of _ "[(Asked ?rq, ?l2)]"]) (simp add: p(2) n del: put_node_simps)
  then have "life_step usable expiring small_life ?tr2 (FailedOver ''s1'' ''p:1'' True) ?l3"
    using ls_failed_over [OF p(2) [symmetric] refl, where i = "''s1''" and nets = lost_primary and m = 1 and b = "''r:2''" and whole = True and fd = fd and now = 0] one_shard_fails_over fd
    by (simp add: n del: put_node_simps)
  from lt_step [OF t2 this] have t3: "lifetime usable expiring small_life (?tr2 @ [(FailedOver ''s1'' ''p:1'' True, ?l3)])" by simp
  then show ?thesis by (intro exI [of _ ?l1] exI [of _ ?l2] exI [of _ ?l3]) simp
qed

lemma asked_small: "one_map s (1, ''SET k v'', Some ''+OK'') s' \<Longrightarrow> fst s' ''k'' = Some ''v''"
  by (cases s) (auto simp: one_map_def small_line(1) text_simps unavailable_def Reply_ok_def Reply_error_def)



end
