(* ===== verification/Link_Threads.thy ===== *)
theory Link_Threads
  imports Replication
begin

text \<open>
  The thread of a replica's link to its primary and the thread that stops it,
  \<^verbatim>\<open>src/replication/replica_link.cpp\<close>. \<^verbatim>\<open>runLoop\<close> connects, sends \<^verbatim>\<open>SYNC\<close> and hands received lines to the
  callback; \<^verbatim>\<open>stop\<close> (called by \<^verbatim>\<open>replicaOf\<close>, \<^verbatim>\<open>replicaOfNoOne\<close> and the destructors) clears \<^verbatim>\<open>running_\<close>, closes
  the client that \<^verbatim>\<open>currentClient_\<close> points at, and joins the thread. Steps lie between two accesses to what
  the threads share. Whether closing a descriptor ends a \<^verbatim>\<open>recv\<close> another thread is blocked in is left
  to the operating system: \<open>wakes\<close>. The lemmas say what may still be applied after \<^verbatim>\<open>stop\<close> was called, and
  when \<^verbatim>\<open>stop\<close> returns.
\<close>

section \<open>State\<close>

definition kReconnectDelaySeconds :: int where
  "kReconnectDelaySeconds = 1"

text \<open>
  The thread: testing \<^verbatim>\<open>running_\<close>; with a client of its own, before and in \<^verbatim>\<open>connect\<close>; sending \<^verbatim>\<open>SYNC\<close>;
  testing the condition of the inner loop; entering \<^verbatim>\<open>receiveLine\<close>; blocked in it; in the callback; after
  the loop; withdrawing the client; about to sleep; asleep; returned.
\<close>

datatype link_pos =
    LkTest | LkConnect | LkConnecting | LkSync | LkWhile | LkReceive | LkBlocked | LkApply wire_line
  | LkLost | LkWithdraw | LkNap | LkSleep int | LkEnd

datatype stop_pos = StNone | StClear | StJoin | StDone

record link_system =
  ly_running :: bool
  ly_connected :: bool
  ly_current :: bool
  ly_open :: bool
  ly_thread :: link_pos
  ly_stop :: stop_pos
  ly_applied :: "wire_line list"

definition started_link :: link_system where
  "started_link = \<lparr>ly_running = True, ly_connected = False, ly_current = False, ly_open = False,
     ly_thread = LkTest, ly_stop = StNone, ly_applied = []\<rparr>"

section \<open>Steps\<close>

text \<open>\<^verbatim>\<open>runLoop\<close>, as far as it does not wait for the primary.\<close>

inductive link_step :: "bool \<Rightarrow> link_system \<Rightarrow> link_system \<Rightarrow> bool" for wakes where
  lk_enter: "ly_thread s = LkTest \<Longrightarrow> ly_running s \<Longrightarrow>
    link_step wakes s (s\<lparr>ly_current := True, ly_open := False, ly_thread := LkConnect\<rparr>)"
| lk_exit: "ly_thread s = LkTest \<Longrightarrow> \<not> ly_running s \<Longrightarrow> link_step wakes s (s\<lparr>ly_thread := LkEnd\<rparr>)"
| lk_socket: "ly_thread s = LkConnect \<Longrightarrow> link_step wakes s (s\<lparr>ly_open := True, ly_thread := LkConnecting\<rparr>)"
| lk_no_socket: "ly_thread s = LkConnect \<Longrightarrow> link_step wakes s (s\<lparr>ly_thread := LkWithdraw\<rparr>)"
| lk_connected: "ly_thread s = LkConnecting \<Longrightarrow> link_step wakes s (s\<lparr>ly_thread := LkSync\<rparr>)"
| lk_refused: "ly_thread s = LkConnecting \<Longrightarrow> link_step wakes s (s\<lparr>ly_open := False, ly_thread := LkWithdraw\<rparr>)"
| lk_sent: "ly_thread s = LkSync \<Longrightarrow> ly_open s \<Longrightarrow> link_step wakes s (s\<lparr>ly_connected := True, ly_thread := LkWhile\<rparr>)"
| lk_not_sent: "ly_thread s = LkSync \<Longrightarrow> link_step wakes s (s\<lparr>ly_thread := LkWithdraw\<rparr>)"
| lk_again: "ly_thread s = LkWhile \<Longrightarrow> ly_running s \<Longrightarrow> link_step wakes s (s\<lparr>ly_thread := LkReceive\<rparr>)"
| lk_leave: "ly_thread s = LkWhile \<Longrightarrow> \<not> ly_running s \<Longrightarrow> link_step wakes s (s\<lparr>ly_thread := LkLost\<rparr>)"
| lk_buffered: "ly_thread s = LkReceive \<Longrightarrow> ly_open s \<Longrightarrow> link_step wakes s (s\<lparr>ly_thread := LkApply line\<rparr>)"
| lk_block: "ly_thread s = LkReceive \<Longrightarrow> ly_open s \<Longrightarrow> link_step wakes s (s\<lparr>ly_thread := LkBlocked\<rparr>)"
| lk_closed: "ly_thread s = LkReceive \<Longrightarrow> \<not> ly_open s \<Longrightarrow> link_step wakes s (s\<lparr>ly_thread := LkLost\<rparr>)"
| lk_woken: "ly_thread s = LkBlocked \<Longrightarrow> \<not> ly_open s \<Longrightarrow> wakes \<Longrightarrow> link_step wakes s (s\<lparr>ly_thread := LkLost\<rparr>)"
| lk_apply: "ly_thread s = LkApply line \<Longrightarrow>
    link_step wakes s (s\<lparr>ly_applied := ly_applied s @ [line], ly_thread := LkWhile\<rparr>)"
| lk_lost: "ly_thread s = LkLost \<Longrightarrow> link_step wakes s (s\<lparr>ly_connected := False, ly_thread := LkWithdraw\<rparr>)"
| lk_withdraw: "ly_thread s = LkWithdraw \<Longrightarrow> link_step wakes s (s\<lparr>ly_current := False, ly_thread := LkNap\<rparr>)"
| lk_sleep: "ly_thread s = LkNap \<Longrightarrow> ly_running s \<Longrightarrow> link_step wakes s (s\<lparr>ly_thread := LkSleep kReconnectDelaySeconds\<rparr>)"
| lk_no_sleep: "ly_thread s = LkNap \<Longrightarrow> \<not> ly_running s \<Longrightarrow> link_step wakes s (s\<lparr>ly_open := False, ly_thread := LkTest\<rparr>)"
| lk_second: "ly_thread s = LkSleep n \<Longrightarrow> 0 < n \<Longrightarrow> link_step wakes s (s\<lparr>ly_thread := LkSleep (n - 1)\<rparr>)"
| lk_wake: "ly_thread s = LkSleep n \<Longrightarrow> n \<le> 0 \<Longrightarrow> link_step wakes s (s\<lparr>ly_open := False, ly_thread := LkTest\<rparr>)"

text \<open>What a blocked \<^verbatim>\<open>recv\<close> waits for: bytes of the primary, or the end of the connection.\<close>

inductive primary_step :: "link_system \<Rightarrow> link_system \<Rightarrow> bool" where
  py_line: "ly_thread s = LkBlocked \<Longrightarrow> primary_step s (s\<lparr>ly_thread := LkApply line\<rparr>)"
| py_gone: "ly_thread s = LkBlocked \<Longrightarrow> primary_step s (s\<lparr>ly_thread := LkLost\<rparr>)"

text \<open>\<^verbatim>\<open>stop\<close>.\<close>

inductive stop_step :: "link_system \<Rightarrow> link_system \<Rightarrow> bool" where
  sp_clear: "ly_stop s = StNone \<Longrightarrow> stop_step s (s\<lparr>ly_running := False, ly_stop := StClear\<rparr>)"
| sp_close: "ly_stop s = StClear \<Longrightarrow>
    stop_step s (s\<lparr>ly_open := (if ly_current s then False else ly_open s), ly_stop := StJoin\<rparr>)"
| sp_join: "ly_stop s = StJoin \<Longrightarrow> ly_thread s = LkEnd \<Longrightarrow> stop_step s (s\<lparr>ly_stop := StDone\<rparr>)"

inductive ly_step :: "bool \<Rightarrow> link_system \<Rightarrow> link_system \<Rightarrow> bool" for wakes where
  ly_link: "link_step wakes s s' \<Longrightarrow> ly_step wakes s s'"
| ly_primary: "primary_step s s' \<Longrightarrow> ly_step wakes s s'"
| ly_stopping: "stop_step s s' \<Longrightarrow> ly_step wakes s s'"

inductive ly_run :: "bool \<Rightarrow> link_system \<Rightarrow> nat \<Rightarrow> link_system \<Rightarrow> bool" for wakes where
  ly_here: "ly_run wakes s 0 s"
| ly_more: "ly_run wakes s n s' \<Longrightarrow> ly_step wakes s' s'' \<Longrightarrow> ly_run wakes s (Suc n) s''"

section \<open>Invariant\<close>

text \<open>
  \<^verbatim>\<open>connected_\<close> and \<^verbatim>\<open>currentClient_\<close> tell where the thread is, a join that returned found it at its end,
  and after \<^verbatim>\<open>stop\<close> has closed the client nothing is received from an open one.
\<close>

fun in_stream :: "link_pos \<Rightarrow> bool" where
  "in_stream LkWhile = True"
| "in_stream LkReceive = True"
| "in_stream LkBlocked = True"
| "in_stream (LkApply line) = True"
| "in_stream LkLost = True"
| "in_stream _ = False"

fun has_client :: "link_pos \<Rightarrow> bool" where
  "has_client LkConnect = True"
| "has_client LkConnecting = True"
| "has_client LkSync = True"
| "has_client LkWithdraw = True"
| "has_client p = in_stream p"

definition link_inv :: "link_system \<Rightarrow> bool" where
  "link_inv s \<longleftrightarrow> (ly_connected s \<longleftrightarrow> in_stream (ly_thread s)) \<and> (ly_current s \<longleftrightarrow> has_client (ly_thread s)) \<and>
     (ly_running s \<longleftrightarrow> ly_stop s = StNone) \<and> (ly_stop s = StDone \<longrightarrow> ly_thread s = LkEnd) \<and>
     (ly_thread s = LkEnd \<longrightarrow> \<not> ly_running s) \<and>
     (ly_stop s \<in> {StJoin, StDone} \<and> ly_thread s \<in> {LkReceive, LkBlocked} \<longrightarrow> \<not> ly_open s)"

lemma link_inv_start: "link_inv started_link"
  by (simp add: link_inv_def started_link_def)

lemma link_inv_link: "link_step wakes s s' \<Longrightarrow> link_inv s \<Longrightarrow> link_inv s'"
  by (induction rule: link_step.induct) (auto simp: link_inv_def)

lemma link_inv_primary: "primary_step s s' \<Longrightarrow> link_inv s \<Longrightarrow> link_inv s'"
  by (induction rule: primary_step.induct) (simp_all add: link_inv_def)

lemma link_inv_stop: "stop_step s s' \<Longrightarrow> link_inv s \<Longrightarrow> link_inv s'"
  by (induction rule: stop_step.induct) (auto simp: link_inv_def)

lemma link_inv_step: "ly_step wakes s s' \<Longrightarrow> link_inv s \<Longrightarrow> link_inv s'"
  by (induction rule: ly_step.induct) (blast intro: link_inv_link link_inv_primary link_inv_stop)+

lemma ly_run_inv: "ly_run wakes s n s' \<Longrightarrow> link_inv s \<Longrightarrow> link_inv s'"
  by (induction rule: ly_run.induct) (blast intro: link_inv_step)+

section \<open>Stopping\<close>

text \<open>The steps left to a thread that finds \<^verbatim>\<open>running_\<close> cleared.\<close>

fun link_work :: "link_pos \<Rightarrow> nat" where
  "link_work LkEnd = 0"
| "link_work LkTest = 1"
| "link_work (LkSleep n) = nat n + 2"
| "link_work LkNap = 2"
| "link_work LkWithdraw = 3"
| "link_work LkLost = 4"
| "link_work LkWhile = 5"
| "link_work (LkApply line) = 6"
| "link_work LkBlocked = 7"
| "link_work LkReceive = 8"
| "link_work LkSync = 9"
| "link_work LkConnecting = 10"
| "link_work LkConnect = 11"

fun stop_rest :: "stop_pos \<Rightarrow> nat" where
  "stop_rest StNone = 3"
| "stop_rest StClear = 2"
| "stop_rest StJoin = 1"
| "stop_rest StDone = 0"

definition stopping_work :: "link_system \<Rightarrow> nat" where
  "stopping_work s = link_work (ly_thread s) + stop_rest (ly_stop s)"

lemma link_step_work: "link_step wakes s s' \<Longrightarrow> \<not> ly_running s \<Longrightarrow> stopping_work s' < stopping_work s \<and> \<not> ly_running s'"
  by (induction rule: link_step.induct) (simp_all add: stopping_work_def)

lemma ly_step_work: "ly_step wakes s s' \<Longrightarrow> \<not> ly_running s \<Longrightarrow> stopping_work s' < stopping_work s \<and> \<not> ly_running s'"
  by (induction rule: ly_step.induct)
    (auto simp: link_step_work, auto simp: stopping_work_def elim!: primary_step.cases stop_step.cases)

lemma ly_run_work: "ly_run wakes s n s' \<Longrightarrow> \<not> ly_running s \<Longrightarrow> n + stopping_work s' \<le> stopping_work s \<and> \<not> ly_running s'"
  by (induction rule: ly_run.induct) (auto dest: ly_step_work)

text \<open>Only a receive that is under way can still bring a line.\<close>

fun line_due :: "link_pos \<Rightarrow> nat" where
  "line_due LkReceive = 1"
| "line_due LkBlocked = 1"
| "line_due (LkApply line) = 1"
| "line_due _ = 0"

definition applied_more :: "link_system \<Rightarrow> link_system \<Rightarrow> bool" where
  "applied_more s s' \<longleftrightarrow> (\<exists>ls. ly_applied s' = ly_applied s @ ls \<and> length ls + line_due (ly_thread s') \<le> line_due (ly_thread s))"

lemma applied_more_trans: "applied_more s t \<Longrightarrow> applied_more t u \<Longrightarrow> applied_more s u"
  by (fastforce simp: applied_more_def)

lemma link_step_applied: "link_step wakes s s' \<Longrightarrow> \<not> ly_running s \<Longrightarrow> applied_more s s'"
  by (induction rule: link_step.induct) (auto simp: applied_more_def)

lemma ly_step_applied: "ly_step wakes s s' \<Longrightarrow> \<not> ly_running s \<Longrightarrow> applied_more s s'"
  by (induction rule: ly_step.induct)
    (auto simp: link_step_applied, auto simp: applied_more_def elim!: primary_step.cases stop_step.cases)

lemma ly_run_applied: "ly_run wakes s n s' \<Longrightarrow> \<not> ly_running s \<Longrightarrow> applied_more s s'"
proof (induction rule: ly_run.induct)
  case (ly_more s n s' s'')
  then show ?case using ly_run_work [OF ly_more(1)] ly_step_applied applied_more_trans by blast
qed (simp add: applied_more_def)

text \<open>Nothing blocks the thread but a \<^verbatim>\<open>recv\<close> on an open descriptor, or one that closing does not end.\<close>

lemma link_moves:
  assumes "ly_thread s \<noteq> LkEnd" and "ly_thread s = LkBlocked \<Longrightarrow> wakes \<and> \<not> ly_open s"
  shows "\<exists>s'. link_step wakes s s'"
proof (cases "ly_thread s")
  case (LkSleep n)
  then show ?thesis using lk_second lk_wake [of s n] by (cases "0 < n") (blast, simp add: not_less, blast)
qed (use assms in \<open>cases "ly_running s"; cases "ly_open s"; auto intro: link_step.intros\<close>)+

lemma stopping_moves:
  assumes "link_inv s" and "ly_stop s \<noteq> StNone" and "ly_stop s \<noteq> StDone"
  shows "\<exists>s'. link_step True s s' \<or> stop_step s s'"
proof (cases "ly_stop s = StJoin \<and> ly_thread s \<noteq> LkEnd")
  case True
  then have "ly_thread s = LkBlocked \<Longrightarrow> \<not> ly_open s" using assms(1) by (simp add: link_inv_def)
  then show ?thesis using link_moves [of s True] True by blast
next
  case False
  then show ?thesis using assms(2,3) by (cases "ly_stop s") (auto intro: stop_step.intros)
qed

section \<open>Properties\<close>


text \<open>
  C23: a link that is being stopped applies at most one more line of its primary (the one whose receive
  was under way), and none once \<^verbatim>\<open>stop\<close> has returned: after \<^verbatim>\<open>REPLICAOF\<close> has been answered nothing of the
  old primary arrives any more. This holds however the operating system treats the closed descriptor.
\<close>

theorem stopped_link_applies_no_more:
  assumes "ly_run wakes started_link m s" and "ly_stop s \<noteq> StNone" and "ly_run wakes s n s'"
  shows "\<exists>ls. ly_applied s' = ly_applied s @ ls \<and> length ls \<le> 1 \<and> (ly_stop s = StDone \<longrightarrow> ls = [])"
proof -
  have i: "link_inv s" using ly_run_inv assms(1) link_inv_start by blast
  have nr: "\<not> ly_running s" using i assms(2) by (simp add: link_inv_def)
  obtain ls where ls: "ly_applied s' = ly_applied s @ ls" "length ls + line_due (ly_thread s') \<le> line_due (ly_thread s)"
    using ly_run_applied [OF assms(3) nr] by (auto simp: applied_more_def)
  have "line_due p \<le> 1" for p by (cases p) simp_all
  then have "length ls \<le> 1" using ls(2) le_trans add_leD1 by blast
  moreover have "ly_stop s = StDone \<longrightarrow> ls = []" using i ls(2) by (auto simp: link_inv_def)
  ultimately show ?thesis using ls(1) by blast
qed

text \<open>A link that connects, blocks in its first receive, and is stopped there.\<close>

definition link_at :: "link_pos \<Rightarrow> bool \<Rightarrow> stop_pos \<Rightarrow> link_system" where
  "link_at p opened q = \<lparr>ly_running = (q = StNone), ly_connected = in_stream p, ly_current = has_client p, ly_open = opened,
     ly_thread = p, ly_stop = q, ly_applied = []\<rparr>"

lemma link_at_steps:
  "ly_step w (link_at LkTest False StNone) (link_at LkConnect False StNone)"
  "ly_step w (link_at LkConnect False StNone) (link_at LkConnecting True StNone)"
  "ly_step w (link_at LkConnecting True StNone) (link_at LkSync True StNone)"
  "ly_step w (link_at LkSync True StNone) (link_at LkWhile True StNone)"
  "ly_step w (link_at LkWhile True StNone) (link_at LkReceive True StNone)"
  "ly_step w (link_at LkReceive True StNone) (link_at LkBlocked True StNone)"
  "ly_step w (link_at LkBlocked True StNone) (link_at LkBlocked True StClear)"
  "ly_step w (link_at LkBlocked True StClear) (link_at LkBlocked False StJoin)"
proof -
  note l = lk_enter [of "link_at LkTest False StNone", THEN ly_link] lk_socket [of "link_at LkConnect False StNone", THEN ly_link]
    lk_connected [of "link_at LkConnecting True StNone", THEN ly_link] lk_sent [of "link_at LkSync True StNone", THEN ly_link]
    lk_again [of "link_at LkWhile True StNone", THEN ly_link] lk_block [of "link_at LkReceive True StNone", THEN ly_link]
    sp_clear [of "link_at LkBlocked True StNone", THEN ly_stopping] sp_close [of "link_at LkBlocked True StClear", THEN ly_stopping]
  show "ly_step w (link_at LkTest False StNone) (link_at LkConnect False StNone)"
    "ly_step w (link_at LkConnect False StNone) (link_at LkConnecting True StNone)"
    "ly_step w (link_at LkConnecting True StNone) (link_at LkSync True StNone)"
    "ly_step w (link_at LkSync True StNone) (link_at LkWhile True StNone)"
    "ly_step w (link_at LkWhile True StNone) (link_at LkReceive True StNone)"
    "ly_step w (link_at LkReceive True StNone) (link_at LkBlocked True StNone)"
    "ly_step w (link_at LkBlocked True StNone) (link_at LkBlocked True StClear)"
    "ly_step w (link_at LkBlocked True StClear) (link_at LkBlocked False StJoin)"
    using l by (simp_all add: link_at_def)
qed

lemma started_link_at: "started_link = link_at LkTest False StNone"
  by (simp add: started_link_def link_at_def)

lemma link_at_run: "ly_run w started_link 7 (link_at LkBlocked True StClear)" "ly_run w started_link 8 (link_at LkBlocked False StJoin)"
proof -
  note r = ly_here [of w "link_at LkTest False StNone", THEN ly_more, OF link_at_steps(1), THEN ly_more, OF link_at_steps(2),
      THEN ly_more, OF link_at_steps(3), THEN ly_more, OF link_at_steps(4), THEN ly_more, OF link_at_steps(5),
      THEN ly_more, OF link_at_steps(6), THEN ly_more, OF link_at_steps(7)]
  show "ly_run w started_link 7 (link_at LkBlocked True StClear)" using r by (simp add: started_link_at eval_nat_numeral)
  show "ly_run w started_link 8 (link_at LkBlocked False StJoin)"
    using r [THEN ly_more, OF link_at_steps(8)] by (simp add: started_link_at eval_nat_numeral)
qed


theorem stopped_link_applies_no_more_witness:
  "\<exists>ls. ly_applied (link_at LkBlocked False StJoin) = ly_applied (link_at LkBlocked True StClear) @ ls \<and> length ls \<le> 1"
proof -
  have q: "ly_stop (link_at LkBlocked True StClear) \<noteq> StNone" by (simp add: link_at_def)
  show ?thesis
    using stopped_link_applies_no_more [OF link_at_run(1) q ly_more [OF ly_here link_at_steps(8)]] by blast
qed

text \<open>
  The proviso is needed. Where closing a descriptor does not end a \<^verbatim>\<open>recv\<close> that another thread is blocked in
  (as on Linux), \<^verbatim>\<open>stop\<close> waits in \<^verbatim>\<open>join\<close> for a thread that waits for the primary: neither can move until
  the primary sends something or goes away, and with them the connection that sent \<^verbatim>\<open>REPLICAOF\<close>.
\<close>

theorem silent_primary_blocks_stop:
  "ly_run False started_link 8 (link_at LkBlocked False StJoin) \<and>
    (\<nexists>s'. link_step False (link_at LkBlocked False StJoin) s' \<or> stop_step (link_at LkBlocked False StJoin) s')"
  using link_at_run(2) by (auto simp: link_at_def elim: link_step.cases stop_step.cases)

end
