(* ===== verification/Sweeper_Wakeups.thy ===== *)
theory Sweeper_Wakeups
  imports Expiry_Manager
begin

text \<open>
  The condition variable of the expiry manager. \<^verbatim>\<open>Expiry_Manager\<close> lets the sweeper wake up whenever it
  likes; here a sleeping sweeper wakes when it is notified, when its deadline has passed, or spuriously,
  as \<^verbatim>\<open>std::condition_variable\<close> allows. \<^verbatim>\<open>schedule\<close> and \<^verbatim>\<open>stop\<close> notify after they have released the mutex, so
  there is a moment in which the change is made and the notification still to come. The lemmas show
  that every such run is a run of the coarser system, and that no wake-up is lost.
\<close>

section \<open>Steps\<close>

text \<open>\<open>wk_owed\<close> counts the calls of \<^verbatim>\<open>notify_one\<close> and \<^verbatim>\<open>notify_all\<close> whose thread has left the mutex but not made them.\<close>

record wakeup_sys =
  wk_mgr :: ExpiryManager
  wk_sweep :: sweeper
  wk_clock :: nanos
  wk_owed :: nat

definition init_wakeup_sys :: "nanos \<Rightarrow> wakeup_sys" where
  "init_wakeup_sys t = \<lparr>wk_mgr = new_ExpiryManager, wk_sweep = Checking, wk_clock = t, wk_owed = 0\<rparr>"

fun asleep :: "sweeper \<Rightarrow> bool" where
  "asleep BlockedEmpty = True"
| "asleep (Waiting d) = True"
| "asleep _ = False"

text \<open>A notification reaches the sweeper if it sleeps, and is lost otherwise.\<close>

definition notified :: "sweeper \<Rightarrow> sweeper" where
  "notified w = (if asleep w then Checking else w)"

inductive wakeup_step :: "wakeup_sys \<Rightarrow> wakeup_sys \<Rightarrow> bool" where
  wk_schedule: "wakeup_step s (s\<lparr>wk_mgr := schedule (wk_mgr s) k t, wk_owed := Suc (wk_owed s)\<rparr>)"
| wk_cancel: "wakeup_step s (s\<lparr>wk_mgr := cancel (wk_mgr s) k\<rparr>)"
| wk_stop: "wakeup_step s (s\<lparr>wk_mgr := stop_expiry (wk_mgr s), wk_owed := Suc (wk_owed s)\<rparr>)"
| wk_notify: "wk_owed s = Suc n \<Longrightarrow> wakeup_step s (s\<lparr>wk_owed := n, wk_sweep := notified (wk_sweep s)\<rparr>)"
| wk_spurious: "wakeup_step s (s\<lparr>wk_sweep := notified (wk_sweep s)\<rparr>)"
| wk_tick: "wk_clock s \<le> t \<Longrightarrow> wakeup_step s (s\<lparr>wk_clock := t\<rparr>)"
| wk_timeout: "wk_sweep s = Waiting d \<Longrightarrow> d \<le> wk_clock s \<Longrightarrow> sweep_step (wk_clock s) (wk_mgr s, Waiting d) (m', w') \<Longrightarrow>
    wakeup_step s (s\<lparr>wk_mgr := m', wk_sweep := w'\<rparr>)"
| wk_awake: "\<not> asleep (wk_sweep s) \<Longrightarrow> sweep_step (wk_clock s) (wk_mgr s, wk_sweep s) (m', w') \<Longrightarrow>
    wakeup_step s (s\<lparr>wk_mgr := m', wk_sweep := w'\<rparr>)"

inductive wakeup_reachable :: "wakeup_sys \<Rightarrow> bool" where
  wk_init: "wakeup_reachable (init_wakeup_sys t)"
| wk_step: "wakeup_reachable s \<Longrightarrow> wakeup_step s s' \<Longrightarrow> wakeup_reachable s'"

section \<open>Every run is a run of the coarser system\<close>

definition coarse :: "wakeup_sys \<Rightarrow> expiry_sys" where
  "coarse s = \<lparr>mgr = wk_mgr s, sweep = wk_sweep s, clock = wk_clock s\<rparr>"

lemma notified_step: "notified w = w \<or> sweep_step now (m, w) (m, notified w)"
  by (cases w) (simp_all add: notified_def sw_notified sw_woken_early)

lemma wakeup_step_coarse: "wakeup_step s s' \<Longrightarrow> coarse s' = coarse s \<or> expiry_step (coarse s) (coarse s')"
proof (induction rule: wakeup_step.induct)
  case (wk_notify s n)
  then show ?case
    using notified_step [of "wk_sweep s" "wk_clock s" "wk_mgr s"] es_sweep [of "coarse s" "wk_mgr s" "notified (wk_sweep s)"]
    by (auto simp: coarse_def)
next
  case (wk_spurious s)
  then show ?case
    using notified_step [of "wk_sweep s" "wk_clock s" "wk_mgr s"] es_sweep [of "coarse s" "wk_mgr s" "notified (wk_sweep s)"]
    by (auto simp: coarse_def)
next
  case (wk_timeout s d m' w')
  then show ?case using es_sweep [of "coarse s" m' w'] by (simp add: coarse_def)
next
  case (wk_awake s m' w')
  then show ?case using es_sweep [of "coarse s" m' w'] by (simp add: coarse_def)
next
  case (wk_schedule s k t)
  then show ?case using es_schedule [of "coarse s" k t] by (simp add: coarse_def)
next
  case (wk_cancel s k)
  then show ?case using es_cancel [of "coarse s" k] by (simp add: coarse_def)
next
  case (wk_stop s)
  then show ?case using es_stop [of "coarse s"] by (simp add: coarse_def)
next
  case (wk_tick s t)
  then show ?case using es_tick [of "coarse s" t] by (simp add: coarse_def)
qed

lemma wakeup_coarse: "wakeup_reachable s \<Longrightarrow> expiry_reachable (coarse s)"
proof (induction rule: wakeup_reachable.induct)
  case (wk_init t)
  then show ?case using er_init [of t] by (simp add: coarse_def init_wakeup_sys_def init_expiry_sys_def)
next
  case (wk_step s s')
  then show ?case using wakeup_step_coarse [OF wk_step(2)] er_step by metis
qed

section \<open>No wake-up is lost\<close>

text \<open>What a sleeping sweeper has not taken into account is on its way to it.\<close>

definition overslept :: "wakeup_sys \<Rightarrow> bool" where
  "overslept s = (case wk_sweep s of
       BlockedEmpty \<Rightarrow> exp_heap (wk_mgr s) \<noteq> {#} \<or> exp_stop (wk_mgr s)
     | Waiting d \<Rightarrow> (\<exists>e \<in># exp_heap (wk_mgr s). fst e < d) \<or> exp_stop (wk_mgr s)
     | _ \<Rightarrow> False)"

lemma asleep_notified [simp]: "\<not> asleep (notified w)"
  by (cases w) (simp_all add: notified_def)

lemma awake_not_overslept: "\<not> asleep (wk_sweep s) \<Longrightarrow> \<not> overslept s"
  by (cases "wk_sweep s") (simp_all add: overslept_def)

text \<open>The sweeper goes to sleep only after it has looked at everything.\<close>

lemma sweep_step_looks:
  assumes "sweep_step now (m, w) (m', w')"
  shows "\<not> overslept \<lparr>wk_mgr = m', wk_sweep = w', wk_clock = t, wk_owed = n\<rparr>"
  using assms by cases (auto simp: overslept_def is_top_def not_less)

lemma overslept_owed: "wakeup_reachable s \<Longrightarrow> overslept s \<Longrightarrow> 0 < wk_owed s"
proof (induction rule: wakeup_reachable.induct)
  case (wk_init t)
  then show ?case by (simp add: overslept_def init_wakeup_sys_def)
next
  case (wk_step s s')
  from wk_step(2,4) show ?case
  proof cases
    case (wk_cancel k)
    then show ?thesis using wk_step(3,4) by (simp add: overslept_def cancel_def split: sweeper.splits)
  next
    case (wk_tick t)
    then show ?thesis using wk_step(3,4) by (simp add: overslept_def split: sweeper.splits)
  next
    case (wk_timeout d m' w')
    then show ?thesis using wk_step(4) sweep_step_looks [of _ _ _ m' w' "wk_clock s" "wk_owed s"] by (cases s) auto
  next
    case (wk_awake m' w')
    then show ?thesis using wk_step(4) sweep_step_looks [of _ _ _ m' w' "wk_clock s" "wk_owed s"] by (cases s) auto
  qed (use wk_step(4) awake_not_overslept [of s'] in auto)
qed

section \<open>Properties\<close>

text \<open>
  C19: no wake-up is lost. Whatever threads schedule, cancel and stop, and however notifications and
  spurious wake-ups fall: once every thread that changed a deadline has made its notification, a sweeper
  that sleeps has a deadline to wake at, no later than the live deadline of any key, and the manager
  has not been stopped; with a stopped manager it is awake or has ended, so that \<^verbatim>\<open>stop\<close> joins it.
\<close>

theorem no_wakeup_is_lost:
  assumes "wakeup_reachable s" and "wk_owed s = 0"
  shows "(exp_stop (wk_mgr s) \<longrightarrow> \<not> asleep (wk_sweep s)) \<and>
    (\<forall>k w. expiryOf (wk_mgr s) k = Some w \<longrightarrow> wk_sweep s \<noteq> BlockedEmpty \<and> (\<forall>d. wk_sweep s = Waiting d \<longrightarrow> d \<le> w))"
proof -
  have n: "\<not> overslept s" using overslept_owed assms by fastforce
  have h: "heap_covers (wk_mgr s)"
    using expiry_reachable_inv [OF wakeup_coarse [OF assms(1)]] by (simp add: expiry_inv_def coarse_def)
  have live: "wk_sweep s \<noteq> BlockedEmpty \<and> (\<forall>d. wk_sweep s = Waiting d \<longrightarrow> d \<le> w)" if "expiryOf (wk_mgr s) k = Some w" for k w
  proof -
    have "(w, k) \<in># exp_heap (wk_mgr s)" using heap_coversD [OF h, of k w] that by (simp add: expiryOf_def)
    with n show ?thesis by (fastforce simp: overslept_def)
  qed
  moreover have "exp_stop (wk_mgr s) \<longrightarrow> \<not> asleep (wk_sweep s)"
    using n by (cases "wk_sweep s") (simp_all add: overslept_def)
  ultimately show ?thesis by blast
qed

text \<open>A sweeper that fell asleep on an empty heap, a deadline scheduled meanwhile, and its notification.\<close>

definition woken_sys :: "nat \<Rightarrow> sweeper \<Rightarrow> wakeup_sys" where
  "woken_sys n w = \<lparr>wk_mgr = schedule new_ExpiryManager ''k'' 5, wk_sweep = w, wk_clock = 0, wk_owed = n\<rparr>"

lemma woken_sys_reachable: "wakeup_reachable (woken_sys 0 (Waiting 5))"
proof -
  let ?i = "init_wakeup_sys 0"
  have "sweep_step 0 (new_ExpiryManager, Checking) (new_ExpiryManager, BlockedEmpty)"
    by (rule sw_empty) (simp_all add: new_ExpiryManager_def)
  then have "wakeup_reachable (?i\<lparr>wk_sweep := BlockedEmpty\<rparr>)"
    using wk_step [OF wk_init wk_awake, of 0 new_ExpiryManager BlockedEmpty] by (simp add: init_wakeup_sys_def)
  from wk_step [OF this wk_schedule, of "''k''" 5] have "wakeup_reachable (woken_sys 1 BlockedEmpty)"
    by (simp add: init_wakeup_sys_def woken_sys_def)
  from wk_step [OF this wk_notify, of 0] have "wakeup_reachable (woken_sys 0 Checking)" by (simp add: woken_sys_def notified_def)
  moreover have "sweep_step 0 (schedule new_ExpiryManager ''k'' 5, Checking) (schedule new_ExpiryManager ''k'' 5, Waiting (fst (5, ''k'')))"
    by (rule sw_wait) (simp_all add: schedule_def new_ExpiryManager_def is_top_def)
  ultimately show ?thesis
    using wk_step [OF _ wk_awake, of "woken_sys 0 Checking" "schedule new_ExpiryManager ''k'' 5" "Waiting 5"] by (simp add: woken_sys_def)
qed

theorem no_wakeup_is_lost_witness:
  "wakeup_reachable (woken_sys 0 (Waiting 5)) \<and> expiryOf (wk_mgr (woken_sys 0 (Waiting 5))) ''k'' = Some 5 \<and>
    wk_sweep (woken_sys 0 (Waiting 5)) \<noteq> BlockedEmpty"
proof -
  have "expiryOf (wk_mgr (woken_sys 0 (Waiting 5))) ''k'' = Some 5" by (simp add: woken_sys_def expiry_simps)
  moreover have "wk_owed (woken_sys 0 (Waiting 5)) = 0" by (simp add: woken_sys_def)
  ultimately show ?thesis using no_wakeup_is_lost [OF woken_sys_reachable] woken_sys_reachable by blast
qed

end
