(* ===== verification/Server_Threads.thy ===== *)
theory Server_Threads
  imports Replication_Theorems
begin

text \<open>
  The threads of a server process and their interleaving: connection threads and the replica link
  of \<^verbatim>\<open>src/server_main.cpp\<close>, the sweeper, and the background tasks. A thread's position says how far
  it is in its current line: the code admits a command (the test of the role), executes it, records it,
  propagates it and replies in five sections between which every other thread may run; a replica stream is registered and dumped
  in two, a snapshot is written and the log reset in two. The accesses of one command to the store
  and the expiry manager are one step. The lemmas give the invariant of all reachable states, and
  show that a request whose steps are not interleaved does what the connection handler's function
  does.
\<close>

section \<open>State\<close>

datatype thread_id = Conn fd | Link

datatype thread_pos =
    NotOpen
  | Reading
  | Admitted Command wire_line
  | InSave Command wire_line
  | Executed Command wire_line string
  | Recorded Command wire_line string
  | ReplyDue string
  | SyncStart
  | SyncRegistered
  | SyncWatching

text \<open>Who is between the two halves of a snapshot, holding its mutex.\<close>

datatype saver = NoSaver | SaveThread thread_id | SaveTimer

record system =
  sys_server :: server
  sys_threads :: "thread_id \<Rightarrow> thread_pos"
  sys_sweeper :: sweeper
  sys_saver :: saver
  sys_clock :: nanos

definition set_thread :: "thread_id \<Rightarrow> thread_pos \<Rightarrow> system \<Rightarrow> system" where
  "set_thread i p s = s\<lparr>sys_threads := (sys_threads s)(i := p)\<rparr>"

definition set_server :: "server \<Rightarrow> system \<Rightarrow> system" where
  "set_server srv s = s\<lparr>sys_server := srv\<rparr>"

section \<open>The sections of a request\<close>

definition must_record :: "Command \<Rightarrow> string \<Rightarrow> bool" where
  "must_record cmd response \<longleftrightarrow> response \<noteq> [] \<and> hd response \<noteq> CHR ''-'' \<and> isWriteCommand (cmd_type cmd)"

definition record_part :: "Command \<Rightarrow> wire_line \<Rightarrow> string \<Rightarrow> server \<Rightarrow> server" where
  "record_part cmd line response s =
     (if must_record cmd response
      then s\<lparr>svr_node := (svr_node s)\<lparr>persistence := map_option (\<lambda>pm. recordWrite pm line) (persistence (svr_node s))\<rparr>\<rparr>
      else s)"

definition propagate_part :: "Command \<Rightarrow> wire_line \<Rightarrow> string \<Rightarrow> server \<Rightarrow> server" where
  "propagate_part cmd line response s =
     (if must_record cmd response then s\<lparr>svr_socks := registry_propagate (svr_registry s) line (svr_socks s)\<rparr> else s)"

lemma record_then_propagate:
  "propagate_part cmd line r (record_part cmd line r s) = recordAndPropagateIfWrite cmd line r s"
  by (simp add: propagate_part_def record_part_def recordAndPropagateIfWrite_def must_record_def Let_def)

text \<open>Where a line read by a connection thread leads: as far as the test of the role.\<close>

definition begin_line :: "wire_line \<Rightarrow> server \<Rightarrow> thread_pos" where
  "begin_line line s =
     (if line = [] then Reading
      else case parse line of
             Inl (ProtocolError what) \<Rightarrow> ReplyDue (Reply_error what)
           | Inr cmd \<Rightarrow>
               if cmd_type cmd = SYNC then SyncStart
               else if isWriteCommand (cmd_type cmd) \<and> svr_role s = REPLICA_ROLE then ReplyDue Reply_readOnlyError
               else Admitted cmd line)"

text \<open>A \<^verbatim>\<open>SAVE\<close> that gets as far as taking a snapshot.\<close>

definition saves :: "Command \<Rightarrow> server \<Rightarrow> bool" where
  "saves cmd s \<longleftrightarrow> cmd_type cmd = SAVE \<and> cmd_args cmd = [] \<and> persistence (svr_node s) \<noteq> None"

definition snapshot_half :: "server \<Rightarrow> server" where
  "snapshot_half s = (case persistence (svr_node s) of None \<Rightarrow> s | Some pm \<Rightarrow>
     s\<lparr>svr_node := (svr_node s)\<lparr>node_disk :=
       fst (saveToFile (node_disk (svr_node s)) (snapshotPath (pm_config pm)) (store (svr_node s)))\<rparr>\<rparr>)"

definition reset_half :: "server \<Rightarrow> server" where
  "reset_half s = (case persistence (svr_node s) of None \<Rightarrow> s | Some pm \<Rightarrow>
     (case aof_reset (node_disk (svr_node s), pm_aof pm) of
        (d', w') \<Rightarrow> s\<lparr>svr_node := (svr_node s)\<lparr>node_disk := d', persistence := Some (pm\<lparr>pm_aof := w'\<rparr>)\<rparr>\<rparr>))"

definition count_command :: "server \<Rightarrow> server" where
  "count_command s = s\<lparr>svr_node := (svr_node s)\<lparr>totalCommands := totalCommands (svr_node s) + 1\<rparr>\<rparr>"

definition put_expiry :: "ExpiryManager \<Rightarrow> server \<Rightarrow> server" where
  "put_expiry m s = s\<lparr>svr_node := (svr_node s)\<lparr>expiry := m\<rparr>\<rparr>"

section \<open>Steps\<close>

text \<open>
  A connection thread; \<open>Link\<close> applies the lines of a primary without testing the role and replies to
  nobody. \<^verbatim>\<open>REPLICAOF\<close> joins the link thread, so it goes ahead only when that is between two lines.
\<close>

inductive thread_step :: "system \<Rightarrow> system \<Rightarrow> bool" where
  th_open: "sys_threads s (Conn fd) = NotOpen \<Longrightarrow> thread_step s (set_thread (Conn fd) Reading s)"
| th_eof: "sys_threads s (Conn fd) = Reading \<Longrightarrow> thread_step s (set_thread (Conn fd) NotOpen s)"
| th_line: "sys_threads s (Conn fd) = Reading \<Longrightarrow> LF \<notin> set line \<Longrightarrow>
    thread_step s (set_thread (Conn fd) (begin_line line (sys_server s)) s)"
| th_apply: "sys_threads s Link = Reading \<Longrightarrow> svr_role (sys_server s) = REPLICA_ROLE \<Longrightarrow> LF \<notin> set line \<Longrightarrow>
    parse line = Inr cmd \<Longrightarrow> thread_step s (set_thread Link (Admitted cmd line) s)"
| th_execute: "sys_threads s i = Admitted cmd line \<Longrightarrow> \<not> saves cmd (sys_server s) \<Longrightarrow>
    (cmd_type cmd = REPLICAOF \<longrightarrow> sys_threads s Link = Reading) \<Longrightarrow>
    execute_on (sys_clock s) cmd (sys_server s) = (srv, response) \<Longrightarrow>
    thread_step s (set_thread i (Executed cmd line response) (set_server srv s))"
| th_record: "sys_threads s i = Executed cmd line response \<Longrightarrow>
    thread_step s (set_thread i (Recorded cmd line response) (set_server (record_part cmd line response (sys_server s)) s))"
| th_propagate: "sys_threads s i = Recorded cmd line response \<Longrightarrow>
    thread_step s (set_thread i (if i = Link then Reading else ReplyDue response)
      (set_server (propagate_part cmd line response (sys_server s)) s))"
| th_reply: "sys_threads s (Conn fd) = ReplyDue response \<Longrightarrow> reply_with fd response (sys_server s) = (srv, nx) \<Longrightarrow>
    thread_step s (set_thread (Conn fd) (if nx = NextLine then Reading else NotOpen) (set_server srv s))"
| th_register: "sys_threads s (Conn fd) = SyncStart \<Longrightarrow>
    thread_step s (set_thread (Conn fd) SyncRegistered (set_server (sync_register fd (sys_server s)) s))"
| th_dump: "sys_threads s (Conn fd) = SyncRegistered \<Longrightarrow> sync_dump fd (sys_server s) = (srv, ok) \<Longrightarrow>
    thread_step s (set_thread (Conn fd) (if ok then SyncWatching else NotOpen) (set_server srv s))"
| th_watch: "sys_threads s (Conn fd) = SyncWatching \<Longrightarrow>
    thread_step s (set_thread (Conn fd) NotOpen (set_server (sync_watch fd (sys_server s)) s))"

text \<open>Snapshots: the command and the timer take turns.\<close>

inductive save_step :: "system \<Rightarrow> system \<Rightarrow> bool" where
  sv_command: "sys_threads s i = Admitted cmd line \<Longrightarrow> saves cmd (sys_server s) \<Longrightarrow> sys_saver s = NoSaver \<Longrightarrow>
    save_step s ((set_thread i (InSave cmd line) (set_server (snapshot_half (count_command (sys_server s))) s))\<lparr>sys_saver := SaveThread i\<rparr>)"
| sv_timer: "sys_saver s = NoSaver \<Longrightarrow>
    save_step s ((set_server (snapshot_half (sys_server s)) s)\<lparr>sys_saver := SaveTimer\<rparr>)"
| sv_reset: "sys_saver s = SaveThread i \<Longrightarrow> sys_threads s i = InSave cmd line \<Longrightarrow>
    save_step s ((set_thread i (Executed cmd line Reply_ok) (set_server (reset_half (sys_server s)) s))\<lparr>sys_saver := NoSaver\<rparr>)"
| sv_done: "sys_saver s = SaveTimer \<Longrightarrow>
    save_step s ((set_server (reset_half (sys_server s)) s)\<lparr>sys_saver := NoSaver\<rparr>)"

text \<open>The sweeper with its callback, flushes, and time.\<close>

inductive other_step :: "system \<Rightarrow> system \<Rightarrow> bool" where
  ot_sweep: "\<forall>k. sys_sweeper s \<noteq> Firing k \<Longrightarrow>
    sweep_step (sys_clock s) (expiry (svr_node (sys_server s)), sys_sweeper s) (m, w) \<Longrightarrow>
    other_step s ((set_server (put_expiry m (sys_server s)) s)\<lparr>sys_sweeper := w\<rparr>)"
| ot_expired: "sys_sweeper s = Firing k \<Longrightarrow>
    other_step s ((set_server (on_expire k (sys_server s)) s)\<lparr>sys_sweeper := Checking\<rparr>)"
| ot_flush: "other_step s (set_server (background FlushTask (sys_server s)) s)"
| ot_spill: "other_step s (set_server (spill_log k (sys_server s)) s)"
| ot_time: "sys_clock s \<le> t \<Longrightarrow> other_step s (s\<lparr>sys_clock := t\<rparr>)"

inductive sys_step :: "system \<Rightarrow> system \<Rightarrow> bool" where
  sy_thread: "thread_step s s' \<Longrightarrow> sys_step s s'"
| sy_save: "save_step s s' \<Longrightarrow> sys_step s s'"
| sy_other: "other_step s s' \<Longrightarrow> sys_step s s'"


section \<open>What the sections do to a server\<close>

definition server_ok :: "server \<Rightarrow> bool" where
  "server_ok s \<longleftrightarrow> node_inv (svr_node s) \<and> clean_entries (store (svr_node s)) \<and> replication (svr_node s) \<noteq> None"

lemma replication_kept: "replication (fst (execute now cmd n)) = None \<longleftrightarrow> replication n = None"
  using execute_registry [of now cmd n] by (metis map_option_is_None)

lemma parse_name_word: "parse line = Inr cmd \<Longrightarrow> is_word (cmd_name cmd)"
  using tokenize_words [of "cmd_name cmd" line] parse_InrD(2) by auto

lemma server_ok_execute:
  assumes "server_ok s" and "parse line = Inr cmd" and "execute_on now cmd s = (s1, r)"
  shows "server_ok s1" and "LF \<notin> set r" and "svr_registry s1 = svr_registry s"
proof -
  have i: "store_inv (store (svr_node s))" "clean_entries (store (svr_node s))"
    using assms(1) by (simp_all add: server_ok_def node_inv_def)
  have w: "is_word (cmd_name cmd)" "\<forall>x \<in> set (cmd_args cmd). is_word x"
    using parse_name_word [OF assms(2)] parse_args_words [OF assms(2)] by simp_all
  have n: "svr_node s1 = fst (execute now cmd (svr_node s))" "r = snd (execute now cmd (svr_node s))"
    using execute_on_node [OF assms(3)] by simp_all
  show "server_ok s1"
    using assms(1) execute_node_inv execute_clean [OF i] w n by (auto simp: server_ok_def replication_kept)
  show "LF \<notin> set r" using execute_reply_one_line [OF i] w n by auto
  show "svr_registry s1 = svr_registry s" by (rule registry_execute_on [OF assms(3)])
qed

text \<open>Commands only add to the heap of deadlines; nothing else outside the sweeper touches it.\<close>

lemma exec_heap:
  "exp_heap (expiry n) \<subseteq># exp_heap (expiry (fst (exec_SET now cmd n)))"
  "expiry (fst (exec_GET cmd n)) = expiry n" "exp_heap (expiry (fst (exec_DEL cmd n))) = exp_heap (expiry n)"
  "expiry (fst (incrementReply n k d)) = expiry n" "expiry (fst (exec_TTL now cmd n)) = expiry n"
  "exp_heap (expiry n) \<subseteq># exp_heap (expiry (fst (exec_EXPIRE now cmd n)))"
  "exp_heap (expiry (fst (exec_PERSIST cmd n))) = exp_heap (expiry n)" "expiry (fst (exec_SAVE cmd n)) = expiry n"
  "expiry (fst (exec_REPLICAOF cmd n)) = expiry n"
  by (simp_all add: exec_defs incrementReply_def schedule_def cancel_def Let_def
      split: list.splits option.splits prod.splits sum.splits)

lemma execute_heap: "exp_heap (expiry n) \<subseteq># exp_heap (expiry (fst (execute now cmd n)))"
  using exec_heap [where n = "n\<lparr>totalCommands := totalCommands n + 1\<rparr>"]
  by (simp add: execute_def Let_def split: CommandType.splits list.splits)

lemma record_part_parts [simp]:
  "node_inv (svr_node (record_part cmd line r s)) = node_inv (svr_node s)" "store (svr_node (record_part cmd line r s)) = store (svr_node s)"
  "replication (svr_node (record_part cmd line r s)) = replication (svr_node s)"
  "expiry (svr_node (record_part cmd line r s)) = expiry (svr_node s)"
  by (simp_all add: record_part_def node_inv_def)

lemma propagate_part_node [simp]: "svr_node (propagate_part cmd line r s) = svr_node s"
  by (simp add: propagate_part_def)

lemma reply_with_node [simp]: "svr_node (fst (reply_with fd r s)) = svr_node s"
  by (simp add: reply_with_def write_reply_def split: prod.split)

lemma half_parts [simp]:
  "node_inv (svr_node (snapshot_half s)) = node_inv (svr_node s)" "store (svr_node (snapshot_half s)) = store (svr_node s)"
  "replication (svr_node (snapshot_half s)) = replication (svr_node s)" "expiry (svr_node (snapshot_half s)) = expiry (svr_node s)"
  "node_inv (svr_node (reset_half s)) = node_inv (svr_node s)" "store (svr_node (reset_half s)) = store (svr_node s)"
  "replication (svr_node (reset_half s)) = replication (svr_node s)" "expiry (svr_node (reset_half s)) = expiry (svr_node s)"
  "node_inv (svr_node (count_command s)) = node_inv (svr_node s)" "store (svr_node (count_command s)) = store (svr_node s)"
  "replication (svr_node (count_command s)) = replication (svr_node s)" "expiry (svr_node (count_command s)) = expiry (svr_node s)"
  by (simp_all add: snapshot_half_def reset_half_def count_command_def node_inv_def split: option.split prod.split)

lemma background_parts [simp]:
  "node_inv (svr_node (background t s)) = node_inv (svr_node s)" "store (svr_node (background t s)) = store (svr_node s)"
  "replication (svr_node (background t s)) = replication (svr_node s)" "expiry (svr_node (background t s)) = expiry (svr_node s)"
  "node_inv (svr_node (spill_log k s)) = node_inv (svr_node s)" "store (svr_node (spill_log k s)) = store (svr_node s)"
  "replication (svr_node (spill_log k s)) = replication (svr_node s)" "expiry (svr_node (spill_log k s)) = expiry (svr_node s)"
  by (simp_all add: background_def spill_log_def node_inv_def split: option.split prod.split)

lemma map_registry_parts [simp]:
  "store (svr_node (map_registry f s)) = store (svr_node s)" "expiry (svr_node (map_registry f s)) = expiry (svr_node s)"
  "replication (svr_node (map_registry f s)) = None \<longleftrightarrow> replication (svr_node s) = None"
  "node_inv (svr_node (map_registry f s)) = node_inv (svr_node s)"
  by (auto simp: map_registry_def node_inv_def replication_inv_def split: option.split)

lemma map_registry_registry:
  "replication (svr_node s) \<noteq> None \<Longrightarrow> svr_registry (map_registry f s) = f (svr_registry s)"
  by (auto simp: map_registry_def svr_registry_def)

section \<open>The invariant\<close>

definition streaming :: "thread_pos \<Rightarrow> bool" where
  "streaming p \<longleftrightarrow> p = SyncRegistered \<or> p = SyncWatching"

definition pending_ok :: "thread_pos \<Rightarrow> bool" where
  "pending_ok p \<longleftrightarrow> (case p of
     Admitted cmd line \<Rightarrow> LF \<notin> set line \<and> parse line = Inr cmd
   | InSave cmd line \<Rightarrow> LF \<notin> set line \<and> parse line = Inr cmd
   | Executed cmd line r \<Rightarrow> LF \<notin> set line \<and> parse line = Inr cmd \<and> LF \<notin> set r
   | Recorded cmd line r \<Rightarrow> LF \<notin> set line \<and> parse line = Inr cmd \<and> LF \<notin> set r
   | ReplyDue r \<Rightarrow> LF \<notin> set r | _ \<Rightarrow> True)"

definition saving :: "thread_pos \<Rightarrow> bool" where
  "saving p \<longleftrightarrow> (case p of InSave cmd line \<Rightarrow> True | _ \<Rightarrow> False)"

definition registry_ok :: "system \<Rightarrow> bool" where
  "registry_ok s \<longleftrightarrow> distinct (replicaFds (svr_registry (sys_server s))) \<and>
     (\<forall>fd. fd \<in> set (replicaFds (svr_registry (sys_server s))) \<longleftrightarrow> streaming (sys_threads s (Conn fd)))"

definition sys_inv :: "system \<Rightarrow> bool" where
  "sys_inv s \<longleftrightarrow> server_ok (sys_server s) \<and> wait_covers (expiry (svr_node (sys_server s))) (sys_sweeper s) \<and>
     registry_ok s \<and> (\<forall>i. pending_ok (sys_threads s i)) \<and>
     (\<forall>i. saving (sys_threads s i) \<longleftrightarrow> sys_saver s = SaveThread i)"

lemmas sys_updates = set_thread_def set_server_def

text \<open>A step of one thread; first in general, then one that leaves the registry alone.\<close>

lemma sys_inv_stream:
  assumes "sys_inv s" and "server_ok srv"
    and "exp_heap (expiry (svr_node (sys_server s))) \<subseteq># exp_heap (expiry (svr_node srv))"
    and "pending_ok p" and "\<not> saving p" and "\<not> saving (sys_threads s i)"
    and "registry_ok (set_thread i p (set_server srv s))"
  shows "sys_inv (set_thread i p (set_server srv s))"
  using assms wait_covers_mono [OF _ assms(3), of "sys_sweeper s"] by (auto simp: sys_inv_def sys_updates)

lemma sys_inv_move:
  assumes "sys_inv s" and "server_ok srv" and "svr_registry srv = svr_registry (sys_server s)"
    and "exp_heap (expiry (svr_node (sys_server s))) \<subseteq># exp_heap (expiry (svr_node srv))"
    and "pending_ok p" and "\<not> streaming p" and "\<not> streaming (sys_threads s i)" and "\<not> saving p" and "\<not> saving (sys_threads s i)"
  shows "sys_inv (set_thread i p (set_server srv s))"
  by (rule sys_inv_stream [OF assms(1,2,4,5,8,9)])
    (use assms(1,3,6,7) in \<open>auto simp: sys_inv_def registry_ok_def sys_updates\<close>)

lemma begin_line_ok:
  assumes "LF \<notin> set line"
  shows "pending_ok (begin_line line s)" and "\<not> streaming (begin_line line s)" and "\<not> saving (begin_line line s)"
proof -
  have "LF \<notin> set (Reply_error what)" if "parse line = Inl (ProtocolError what)" for what
    using that by (auto simp: parse_def Reply_error_def to_string_word [THEN word_no_LF] split: if_splits list.splits)
  then show "pending_ok (begin_line line s)" and "\<not> streaming (begin_line line s)" and "\<not> saving (begin_line line s)"
    using assms
    by (auto simp: begin_line_def pending_ok_def streaming_def saving_def Reply_readOnlyError_def split: sum.split ProtocolError.split)
qed

lemma sync_server_ok:
  "server_ok s \<Longrightarrow> server_ok (sync_register fd s)" "server_ok s \<Longrightarrow> server_ok (fst (sync_dump fd s))"
  "server_ok s \<Longrightarrow> server_ok (sync_watch fd s)"
  by (auto simp: server_ok_def sync_register_def sync_dump_def sync_watch_def set_rx_def Let_def
      simp del: not_None_eq split: prod.split)

lemma sync_registry:
  assumes "server_ok s"
  shows "svr_registry (sync_register fd s) = registry_add (svr_registry s) fd"
    and "svr_registry (fst (sync_dump fd s)) = (if snd (sync_dump fd s) then svr_registry s else registry_remove (svr_registry s) fd)"
    and "svr_registry (sync_watch fd s) = registry_remove (svr_registry s) fd"
  using assms
  by (auto simp: server_ok_def sync_register_def sync_dump_def sync_watch_def set_rx_def map_registry_registry svr_registry_def
      map_registry_def Let_def split: prod.split option.split)

lemma sync_expiry:
  "expiry (svr_node (sync_register fd s)) = expiry (svr_node s)" "expiry (svr_node (fst (sync_dump fd s))) = expiry (svr_node s)"
  "expiry (svr_node (sync_watch fd s)) = expiry (svr_node s)"
  by (auto simp: sync_register_def sync_dump_def sync_watch_def set_rx_def Let_def split: prod.split)

text \<open>A thread that only changes its position.\<close>

lemma sys_inv_position:
  assumes "sys_inv s" and "pending_ok p" and "\<not> streaming p" and "\<not> streaming (sys_threads s i)" and "\<not> saving p" and "\<not> saving (sys_threads s i)"
  shows "sys_inv (set_thread i p s)"
  using sys_inv_move [of s "sys_server s" p i] assms by (simp add: sys_inv_def set_server_def)

lemma thread_pos_simps [simp]:
  "\<not> streaming NotOpen" "\<not> streaming Reading" "\<not> streaming (Admitted cmd line)" "\<not> streaming (InSave cmd line)"
  "\<not> streaming (Executed cmd line r)" "\<not> streaming (Recorded cmd line r)" "\<not> streaming (ReplyDue r)" "\<not> streaming SyncStart"
  "streaming SyncRegistered" "streaming SyncWatching"
  "\<not> saving NotOpen" "\<not> saving Reading" "\<not> saving (Admitted cmd line)" "saving (InSave cmd line)"
  "\<not> saving (Executed cmd line r)" "\<not> saving (Recorded cmd line r)" "\<not> saving (ReplyDue r)" "\<not> saving SyncStart"
  "\<not> saving SyncRegistered" "\<not> saving SyncWatching"
  by (simp_all add: streaming_def saving_def)

lemma sys_inv_execute:
  assumes "sys_inv s" and "sys_threads s i = Admitted cmd line" and "execute_on (sys_clock s) cmd (sys_server s) = (srv, r)"
  shows "sys_inv (set_thread i (Executed cmd line r) (set_server srv s))"
proof -
  have ok: "server_ok (sys_server s)" and p: "pending_ok (Admitted cmd line)"
    using assms(1,2) by (simp add: sys_inv_def, metis sys_inv_def)
  have h: "exp_heap (expiry (svr_node (sys_server s))) \<subseteq># exp_heap (expiry (svr_node srv))"
    using execute_heap execute_on_node [OF assms(3)] by simp
  have pl: "parse line = Inr cmd" using p by (simp add: pending_ok_def)
  show ?thesis
    by (rule sys_inv_move [OF assms(1)])
      (use server_ok_execute [OF ok pl assms(3)] h p assms(2) in \<open>simp_all add: pending_ok_def\<close>)
qed

text \<open>The three steps of a replica stream that change the registry.\<close>

lemma sys_inv_register:
  assumes "sys_inv s" and "sys_threads s (Conn fd) = SyncStart"
  shows "sys_inv (set_thread (Conn fd) SyncRegistered (set_server (sync_register fd (sys_server s)) s))"
proof -
  have ok: "server_ok (sys_server s)" and r: "registry_ok s" using assms(1) by (simp_all add: sys_inv_def)
  have "registry_ok (set_thread (Conn fd) SyncRegistered (set_server (sync_register fd (sys_server s)) s))"
    using r assms(2) sync_registry(1) [OF ok, of fd] by (auto simp: registry_ok_def sys_updates registry_add_def)
  then show ?thesis
    using assms sync_server_ok(1) [OF ok] by (intro sys_inv_stream) (simp_all add: sync_expiry pending_ok_def)
qed

lemma sys_inv_dump:
  assumes "sys_inv s" and "sys_threads s (Conn fd) = SyncRegistered" and "sync_dump fd (sys_server s) = (srv, ok)"
  shows "sys_inv (set_thread (Conn fd) (if ok then SyncWatching else NotOpen) (set_server srv s))"
proof -
  have k: "server_ok (sys_server s)" and r: "registry_ok s" using assms(1) by (simp_all add: sys_inv_def)
  note d = sync_server_ok(2) [OF k, of fd] sync_registry(2) [OF k, of fd] sync_expiry(2) [of fd "sys_server s"]
  have srv: "server_ok srv" "expiry (svr_node srv) = expiry (svr_node (sys_server s))"
    "svr_registry srv = (if ok then svr_registry (sys_server s) else registry_remove (svr_registry (sys_server s)) fd)"
    using d unfolding assms(3) by simp_all
  have "registry_ok (set_thread (Conn fd) (if ok then SyncWatching else NotOpen) (set_server srv s))"
    using r assms(2) srv(3) by (auto simp: registry_ok_def sys_updates registry_remove_def)
  with srv(1,2) assms(2) show ?thesis
    by (intro sys_inv_stream [OF assms(1)]) (simp_all add: pending_ok_def)
qed

lemma sys_inv_watch:
  assumes "sys_inv s" and "sys_threads s (Conn fd) = SyncWatching"
  shows "sys_inv (set_thread (Conn fd) NotOpen (set_server (sync_watch fd (sys_server s)) s))"
proof -
  have ok: "server_ok (sys_server s)" and r: "registry_ok s" using assms(1) by (simp_all add: sys_inv_def)
  have "registry_ok (set_thread (Conn fd) NotOpen (set_server (sync_watch fd (sys_server s)) s))"
    using r assms(2) sync_registry(3) [OF ok, of fd] by (auto simp: registry_ok_def sys_updates registry_remove_def)
  then show ?thesis
    using assms sync_server_ok(3) [OF ok] by (intro sys_inv_stream) (simp_all add: sync_expiry pending_ok_def)
qed

lemma sys_inv_thread: "thread_step s s' \<Longrightarrow> sys_inv s \<Longrightarrow> sys_inv s'"
proof (induction rule: thread_step.induct)
  case (th_open s fd)
  then show ?case by (intro sys_inv_position) (simp_all add: pending_ok_def)
next
  case (th_eof s fd)
  then show ?case by (intro sys_inv_position) (simp_all add: pending_ok_def)
next
  case (th_line s fd line)
  then show ?case using begin_line_ok [OF th_line(2)] by (intro sys_inv_position) simp_all
next
  case (th_apply s line cmd)
  then show ?case by (intro sys_inv_position) (simp_all add: pending_ok_def)
next
  case (th_execute s i cmd line srv response)
  then show ?case by (intro sys_inv_execute)
next
  case (th_record s i cmd line response)
  have ok: "server_ok (sys_server s)" and p: "pending_ok (Executed cmd line response)"
    using th_record by (simp add: sys_inv_def, metis sys_inv_def)
  show ?case
    by (rule sys_inv_move [OF th_record(2)])
      (use ok p th_record(1) in \<open>simp_all add: server_ok_def svr_registry_def pending_ok_def\<close>)
next
  case (th_propagate s i cmd line response)
  have ok: "server_ok (sys_server s)" and p: "pending_ok (Recorded cmd line response)"
    using th_propagate by (simp add: sys_inv_def, metis sys_inv_def)
  show ?case
    by (rule sys_inv_move [OF th_propagate(2)])
      (use ok p th_propagate(1) in \<open>simp_all add: server_ok_def svr_registry_def pending_ok_def\<close>)
next
  case (th_reply s fd response srv nx)
  have ok: "server_ok (sys_server s)" using th_reply(3) by (simp add: sys_inv_def)
  have n: "svr_node srv = svr_node (sys_server s)" using reply_with_node [of fd response "sys_server s"] th_reply(2) by simp
  show ?case
    by (rule sys_inv_move [OF th_reply(3)])
      (use ok n th_reply(1) in \<open>simp_all add: server_ok_def svr_registry_def pending_ok_def\<close>)
next
  case (th_register s fd)
  then show ?case by (intro sys_inv_register)
next
  case (th_dump s fd srv ok)
  then show ?case by (intro sys_inv_dump)
next
  case (th_watch s fd)
  then show ?case by (intro sys_inv_watch)
qed

lemma sys_inv_same:
  assumes "sys_inv s" and "server_ok srv" and "replication (svr_node srv) = replication (svr_node (sys_server s))"
    and "wait_covers (expiry (svr_node srv)) w"
  shows "sys_inv ((set_server srv s)\<lparr>sys_sweeper := w\<rparr>)"
  using assms by (auto simp: sys_inv_def registry_ok_def sys_updates svr_registry_def)

text \<open>The two halves of a snapshot leave the shared state but for the files.\<close>

lemma half_inv:
  assumes "sys_inv s" and "node_inv (svr_node srv) = node_inv (svr_node (sys_server s))" and "store (svr_node srv) = store (svr_node (sys_server s))"
    and "replication (svr_node srv) = replication (svr_node (sys_server s))" and "expiry (svr_node srv) = expiry (svr_node (sys_server s))"
    and "pending_ok p" and "\<not> streaming p" and "\<not> streaming (sys_threads s i)"
    and "\<And>j. saving (if j = i then p else sys_threads s j) \<longleftrightarrow> v = SaveThread j"
  shows "sys_inv ((set_thread i p (set_server srv s))\<lparr>sys_saver := v\<rparr>)"
  using assms(1-8) assms(9) by (auto simp: sys_inv_def registry_ok_def sys_updates server_ok_def svr_registry_def)

lemma sys_inv_save: "save_step s s' \<Longrightarrow> sys_inv s \<Longrightarrow> sys_inv s'"
proof (induction rule: save_step.induct)
  case (sv_command s i cmd line)
  have p: "pending_ok (Admitted cmd line)" using sv_command(1,4) by (metis sys_inv_def)
  have "saving (sys_threads s j) \<longleftrightarrow> False" for j using sv_command(3,4) by (simp add: sys_inv_def)
  with p sv_command show ?case by (intro half_inv) (simp_all add: pending_ok_def)
next
  case (sv_timer s)
  then show ?case by (auto simp: sys_inv_def registry_ok_def sys_updates svr_registry_def server_ok_def)
next
  case (sv_reset s i cmd line)
  have p: "pending_ok (InSave cmd line)" using sv_reset(2,3) by (metis sys_inv_def)
  have "saving (sys_threads s j) \<longleftrightarrow> j = i" for j using sv_reset(1,3) by (auto simp: sys_inv_def)
  with p sv_reset show ?case by (intro half_inv) (simp_all add: pending_ok_def Reply_ok_def)
next
  case (sv_done s)
  then show ?case by (auto simp: sys_inv_def registry_ok_def sys_updates svr_registry_def server_ok_def)
qed

lemma sys_inv_other: "other_step s s' \<Longrightarrow> sys_inv s \<Longrightarrow> sys_inv s'"
proof (induction rule: other_step.induct)
  case (ot_sweep s m w)
  let ?m = "expiry (svr_node (sys_server s))"
  have "heap_covers m" "wait_covers m w"
    using sweep_step_heap_covers [OF ot_sweep(2)] sweep_step_wait_covers [OF ot_sweep(2)] ot_sweep(3)
    by (auto simp: sys_inv_def server_ok_def node_inv_def)
  with ot_sweep show ?case
    by (intro sys_inv_same) (auto simp: put_expiry_def server_ok_def node_inv_def sys_inv_def)
next
  case (ot_expired s k)
  then have i: "store_inv (store (svr_node (sys_server s)))" "clean_entries (store (svr_node (sys_server s)))"
    by (simp_all add: sys_inv_def server_ok_def node_inv_def)
  have "clean_entries (fst (kv_del (store (svr_node (sys_server s))) k))"
    using i clean_del by blast
  with ot_expired store_inv_del [OF i(1)] show ?case
    by (intro sys_inv_same) (auto simp: on_expire_def server_ok_def node_inv_def sys_inv_def wait_covers_def)
next
  case (ot_flush s)
  then show ?case using sys_inv_same [of s "background FlushTask (sys_server s)" "sys_sweeper s"]
    by (simp add: server_ok_def sys_inv_def set_server_def)
next
  case (ot_spill s k)
  then show ?case using sys_inv_same [of s "spill_log k (sys_server s)" "sys_sweeper s"]
    by (simp add: server_ok_def sys_inv_def set_server_def)
qed (simp add: sys_inv_def registry_ok_def)

lemma sys_inv_step: "sys_step s s' \<Longrightarrow> sys_inv s \<Longrightarrow> sys_inv s'"
  by (induction rule: sys_step.induct) (simp_all add: sys_inv_thread sys_inv_save sys_inv_other)

section \<open>Reachable states\<close>

text \<open>The process accepts connections; the link thread is there if the process becomes a replica.\<close>

definition init_system :: "server \<Rightarrow> nanos \<Rightarrow> system" where
  "init_system srv t =
     \<lparr>sys_server = srv, sys_threads = (\<lambda>i. if i = Link then Reading else NotOpen), sys_sweeper = Checking,
      sys_saver = NoSaver, sys_clock = t\<rparr>"

inductive sys_reachable :: "server \<Rightarrow> nanos \<Rightarrow> system \<Rightarrow> bool" for srv t where
  sr_init: "sys_reachable srv t (init_system srv t)"
| sr_step: "sys_reachable srv t s \<Longrightarrow> sys_step s s' \<Longrightarrow> sys_reachable srv t s'"

lemma sys_reachable_inv:
  "sys_reachable srv t s \<Longrightarrow> server_ok srv \<Longrightarrow> replicaFds (svr_registry srv) = [] \<Longrightarrow> sys_inv s"
proof (induction rule: sys_reachable.induct)
  case sr_init
  then show ?case
    by (simp add: sys_inv_def init_system_def registry_ok_def streaming_def pending_ok_def wait_covers_def)
next
  case (sr_step s s')
  then show ?case using sys_inv_step by blast
qed

definition booted_ok :: "node \<Rightarrow> bool" where
  "booted_ok n \<longleftrightarrow> node_inv n \<and> clean_entries (store n) \<and> map_option registry (replication n) = Some \<lparr>replicaFds = []\<rparr>"

lemma replay_booted_ok: "booted_ok n \<Longrightarrow> booted_ok (replay_from clk i lines n)"
proof (induction clk i lines n rule: replay_from.induct)
  case (2 clk i line rest n)
  have "booted_ok (fst (execute (clk i) cmd n))" if "parse line = Inr cmd" for cmd
    using 2(4) execute_clean [of n cmd] parse_args_words [OF that] execute_registry [of "clk i" cmd n] execute_node_inv
    by (auto simp: booted_ok_def node_inv_def)
  with 2 show ?case by (auto split: sum.split)
qed simp

lemma boot_booted_ok: "booted_ok (boot clk1 clk2 maxKeys c d)"
proof -
  have "booted_ok (setReplication new_ReplicationManager (setPersistence pm (new_node maxKeys d')))" for pm d'
    by (simp add: booted_ok_def node_inv_def setReplication_def setPersistence_def new_node_def store_inv_new
        clean_entries_def entries_new new_ReplicationManager_def replication_inv_def)
  then show ?thesis
    using replay_booted_ok
    by (simp add: boot_def recover_def loadFromFile_def AofLoader_replay_def SnapshotManager_load_def replayLines_def
        split_beta split: option.split)
qed

lemma booted_server_ok:
  assumes "booted_ok (svr_node srv)"
  shows "server_ok srv" and "replicaFds (svr_registry srv) = []"
  using assms by (auto simp: booted_ok_def server_ok_def svr_registry_def)

section \<open>A request by itself\<close>

lemma snapshot_then_reset:
  assumes "saves cmd s" and "execute_on now cmd s = (s1, r)"
  shows "reset_half (snapshot_half (count_command s)) = s1" and "r = Reply_ok"
proof -
  obtain pm where c: "cmd_type cmd = SAVE" "cmd_args cmd = []" "persistence (svr_node s) = Some pm"
    using assms(1) by (auto simp: saves_def)
  then show "reset_half (snapshot_half (count_command s)) = s1" and "r = Reply_ok"
    using assms(2)
    by (auto simp: execute_on_def execute_def exec_SAVE_def PersistenceManager_save_def reset_half_def snapshot_half_def
        count_command_def Let_def split: prod.splits)
qed

lemma set_thread_again [simp]: "set_thread i p (set_thread i q s) = set_thread i p s"
  and set_server_again [simp]: "set_server a (set_server b s) = set_server a s"
  and sys_server_set [simp]: "sys_server (set_server srv s) = srv" "sys_server (set_thread i p s) = sys_server s"
  and sys_threads_set [simp]: "sys_threads (set_thread i p s) = (sys_threads s)(i := p)" "sys_threads (set_server srv s) = sys_threads s"
  and set_server_thread: "set_server srv (set_thread i p s) = set_thread i p (set_server srv s)"
  by (simp_all add: sys_updates)

text \<open>From the end of the execution on: record, propagate, reply.\<close>

lemma finish_request:
  assumes "sys_threads s (Conn fd) = Executed cmd line r"
    and "reply_with fd r (recordAndPropagateIfWrite cmd line r (sys_server s)) = (srv, nx)"
  shows "sys_step\<^sup>*\<^sup>* s (set_thread (Conn fd) (if nx = NextLine then Reading else NotOpen) (set_server srv s))"
proof -
  let ?srv1 = "record_part cmd line r (sys_server s)"
  let ?srv2 = "propagate_part cmd line r ?srv1"
  let ?s1 = "set_thread (Conn fd) (Recorded cmd line r) (set_server ?srv1 s)"
  let ?s2 = "set_thread (Conn fd) (ReplyDue r) (set_server ?srv2 s)"
  have 1: "sys_step s ?s1" using assms(1) by (intro sy_thread th_record)
  have "thread_step ?s1 ?s2" using th_propagate [of ?s1 "Conn fd" cmd line r] by (simp add: set_server_thread)
  then have 2: "sys_step ?s1 ?s2" by (rule sy_thread)
  have "reply_with fd r (sys_server ?s2) = (srv, nx)" using assms(2) by (simp add: record_then_propagate)
  then have "thread_step ?s2 (set_thread (Conn fd) (if nx = NextLine then Reading else NotOpen) (set_server srv s))"
    using th_reply [of ?s2 fd r srv nx] by (simp add: set_server_thread)
  then have 3: "sys_step ?s2 (set_thread (Conn fd) (if nx = NextLine then Reading else NotOpen) (set_server srv s))"
    by (rule sy_thread)
  from 1 2 3 show ?thesis by (meson converse_rtranclp_into_rtranclp r_into_rtranclp)
qed

lemma send_reply:
  assumes "sys_threads s (Conn fd) = ReplyDue r" and "reply_with fd r (sys_server s) = (srv, nx)"
  shows "sys_step s (set_thread (Conn fd) (if nx = NextLine then Reading else NotOpen) (set_server srv s))"
  using th_reply [OF assms] by (rule sy_thread)

lemma start_line:
  assumes "sys_threads s (Conn fd) = Reading" and "LF \<notin> set line"
  shows "sys_step s (set_thread (Conn fd) (begin_line line (sys_server s)) s)"
  using th_line [OF assms] by (rule sy_thread)

text \<open>A line that is answered without executing anything.\<close>

lemma reply_at_once:
  assumes "sys_threads s (Conn fd) = Reading" and "LF \<notin> set line"
    and "begin_line line (sys_server s) = ReplyDue r" and "reply_with fd r (sys_server s) = (srv, nx)"
  shows "sys_step\<^sup>*\<^sup>* s (set_thread (Conn fd) (if nx = NextLine then Reading else NotOpen) (set_server srv s))"
proof -
  let ?s1 = "set_thread (Conn fd) (ReplyDue r) s"
  have "sys_step s ?s1" using start_line [OF assms(1,2)] assms(3) by simp
  moreover have "sys_step ?s1 (set_thread (Conn fd) (if nx = NextLine then Reading else NotOpen) (set_server srv s))"
    using send_reply [of ?s1 fd r srv nx] assms(4) by (simp add: set_server_thread)
  ultimately show ?thesis by (meson converse_rtranclp_into_rtranclp r_into_rtranclp)
qed

lemma unparsed_request:
  assumes "sys_threads s (Conn fd) = Reading" and "LF \<notin> set line" and "line = [] \<or> parse line = Inl e"
    and "handle_line (sys_clock s) fd line (sys_server s) = (srv, nx)"
  shows "sys_step\<^sup>*\<^sup>* s (set_thread (Conn fd) (if nx = NextLine then Reading else NotOpen) (set_server srv s))"
proof (cases "line = []")
  case True
  then have "begin_line line (sys_server s) = Reading" "nx = NextLine" "srv = sys_server s"
    using assms(4) by (simp_all add: begin_line_def handle_line_def)
  with start_line [OF assms(1,2)] show ?thesis by (simp add: set_server_def r_into_rtranclp)
next
  case False
  then show ?thesis using assms
    by (cases e) (intro reply_at_once [of s fd line "Reply_error _"], simp_all add: begin_line_def handle_line_def)
qed

text \<open>Executing an admitted command, in one step or in the two of a snapshot.\<close>

lemma execute_admitted:
  assumes "sys_threads s (Conn fd) = Admitted cmd line" and "sys_threads s Link = Reading" and "sys_saver s = NoSaver"
    and "execute_on (sys_clock s) cmd (sys_server s) = (srv, r)"
  shows "sys_step\<^sup>*\<^sup>* s (set_thread (Conn fd) (Executed cmd line r) (set_server srv s))"
proof (cases "saves cmd (sys_server s)")
  case True
  let ?s1 = "(set_thread (Conn fd) (InSave cmd line) (set_server (snapshot_half (count_command (sys_server s))) s))\<lparr>sys_saver := SaveThread (Conn fd)\<rparr>"
  let ?s2 = "(set_thread (Conn fd) (Executed cmd line Reply_ok) (set_server (reset_half (sys_server ?s1)) ?s1))\<lparr>sys_saver := NoSaver\<rparr>"
  have 1: "sys_step s ?s1" using sv_command [OF assms(1) True assms(3)] by (rule sy_save)
  have 2: "sys_step ?s1 ?s2" by (rule sy_save [OF sv_reset]) (simp_all add: sys_updates)
  have "?s2 = set_thread (Conn fd) (Executed cmd line r) (set_server srv s)"
    using snapshot_then_reset [OF True assms(4)] assms(3) by (simp add: sys_updates)
  with 1 2 show ?thesis by (metis converse_rtranclp_into_rtranclp r_into_rtranclp)
next
  case False
  with th_execute [OF assms(1) False _ assms(4)] assms(2) show ?thesis by (blast intro: sy_thread r_into_rtranclp)
qed

lemma executed_request:
  assumes "sys_threads s (Conn fd) = Reading" and "LF \<notin> set line" and "sys_threads s Link = Reading" and "sys_saver s = NoSaver"
    and "begin_line line (sys_server s) = Admitted cmd line" and "execute_on (sys_clock s) cmd (sys_server s) = (srv1, r)"
    and "reply_with fd r (recordAndPropagateIfWrite cmd line r srv1) = (srv, nx)"
  shows "sys_step\<^sup>*\<^sup>* s (set_thread (Conn fd) (if nx = NextLine then Reading else NotOpen) (set_server srv s))"
proof -
  let ?s1 = "set_thread (Conn fd) (Admitted cmd line) s" and ?s2 = "set_thread (Conn fd) (Executed cmd line r) (set_server srv1 s)"
  have "sys_step\<^sup>*\<^sup>* s ?s1" using start_line [OF assms(1,2)] assms(5) by (simp add: r_into_rtranclp)
  also have "sys_step\<^sup>*\<^sup>* ?s1 ?s2"
    using execute_admitted [of ?s1 fd cmd line srv1 r] assms(3,4,6) by (simp add: set_server_thread) (simp add: set_thread_def)
  also have "sys_step\<^sup>*\<^sup>* ?s2 (set_thread (Conn fd) (if nx = NextLine then Reading else NotOpen) (set_server srv s))"
    using finish_request [of ?s2 fd cmd line r srv nx] assms(7) by (simp add: set_server_thread)
  finally show ?thesis .
qed

section \<open>Properties\<close>

text \<open>
  C8: whatever the threads do, the shared state stays consistent. From a server booted from any disk,
  in every state reachable by interleaving connection threads, the replica link, the sweeper, snapshots
  and flushes: list and index of the store agree, every live deadline has its heap entry, keys and
  values are single words, the role agrees with the link, the registry holds exactly the connections
  that are replica streams, once each, and no reply about to be written contains a line break.
\<close>

theorem threads_keep_server_consistent:
  assumes "sys_reachable \<lparr>svr_node = boot clk1 clk2 maxKeys c d, svr_socks = socks\<rparr> t s"
  shows "store_inv (store (svr_node (sys_server s))) \<and> heap_covers (expiry (svr_node (sys_server s))) \<and>
    clean_entries (store (svr_node (sys_server s))) \<and>
    (\<exists>rm. replication (svr_node (sys_server s)) = Some rm \<and> (role rm = REPLICA_ROLE \<longleftrightarrow> replicaLink rm \<noteq> None) \<and>
      distinct (replicaFds (registry rm)) \<and> (\<forall>fd. fd \<in> set (replicaFds (registry rm)) \<longleftrightarrow> streaming (sys_threads s (Conn fd)))) \<and>
    (\<forall>fd r. sys_threads s (Conn fd) = ReplyDue r \<longrightarrow> LF \<notin> set r)"
proof -
  have "sys_inv s"
    by (rule sys_reachable_inv [OF assms]) (simp_all add: booted_server_ok boot_booted_ok)
  then have ok: "server_ok (sys_server s)" and reg: "registry_ok s" and p: "\<forall>i. pending_ok (sys_threads s i)"
    by (simp_all add: sys_inv_def)
  obtain rm where rm: "replication (svr_node (sys_server s)) = Some rm" using ok by (auto simp: server_ok_def)
  have "role rm = REPLICA_ROLE \<longleftrightarrow> replicaLink rm \<noteq> None"
    using ok rm by (auto simp: server_ok_def node_inv_def replication_inv_def split: option.splits)
  moreover have "LF \<notin> set r" if "sys_threads s (Conn fd) = ReplyDue r" for fd r
    using p [THEN spec, of "Conn fd"] that by (simp add: pending_ok_def)
  ultimately show ?thesis using ok reg rm by (auto simp: server_ok_def node_inv_def registry_ok_def svr_registry_def)
qed

theorem threads_keep_server_consistent_witness:
  "let srv = \<lparr>svr_node = boot (\<lambda>i. 0) (\<lambda>i. 0) 2 default_PersistenceConfig empty_disk, svr_socks = \<lambda>fd. \<lparr>sk_rx = [], sk_tx = [], sk_out = []\<rparr>\<rparr>;
       s = set_thread (Conn 5) Reading (init_system srv 0)
   in store_inv (store (svr_node (sys_server s)))"
proof -
  let ?srv = "\<lparr>svr_node = boot (\<lambda>i. 0) (\<lambda>i. 0) 2 default_PersistenceConfig empty_disk, svr_socks = \<lambda>fd. \<lparr>sk_rx = [], sk_tx = [], sk_out = []\<rparr>\<rparr>"
  have "sys_reachable ?srv 0 (set_thread (Conn 5) Reading (init_system ?srv 0))"
    by (rule sys_reachable.sr_step [OF sys_reachable.sr_init sy_thread [OF th_open]]) (simp add: init_system_def)
  from threads_keep_server_consistent [OF this] show ?thesis by (simp add: Let_def)
qed

text \<open>
  The steps of a request, not interleaved with others, are the connection handler's function. A
  connection thread that runs a line by itself, with no snapshot under way and the replica link between
  two lines, takes the system exactly to the state the function computes for the line, with its
  reply written.
\<close>

theorem uninterrupted_request_is_handle_line:
  assumes "sys_threads s (Conn fd) = Reading" and "LF \<notin> set line" and "sys_threads s Link = Reading" and "sys_saver s = NoSaver"
    and "handle_line (sys_clock s) fd line (sys_server s) = (srv, nx)" and "nx \<noteq> ReplicaStream"
  shows "sys_step\<^sup>*\<^sup>* s (set_thread (Conn fd) (if nx = NextLine then Reading else NotOpen) (set_server srv s))"
proof (cases "line = [] \<or> (\<exists>e. parse line = Inl e)")
  case True
  then show ?thesis using unparsed_request [OF assms(1,2) _ assms(5)] by blast
next
  case False
  then obtain cmd where p: "parse line = Inr cmd" and ne: "line \<noteq> []" by (cases "parse line") auto
  obtain srv1 r where e: "execute_on (sys_clock s) cmd (sys_server s) = (srv1, r)" by fastforce
  have ns: "cmd_type cmd \<noteq> SYNC" using assms(5,6) p ne by (auto simp: handle_line_def)
  show ?thesis
  proof (cases "isWriteCommand (cmd_type cmd) \<and> svr_role (sys_server s) = REPLICA_ROLE")
    case True
    then show ?thesis using assms(5) p ne ns
      by (intro reply_at_once [OF assms(1,2), of Reply_readOnlyError]) (auto simp: begin_line_def handle_line_def)
  next
    case False
    then have "begin_line line (sys_server s) = Admitted cmd line"
      and "reply_with fd r (recordAndPropagateIfWrite cmd line r srv1) = (srv, nx)"
      using assms(5) p ne ns e by (auto simp: begin_line_def handle_line_def)
    then show ?thesis using executed_request [OF assms(1-4)] e by blast
  qed
qed

theorem uninterrupted_request_is_handle_line_witness:
  "let s = set_thread (Conn 5) Reading (init_system fresh_server 0)
   in sys_step\<^sup>*\<^sup>* s (set_thread (Conn 5) (if snd (handle_line 0 5 ''PING'' fresh_server) = NextLine then Reading else NotOpen)
        (set_server (fst (handle_line 0 5 ''PING'' fresh_server)) s))"
proof -
  let ?s = "set_thread (Conn 5) Reading (init_system fresh_server 0)"
  have p: "parse ''PING'' = Inr \<lparr>cmd_type = PING, cmd_name = ''PING'', cmd_args = []\<rparr>" by code_simp
  have "snd (handle_line 0 5 ''PING'' fresh_server) \<noteq> ReplicaStream"
    by (simp add: handle_line_def p reply_with_def split: prod.split)
  moreover have "handle_line (sys_clock ?s) 5 ''PING'' (sys_server ?s) =
      (fst (handle_line 0 5 ''PING'' fresh_server), snd (handle_line 0 5 ''PING'' fresh_server))"
    by (simp add: init_system_def set_thread_def)
  ultimately show ?thesis
    unfolding Let_def by (intro uninterrupted_request_is_handle_line) (simp_all add: init_system_def set_thread_def)
qed

end
