(* ===== verification/Server_Races.thy ===== *)
theory Server_Races
  imports Durability_Theorems
begin

text \<open>
  Interleavings of the server's threads. A connection handler executes a command and then records
  it, without a lock around the two; the sweeper forgets a deadline and then runs the expiry
  callback, without the manager's lock; a snapshot writes the file and then empties the log,
  without keeping writers out. Each theorem gives the schedule in which another thread runs in
  the gap, and what is left at its end.
\<close>

section \<open>A plain write, executed and recorded\<close>

abbreviation set_command :: "key \<Rightarrow> val \<Rightarrow> Command" where
  "set_command k v \<equiv> \<lparr>cmd_type = SET, cmd_name = ''SET'', cmd_args = [k, v]\<rparr>"

lemma execute_on_set:
  "execute_on now (set_command k v) s =
    (s\<lparr>svr_node := (svr_node s)\<lparr>totalCommands := totalCommands (svr_node s) + 1,
       store := kv_set (store (svr_node s)) k v, expiry := cancel (expiry (svr_node s)) k\<rparr>\<rparr>, Reply_ok)"
  by (simp add: execute_on_def execute_def Let_def exec_SET_def)

lemma executed_set:
  assumes "sound s" and "is_word k" and "is_word v" and "fits (k, v)"
    and "execute_on now (set_command k v) s = (s1, r)"
  shows "sound s1 \<and> live s1 = (live s)(k \<mapsto> v) \<and> logged s1 = logged s \<and> r = Reply_ok"
proof -
  let ?n = "svr_node s" and ?n1 = "svr_node s1"
  have n1: "?n1 = fst (execute now (set_command k v) ?n)"
    using assms(5) by (auto simp: execute_on_def split: prod.splits)
  have d: "data_ok ?n" and l: "log_ok ?n" using assms(1) by (simp_all add: sound_def)
  have c: "contents (store ?n1) = (contents (store ?n))(k \<mapsto> v)"
    using contents_execute [OF data_ok_store_inv [OF d], of now "set_command k v"] d
    by (simp add: n1 data_ok_def content_step_SET)
  moreover have "storable ((contents (store ?n))(k \<mapsto> v))"
    using d assms(2-4) by (intro storable_upd) (simp_all add: data_ok_def)
  ultimately have "data_ok ?n1"
    using d execute_node_inv execute_capacity by (simp add: n1 data_ok_def)
  moreover have "log_ok ?n1" "log_map ?n1 = log_map ?n"
    using log_unaffected [of ?n1 ?n] execute_keeps_files [of "set_command k v" now ?n] l by (simp_all add: n1)
  ultimately show ?thesis
    using c assms(5) by (simp add: sound_def live_def logged_def execute_on_set)
qed

lemma recorded_set:
  assumes "sound s" and "is_word k" and "is_word v" and "fits (k, v)"
    and "s' = recordAndPropagateIfWrite (set_command k v) (snapshot_line k v) Reply_ok s"
  shows "sound s' \<and> live s' = live s \<and> logged s' = (logged s)(k \<mapsto> v)"
proof -
  note p = parse_snapshot_line [OF assms(2-4)]
  have l: "log_ok (svr_node s)" using assms(1) by (simp add: sound_def)
  then obtain pm where pm: "persistence (svr_node s) = Some pm" by (auto simp: log_ok_def split: option.splits)
  have lf: "LF \<notin> set (snapshot_line k v)"
    using word_no_LF [OF assms(2)] word_no_LF [OF assms(3)] by (simp add: snapshot_line_def)
  have w: "write_line (snapshot_line k v)" by (simp add: write_line_def p)
  have n': "svr_node s' = (svr_node s)\<lparr>persistence := Some (recordWrite pm (snapshot_line k v))\<rparr>"
    by (simp add: assms(5) record_node pm reply_first_byte(1) [THEN conjunct1])
  show ?thesis
    using recordWrite_log [OF l pm lf w] assms(1)
    by (simp add: sound_def live_def logged_def n' p content_step_SET)
qed

section \<open>Properties\<close>

text \<open>
  Two clients that set the same key at the same time may be recorded in the other order than
  they were executed. Both are acknowledged; the data then holds the value of the second, the log
  that of the first, and the next restart goes back to it.
\<close>

theorem writes_logged_out_of_order:
  assumes "sound s" and "is_word k" and "is_word a" and "is_word b" and "fits (k, a)" and "fits (k, b)"
  shows "let (s1, rA) = execute_on t1 (set_command k a) s;
             (s2, rB) = execute_on t2 (set_command k b) s1;
             s3 = recordAndPropagateIfWrite (set_command k b) (snapshot_line k b) rB s2;
             s4 = recordAndPropagateIfWrite (set_command k a) (snapshot_line k a) rA s3
         in rA = Reply_ok \<and> rB = Reply_ok \<and> live s4 k = Some b \<and> logged s4 k = Some a"
proof -
  obtain s1 rA where e1: "execute_on t1 (set_command k a) s = (s1, rA)" by fastforce
  note x1 = executed_set [OF assms(1,2,3,5) e1]
  obtain s2 rB where e2: "execute_on t2 (set_command k b) s1 = (s2, rB)" by fastforce
  note x2 = executed_set [OF x1 [THEN conjunct1] assms(2,4,6) e2]
  note x3 = recorded_set [OF x2 [THEN conjunct1] assms(2,4,6) refl]
  note x4 = recorded_set [OF x3 [THEN conjunct1] assms(2,3,5) refl]
  show ?thesis using x1 x2 x3 x4 by (simp add: e1 e2)
qed

theorem writes_logged_out_of_order_witness:
  "let (s1, rA) = execute_on 1 (set_command ''k'' ''a'') fresh_server;
       (s2, rB) = execute_on 2 (set_command ''k'' ''b'') s1;
       s3 = recordAndPropagateIfWrite (set_command ''k'' ''b'') (snapshot_line ''k'' ''b'') rB s2;
       s4 = recordAndPropagateIfWrite (set_command ''k'' ''a'') (snapshot_line ''k'' ''a'') rA s3
   in rA = Reply_ok \<and> rB = Reply_ok \<and> live s4 ''k'' = Some ''b'' \<and> logged s4 ''k'' = Some ''a''"
  by (rule writes_logged_out_of_order)
    (simp_all add: fresh_server_sound is_word_def isspace_def char_code_def fits_def kMaxLineLength_def)

text \<open>
  The sweeper may delete a value it has nothing to do with. Once it has taken a due deadline
  off its map and before its callback runs, a client may set the key anew, without an expiry, and
  be told that this succeeded; the callback then deletes the new value.
\<close>

theorem expiry_callback_deletes_new_value:
  assumes "sound s" and "is_word k" and "is_word v" and "fits (k, v)"
    and "sweep_step now (expiry (svr_node s), Waiting d) (m', Firing k)"
  shows "let s1 = s\<lparr>svr_node := (svr_node s)\<lparr>expiry := m'\<rparr>\<rparr>;
             (s2, r) = execute_on t (set_command k v) s1;
             s3 = on_expire k s2
         in r = Reply_ok \<and> live s2 k = Some v \<and> expiryOf (expiry (svr_node s2)) k = None \<and> live s3 k = None"
proof -
  let ?s1 = "s\<lparr>svr_node := (svr_node s)\<lparr>expiry := m'\<rparr>\<rparr>"
  have "heap_covers m'"
    using sweep_step_heap_covers [OF assms(5)] assms(1) by (simp add: sound_def data_ok_def node_inv_def)
  then have s1: "sound ?s1"
    using assms(1) log_unaffected [of "svr_node ?s1" "svr_node s"] by (simp add: sound_def data_ok_def node_inv_def)
  obtain s2 r where e: "execute_on t (set_command k v) ?s1 = (s2, r)" by fastforce
  note x = executed_set [OF s1 assms(2-4) e]
  have "expiryOf (expiry (svr_node s2)) k = None"
    using e by (auto simp: execute_on_set expiry_simps)
  then show ?thesis
    using x expire_effect [of s2 k] by (simp add: e)
qed

theorem expiry_callback_deletes_new_value_witness:
  "let s = fresh_server\<lparr>svr_node := (svr_node fresh_server)\<lparr>expiry := schedule new_ExpiryManager ''k'' 5\<rparr>\<rparr>;
       s1 = s\<lparr>svr_node := (svr_node s)\<lparr>expiry := (schedule new_ExpiryManager ''k'' 5)
              \<lparr>exp_heap := {#}, exp_current := Mapping.delete ''k'' (exp_current (schedule new_ExpiryManager ''k'' 5))\<rparr>\<rparr>\<rparr>;
       (s2, r) = execute_on 11 (set_command ''k'' ''v'') s1;
       s3 = on_expire ''k'' s2
   in r = Reply_ok \<and> live s2 ''k'' = Some ''v'' \<and> expiryOf (expiry (svr_node s2)) ''k'' = None \<and> live s3 ''k'' = None"
proof -
  let ?m = "schedule new_ExpiryManager ''k'' 5"
  let ?m' = "?m\<lparr>exp_heap := {#}, exp_current := Mapping.delete ''k'' (exp_current ?m)\<rparr>"
  let ?s = "fresh_server\<lparr>svr_node := (svr_node fresh_server)\<lparr>expiry := ?m\<rparr>\<rparr>"
  have h: "exp_heap ?m = {#(5, ''k'')#}" "Mapping.lookup (exp_current ?m) ''k'' = Some 5"
    by (simp_all add: schedule_def new_ExpiryManager_def lookup_update_if)
  have "sweep_step 10 (?m, Waiting 5)
      (?m\<lparr>exp_heap := exp_heap ?m - {#(5, ''k'')#}, exp_current := Mapping.delete ''k'' (exp_current ?m)\<rparr>, Firing ''k'')"
    by (rule sw_timeout_live) (simp_all add: h is_top_def)
  then have sw: "sweep_step 10 (expiry (svr_node ?s), Waiting 5) (?m', Firing ''k'')" by (simp add: h)
  have so: "sound ?s"
    using fresh_server_sound(1) log_unaffected [of "svr_node ?s" "svr_node fresh_server"]
    by (simp add: sound_def data_ok_def node_inv_def heap_covers_schedule)
  have w: "is_word ''k''" "is_word ''v''" "fits (''k'', ''v'')"
    by (simp_all add: is_word_def isspace_def char_code_def fits_def kMaxLineLength_def)
  from expiry_callback_deletes_new_value [OF so w sw, of 11] show ?thesis unfolding Let_def .
qed

text \<open>
  A write that is executed and recorded between the two halves of a snapshot is lost: the
  snapshot was taken before it, and the log entry is thrown away with the rest of the log.
\<close>

theorem write_during_save_is_lost:
  assumes "can_open d (snapshotPath (pm_config pm))" and "can_open d (aof_path (pm_aof pm))"
    and "aof_path (pm_aof pm) \<noteq> snapshotPath (pm_config pm)"
  shows "let d1 = fst (saveToFile d (snapshotPath (pm_config pm)) s);
             pm1 = recordWrite pm line;
             (d2, w2) = aof_reset (d1, pm_aof pm1)
         in file_bytes d2 (snapshotPath (pm_config pm)) = SnapshotManager_save [] s \<and>
            aof_logical (d2, w2) = []"
  using assms
  by (auto simp: saveToFile_def recordWrite_def aof_append_def aof_reset_def aof_flush_def aof_logical_def
      disk_simps Let_def)

theorem write_during_save_is_lost_witness:
  "let c = default_PersistenceConfig; pm = snd (new_PersistenceManager empty_disk c);
       d1 = fst (saveToFile empty_disk (snapshotPath (pm_config pm)) (new_KVStore 0));
       pm1 = recordWrite pm ''SET k v'';
       (d2, w2) = aof_reset (d1, pm_aof pm1)
   in file_bytes d2 (snapshotPath (pm_config pm)) = SnapshotManager_save [] (new_KVStore 0) \<and>
      aof_logical (d2, w2) = []"
  unfolding Let_def
  using write_during_save_is_lost [of empty_disk "snd (new_PersistenceManager empty_disk default_PersistenceConfig)"
      "new_KVStore 0" "''SET k v''", unfolded Let_def]
  by (simp add: new_PersistenceManager_def new_AofWriter_def empty_disk_def default_PersistenceConfig_def
      aofPath_def snapshotPath_def)

end
