(* ===== verification/Threads_Durability.thy ===== *)
theory Threads_Durability
  imports Server_Threads Server_Races
begin

text \<open>
  Durability under interleaving. The data and the log of a server disagree only on keys whose last
  write has been executed and not yet recorded; as long as no two threads are between executing and
  recording a write of the same key and no snapshot is under way, the log catches up, and a restart
  restores the data. What \<open>agree\<close> means is a parameter: equality where nothing expires, and otherwise, if no
  counters are used, that the log knows every value there is. The steps are proved once, in a locale for
  both. (Where the conditions fail, the theory of races shows how log and data part.)
\<close>

section \<open>Pending writes\<close>

definition pending :: "thread_pos \<Rightarrow> Command option" where
  "pending p = (case p of Executed cmd line r \<Rightarrow> if must_record cmd r then Some cmd else None | _ \<Rightarrow> None)"

definition safe_pos :: "thread_pos \<Rightarrow> bool" where
  "safe_pos p = (case p of Executed cmd line r \<Rightarrow> safe_line line | _ \<Rightarrow> True)"

text \<open>
  States in which the pending writes are of commands in \<open>usable\<close> and of different keys, no snapshot is under
  way, and, unless \<open>expiring\<close>, no expiry callback runs.
\<close>

definition orderly :: "(Command \<Rightarrow> bool) \<Rightarrow> bool \<Rightarrow> system \<Rightarrow> bool" where
  "orderly usable expiring s \<longleftrightarrow> sys_saver s = NoSaver \<and> (expiring \<or> (\<forall>k. sys_sweeper s \<noteq> Firing k)) \<and>
     (\<forall>i. safe_pos (sys_threads s i)) \<and> (\<forall>i c. pending (sys_threads s i) = Some c \<longrightarrow> usable c) \<and>
     (\<forall>i j c c'. pending (sys_threads s i) = Some c \<longrightarrow> pending (sys_threads s j) = Some c' \<longrightarrow> i \<noteq> j \<longrightarrow> cmd_key c \<noteq> cmd_key c')"

inductive orderly_run :: "(Command \<Rightarrow> bool) \<Rightarrow> bool \<Rightarrow> system \<Rightarrow> system \<Rightarrow> bool" for usable expiring where
  or_refl: "orderly usable expiring s \<Longrightarrow> orderly_run usable expiring s s"
| or_step: "orderly_run usable expiring s s' \<Longrightarrow> sys_step s' s'' \<Longrightarrow> orderly usable expiring s'' \<Longrightarrow>
    orderly_run usable expiring s s''"

text \<open>Data and log agree but for pending writes.\<close>

definition behind :: "(val option \<Rightarrow> val option \<Rightarrow> bool) \<Rightarrow> system \<Rightarrow> bool" where
  "behind agrees s \<longleftrightarrow> sound (sys_server s) \<and>
     (\<forall>k. (\<forall>i c. pending (sys_threads s i) = Some c \<longrightarrow> cmd_key c \<noteq> k) \<longrightarrow>
        agrees (live (sys_server s) k) (logged (sys_server s) k)) \<and>
     (\<forall>i c. pending (sys_threads s i) = Some c \<longrightarrow>
        agrees (live (sys_server s) (cmd_key c)) (content_step c (logged (sys_server s)) (cmd_key c)))"

lemma behindI:
  assumes "sound (sys_server s)"
    and "\<And>k. (\<And>i c. pending (sys_threads s i) = Some c \<Longrightarrow> cmd_key c \<noteq> k) \<Longrightarrow> agrees (live (sys_server s) k) (logged (sys_server s) k)"
    and "\<And>i c. pending (sys_threads s i) = Some c \<Longrightarrow>
      agrees (live (sys_server s) (cmd_key c)) (content_step c (logged (sys_server s)) (cmd_key c))"
  shows "behind agrees s"
  using assms unfolding behind_def by blast

lemma behindD:
  assumes "behind agrees s"
  shows "sound (sys_server s)"
    and "(\<And>i c. pending (sys_threads s i) = Some c \<Longrightarrow> cmd_key c \<noteq> k) \<Longrightarrow> agrees (live (sys_server s) k) (logged (sys_server s) k)"
    and "pending (sys_threads s i) = Some c \<Longrightarrow>
      agrees (live (sys_server s) (cmd_key c)) (content_step c (logged (sys_server s)) (cmd_key c))"
  using assms unfolding behind_def by blast+

text \<open>A step that leaves data, log and pending writes alone.\<close>

lemma behind_same:
  assumes "behind agrees s" and "sound srv" and "live srv = live (sys_server s)" and "logged srv = logged (sys_server s)"
    and "sys_server s' = srv" and "\<And>i. pending (sys_threads s' i) = pending (sys_threads s i)"
  shows "behind agrees s'"
  using assms by (simp add: behind_def)

lemma behind_set:
  assumes "behind agrees s" and "sound srv" and "live srv = live (sys_server s)" and "logged srv = logged (sys_server s)"
    and "pending p = pending (sys_threads s i)"
  shows "behind agrees (set_thread i p (set_server srv s))"
  using assms by (intro behind_same [OF assms(1-4)]) simp_all

lemma behind_position: "behind agrees s \<Longrightarrow> pending p = pending (sys_threads s i) \<Longrightarrow> behind agrees (set_thread i p s)"
  using behind_set [of agrees s "sys_server s"] behindD(1) [of agrees s] by (simp add: set_server_def)

lemma execute_data_log:
  assumes "sound s" and "parse line = Inr cmd" and "safe_line line" and "\<not> saves cmd s" and "execute_on now cmd s = (s1, r)"
  shows "sound s1" and "logged s1 = logged s" and "live s1 = content_step cmd (live s)"
    and "\<not> must_record cmd r \<Longrightarrow> live s1 = live s"
proof -
  have d: "data_ok (svr_node s)" and lo: "log_ok (svr_node s)" using assms(1) by (simp_all add: sound_def)
  have n: "svr_node s1 = fst (execute now cmd (svr_node s))" "r = snd (execute now cmd (svr_node s))" "r \<noteq> []"
    using execute_on_node [OF assms(5)] by blast+
  have files: "persistence (svr_node s1) = persistence (svr_node s) \<and> node_disk (svr_node s1) = node_disk (svr_node s)"
  proof (cases "cmd_type cmd = SAVE")
    case True
    moreover have "persistence (svr_node s) \<noteq> None" using lo by (cases "persistence (svr_node s)") (simp_all add: log_ok_def)
    ultimately have "cmd_args cmd \<noteq> []" using assms(4) by (auto simp: saves_def)
    then show ?thesis using True by (simp add: n(1) execute_def exec_SAVE_def Let_def)
  qed (simp add: n(1) execute_keeps_files)
  show l: "live s1 = content_step cmd (live s)" and so: "sound s1"
    using execute_data_ok [OF d assms(2)] assms(3) files log_unaffected [of "svr_node s1" "svr_node s"] lo
    by (simp_all add: live_def n(1) safe_line_def sound_def)
  show "logged s1 = logged s" using files log_unaffected(2) [of "svr_node s1" "svr_node s"] by (simp add: logged_def)
  show "live s1 = live s" if "\<not> must_record cmd r"
  proof (cases "isWriteCommand (cmd_type cmd)")
    case True
    then have "is_error_reply r" using that n(3) by (auto simp: must_record_def is_error_reply_def)
    then show ?thesis using execute_error_no_effect [of now cmd "svr_node s"] n by (simp add: live_def)
  next
    case False
    then show ?thesis using l content_step_read by simp
  qed
qed

lemma record_part_log:
  assumes "sound s" and "parse line = Inr cmd" and "LF \<notin> set line"
  shows "sound (record_part cmd line r s)" and "live (record_part cmd line r s) = live s"
    and "logged (record_part cmd line r s) = (if must_record cmd r then content_step cmd (logged s) else logged s)"
proof -
  obtain pm where pm: "persistence (svr_node s) = Some pm" using assms(1) by (auto simp: sound_def log_ok_def split: option.splits)
  have lo: "log_ok (svr_node s)" using assms(1) by (simp add: sound_def)
  have "write_line line" if "must_record cmd r" using assms(2) that by (simp add: write_line_def must_record_def)
  with recordWrite_log [OF lo pm assms(3)] pm assms(1,2)
  show "sound (record_part cmd line r s)" and "live (record_part cmd line r s) = live s"
    and "logged (record_part cmd line r s) = (if must_record cmd r then content_step cmd (logged s) else logged s)"
    by (auto simp: record_part_def sound_def live_def logged_def)
qed

lemma map_registry_sound [simp]:
  "sound (map_registry f s) = sound s" "live (map_registry f s) = live s" "logged (map_registry f s) = logged s"
proof -
  have f: "persistence (svr_node (map_registry f s)) = persistence (svr_node s)" "node_disk (svr_node (map_registry f s)) = node_disk (svr_node s)"
    by (simp_all add: map_registry_def)
  show "sound (map_registry f s) = sound s" "live (map_registry f s) = live s" "logged (map_registry f s) = logged s"
    using log_unaffected [OF f] by (simp_all add: sound_def data_ok_def live_def logged_def)
qed

lemma node_only_sound:
  assumes "svr_node s' = svr_node s"
  shows "sound s' = sound s" "live s' = live s" "logged s' = logged s"
  using assms by (simp_all add: sound_def live_def logged_def)

lemma sync_sound [simp]:
  "sound (sync_register fd s) = sound s" "live (sync_register fd s) = live s" "logged (sync_register fd s) = logged s"
  "sound (fst (sync_dump fd s)) = sound s" "live (fst (sync_dump fd s)) = live s" "logged (fst (sync_dump fd s)) = logged s"
  "sound (sync_watch fd s) = sound s" "live (sync_watch fd s) = live s" "logged (sync_watch fd s) = logged s"
  by (simp_all add: sync_register_def sync_dump_def sync_watch_def set_rx_def Let_def
      node_only_sound [of "s\<lparr>svr_socks := _\<rparr>" s] split: prod.split)

lemma begin_line_pending: "pending (begin_line line s) = None"
  by (auto simp: begin_line_def pending_def split: sum.split ProtocolError.split)

lemma flush_spill_sound:
  assumes "sound s"
  shows "sound (background FlushTask s)" "live (background FlushTask s) = live s" "logged (background FlushTask s) = logged s"
    and "sound (spill_log k s)" "live (spill_log k s) = live s" "logged (spill_log k s) = logged s"
proof -
  obtain pm where p: "persistence (svr_node s) = Some pm" using assms by (auto simp: sound_def log_ok_def split: option.splits)
  have d: "data_ok (svr_node s)" and lo: "log_ok (svr_node s)" using assms by (simp_all add: sound_def)
  show "sound (background FlushTask s)" "live (background FlushTask s) = live s" "logged (background FlushTask s) = logged s"
    using flushed_disk(1-3) [OF assms refl refl] by simp_all
  obtain d' w' where f: "aof_spill k (node_disk (svr_node s), pm_aof pm) = (d', w')" by fastforce
  show "sound (spill_log k s)" "live (spill_log k s) = live s" "logged (spill_log k s) = logged s"
    using spill_flush_log [OF lo p, of d' w' k] f d p by (simp_all add: sound_def live_def logged_def spill_log_def)
qed

section \<open>A log that lags behind\<close>

context lagging_log
begin

text \<open>Executing a write of a key nobody else is writing.\<close>

lemma behind_execute:
  assumes "behind agrees s" and "sys_threads s i = Admitted cmd line" and "parse line = Inr cmd" and "safe_line line"
    and "\<not> saves cmd (sys_server s)" and "execute_on now cmd (sys_server s) = (srv, r)"
    and "orderly usable expiring (set_thread i (Executed cmd line r) (set_server srv s))"
  shows "behind agrees (set_thread i (Executed cmd line r) (set_server srv s))"
proof -
  let ?s' = "set_thread i (Executed cmd line r) (set_server srv s)"
  have so: "sound (sys_server s)" using assms(1) by (simp add: behind_def)
  note x = execute_data_log [OF so assms(3,4,5,6)]
  have p: "pending (sys_threads s i) = None" by (simp add: assms(2) pending_def)
  show ?thesis
  proof (cases "must_record cmd r")
    case False
    have "pending (sys_threads ?s' j) = pending (sys_threads s j)" for j using False p by (simp add: pending_def)
    with behind_same [OF assms(1) x(1) x(4) [OF False] x(2), of ?s'] show ?thesis by simp
  next
    case True
    have pj: "pending (sys_threads ?s' j) = (if j = i then Some cmd else pending (sys_threads s j))" for j
      using True by (simp add: pending_def)
    have free: "cmd_key c \<noteq> cmd_key cmd" if "pending (sys_threads s j) = Some c" for j c
      using assms(7) that pj p unfolding orderly_def by (metis option.distinct(1))
    have "agrees (live (sys_server s) (cmd_key cmd)) (logged (sys_server s) (cmd_key cmd))"
      using behindD(2) [OF assms(1)] free by blast
    moreover have "pending (sys_threads ?s' j) = Some c \<Longrightarrow> usable c" for j c using assms(7) unfolding orderly_def by blast
    then have "usable cmd" using pj [of i] by metis
    ultimately have key: "agrees (live srv (cmd_key cmd)) (content_step cmd (logged srv) (cmd_key cmd))"
      unfolding x(2,3) by (intro follows)
    have other: "live srv k = live (sys_server s) k" if "k \<noteq> cmd_key cmd" for k
      unfolding x(3) using that by (rule content_step_other)
    show ?thesis
    proof (rule behindI)
      fix k
      assume k: "\<And>j c. pending (sys_threads ?s' j) = Some c \<Longrightarrow> cmd_key c \<noteq> k"
      have "k \<noteq> cmd_key cmd" using k [of i cmd] pj [of i] by force
      moreover have "cmd_key c \<noteq> k" if "pending (sys_threads s j) = Some c" for j c
        using k [of j c] that pj [of j] p by (cases "j = i") auto
      ultimately show "agrees (live (sys_server ?s') k) (logged (sys_server ?s') k)"
        using behindD(2) [OF assms(1)] other x(2) by simp
    next
      fix j c
      assume "pending (sys_threads ?s' j) = Some c"
      then show "agrees (live (sys_server ?s') (cmd_key c)) (content_step c (logged (sys_server ?s')) (cmd_key c))"
        using key other free behindD(3) [OF assms(1), of j c] x(2) pj [of j] by (auto split: if_splits)
    qed (simp add: x(1))
  qed
qed

text \<open>Recording it.\<close>

lemma behind_record:
  assumes "behind agrees s" and "orderly usable expiring s" and "sys_threads s i = Executed cmd line r" and "pending_ok (sys_threads s i)"
  shows "behind agrees (set_thread i (Recorded cmd line r) (set_server (record_part cmd line r (sys_server s)) s))"
proof -
  let ?srv = "record_part cmd line r (sys_server s)"
  let ?s' = "set_thread i (Recorded cmd line r) (set_server ?srv s)"
  have so: "sound (sys_server s)" using assms(1) by (simp add: behind_def)
  have l: "parse line = Inr cmd" "LF \<notin> set line" using assms(3,4) by (simp_all add: pending_ok_def)
  note x = record_part_log [OF so l, of r]
  have pj: "pending (sys_threads ?s' j) = (if j = i then None else pending (sys_threads s j))" for j by (simp add: pending_def)
  show ?thesis
  proof (cases "must_record cmd r")
    case False
    then have "pending (sys_threads s i) = None" using assms(3) by (simp add: pending_def)
    with assms(1) x False pj show ?thesis by (intro behind_same [OF assms(1) x(1,2)]) (simp_all add: pending_def)
  next
    case True
    then have pi: "pending (sys_threads s i) = Some cmd" using assms(3) by (simp add: pending_def)
    have lg: "logged ?srv k = logged (sys_server s) k" if "k \<noteq> cmd_key cmd" for k
      using True x(3) content_step_other [OF that] by simp
    have key: "agrees (live (sys_server s) (cmd_key cmd)) (logged ?srv (cmd_key cmd))"
      using behindD(3) [OF assms(1) pi] True x(3) by simp
    have other: "cmd_key c \<noteq> cmd_key cmd" if "pending (sys_threads s j) = Some c" "j \<noteq> i" for j c
      using assms(2) that pi unfolding orderly_def by blast
    show ?thesis
    proof (rule behindI)
      fix k
      assume k: "\<And>j c. pending (sys_threads ?s' j) = Some c \<Longrightarrow> cmd_key c \<noteq> k"
      have "cmd_key c \<noteq> k" if "pending (sys_threads s j) = Some c" "k \<noteq> cmd_key cmd" for j c
        using that pi k [of j c] pj [of j] by (cases "j = i") auto
      then show "agrees (live (sys_server ?s') k) (logged (sys_server ?s') k)"
        using behindD(2) [OF assms(1), of k] lg [of k] key x(2) by (cases "k = cmd_key cmd") auto
    next
      fix j c
      assume j: "pending (sys_threads ?s' j) = Some c"
      then have "j \<noteq> i" "pending (sys_threads s j) = Some c" using pj [of j] by (auto split: if_splits)
      then have "content_step c (logged ?srv) (cmd_key c) = content_step c (logged (sys_server s)) (cmd_key c)"
        using other lg by (intro content_step_local) simp
      with behindD(3) [OF assms(1) \<open>pending (sys_threads s j) = Some c\<close>] x(2)
      show "agrees (live (sys_server ?s') (cmd_key c)) (content_step c (logged (sys_server ?s')) (cmd_key c))" by simp
    qed (simp add: x(1))
  qed
qed

section \<open>Every step of an orderly run\<close>

lemma behind_thread:
  assumes "thread_step s s'" and "behind agrees s" and "sys_inv s" and "orderly usable expiring s" and "orderly usable expiring s'"
  shows "behind agrees s'"
  using assms
proof (induction rule: thread_step.induct)
  case (th_line s fd line)
  then show ?case by (intro behind_same [OF th_line(3)]) (simp_all add: behindD(1) begin_line_pending, simp add: pending_def)
next
  case (th_apply s line cmd)
  then show ?case by (intro behind_same [OF th_apply(5)]) (simp_all add: behindD(1) pending_def)
next
  case (th_execute s i cmd line srv response)
  have "pending_ok (Admitted cmd line)" using th_execute(1,6) by (metis sys_inv_def)
  then have p: "parse line = Inr cmd" by (simp add: pending_ok_def)
  have "safe_pos (Executed cmd line response)" using th_execute(8) by (simp add: orderly_def) (metis fun_upd_same)
  then have "safe_line line" by (simp add: safe_pos_def)
  from behind_execute [OF th_execute(5,1) p this th_execute(2,4,8)] show ?case .
next
  case (th_record s i cmd line response)
  have "pending_ok (sys_threads s i)" using th_record(3) by (simp add: sys_inv_def)
  from behind_record [OF th_record(2,4,1) this] show ?case .
next
  case (th_propagate s i cmd line response)
  then show ?case
    by (intro behind_same [OF th_propagate(2)])
      (simp_all add: behindD(1) node_only_sound [of "propagate_part cmd line response (sys_server s)" "sys_server s"] pending_def)
next
  case (th_reply s fd response srv nx)
  have "svr_node srv = svr_node (sys_server s)" using reply_with_node [of fd response "sys_server s"] th_reply(2) by simp
  with th_reply(1) behindD(1) [OF th_reply(3)] show ?case
    by (intro behind_same [OF th_reply(3), of srv]) (simp_all add: node_only_sound [of srv "sys_server s"] pending_def)
next
  case (th_dump s fd srv ok)
  have "sound srv = sound (sys_server s)" "live srv = live (sys_server s)" "logged srv = logged (sys_server s)"
    using sync_sound(4,5,6) [of fd "sys_server s"] unfolding th_dump(2) by simp_all
  with th_dump(1) behindD(1) [OF th_dump(3)] show ?case
    by (intro behind_same [OF th_dump(3), of srv]) (simp_all add: pending_def)
qed (simp_all add: behind_position behind_set behindD(1) pending_def)

lemma behind_other:
  assumes "other_step s s'" and "behind agrees s" and "sys_inv s'" and "orderly usable expiring s"
  shows "behind agrees s'"
  using assms
proof (induction rule: other_step.induct)
  case (ot_sweep s m w)
  have so: "sound (sys_server s)" using behindD(1) [OF ot_sweep(3)] .
  have "node_inv (svr_node (put_expiry m (sys_server s)))" using ot_sweep(4) by (simp add: sys_inv_def server_ok_def set_server_def)
  then have "sound (put_expiry m (sys_server s))"
    using so log_unaffected [of "svr_node (put_expiry m (sys_server s))" "svr_node (sys_server s)"]
    by (simp add: sound_def data_ok_def put_expiry_def)
  moreover have "live (put_expiry m (sys_server s)) = live (sys_server s)" "logged (put_expiry m (sys_server s)) = logged (sys_server s)"
    using log_unaffected(2) [of "svr_node (put_expiry m (sys_server s))" "svr_node (sys_server s)"]
    by (simp_all add: live_def logged_def put_expiry_def)
  ultimately show ?case by (intro behind_same [OF ot_sweep(3)]) (simp_all add: set_server_def)
next
  case (ot_expired s k)
  then have "expiring" by (auto simp: orderly_def)
  note x = expire_effect [OF behindD(1) [OF ot_expired(2)], of k]
  have "agrees (live (on_expire k (sys_server s)) j) y" if "agrees (live (sys_server s) j) y" for j y
    using that vanished [OF \<open>expiring\<close>] x by simp
  with x behindD(2,3) [OF ot_expired(2)] show ?case by (intro behindI) simp_all
next
  case (ot_flush s)
  then show ?case
    using flush_spill_sound(1-3) [OF behindD(1) [OF ot_flush(1)]] by (intro behind_same [OF ot_flush(1)]) simp_all
next
  case (ot_spill s k)
  then show ?case
    using flush_spill_sound(4-6) [OF behindD(1) [OF ot_spill(1)]] by (intro behind_same [OF ot_spill(1)]) simp_all
next
  case (ot_time s t)
  then show ?case by (intro behind_same [OF ot_time(2)]) (simp_all add: behindD(1))
qed

lemma orderly_run_behind:
  assumes "orderly_run usable expiring s s'" and "behind agrees s" and "sys_inv s"
  shows "behind agrees s' \<and> sys_inv s' \<and> orderly usable expiring s'"
  using assms
proof (induction rule: orderly_run.induct)
  case (or_step s s1 s2)
  then have i: "behind agrees s1" "sys_inv s1" "orderly usable expiring s1" by simp_all
  have i2: "sys_inv s2" using sys_inv_step [OF or_step(2) i(2)] .
  from or_step(2) have "behind agrees s2"
  proof cases
    case sy_thread
    then show ?thesis using behind_thread i or_step(3) by blast
  next
    case sy_save
    then show ?thesis using i(3) or_step(3) by (induction rule: save_step.induct) (simp_all add: orderly_def)
  next
    case sy_other
    then show ?thesis using behind_other i i2 by blast
  qed
  with i2 or_step(3) show ?case by simp
qed simp

end

lemma sound_server_ok:
  assumes "sound srv" and "replication (svr_node srv) \<noteq> None"
  shows "server_ok srv"
  using assms storable_entries(1) [of "store (svr_node srv)"] data_ok_store_inv [of "svr_node srv"]
  by (auto simp: server_ok_def sound_def data_ok_def)

lemma init_behind:
  assumes "sound srv" and "\<And>k. agrees (live srv k) (logged srv k)"
  shows "behind agrees (init_system srv t)"
  using assms by (intro behindI) (simp_all add: init_system_def pending_def split: if_splits)

lemma init_inv:
  assumes "sound srv" and "replication (svr_node srv) \<noteq> None" and "replicaFds (svr_registry srv) = []"
  shows "sys_inv (init_system srv t)"
  using sys_reachable_inv [OF sys_reachable.sr_init sound_server_ok [OF assms(1,2)] assms(3)] .

section \<open>Properties\<close>

text \<open>
  C11: concurrent writers of different keys lose nothing. Take a server whose log agrees with its data,
  and any interleaving of its threads in which no two are between executing and recording a write of
  the same key, no snapshot is under way and no expiry callback runs. Once every write executed has
  been recorded and the log is flushed, a new process recovers exactly the data from the disk.
\<close>

theorem disjoint_writers_survive_restart:
  assumes "sound srv" and "live srv = logged srv" and "replication (svr_node srv) \<noteq> None" and "replicaFds (svr_registry srv) = []"
    and "orderly_run (\<lambda>cmd. True) False (init_system srv t) s" and "\<forall>i. pending (sys_threads s i) = None"
  shows "let s' = sys_server s
         in contents (store (boot clk1 clk2 0 (svr_config s') (node_disk (svr_node (background FlushTask s'))))) = live s'"
proof -
  have b: "behind (=) s"
    using exact_log.orderly_run_behind [OF assms(5) init_behind [OF assms(1)] init_inv [OF assms(1,3,4)]] assms(2) by simp
  have lv: "live (sys_server s) = logged (sys_server s)" using behindD(2) [OF b] assms(6) by (intro ext) simp
  show ?thesis unfolding Let_def by (rule flushed_boot [OF behindD(1) [OF b] lv])
qed

text \<open>
  C12: the same with expiring keys. While keys expire and clients write different keys, without counter
  commands and snapshots, no interleaving loses an acknowledged value that is still there: once every write
  executed has been recorded and the log is flushed, a new process finds every live key with its value.
\<close>

theorem expiring_writers_survive_restart:
  assumes "sound srv" and "live srv \<subseteq>\<^sub>m logged srv" and "replication (svr_node srv) \<noteq> None" and "replicaFds (svr_registry srv) = []"
    and "orderly_run no_counter True (init_system srv t) s" and "\<forall>i. pending (sys_threads s i) = None"
  shows "let s' = sys_server s
         in live s' \<subseteq>\<^sub>m contents (store (boot clk1 clk2 0 (svr_config s') (node_disk (svr_node (background FlushTask s')))))"
proof -
  have "all_logged (live srv k) (logged srv k)" for k
    using assms(2) by (metis all_logged_def domIff map_le_def)
  then have b: "behind all_logged s"
    using covering_log.orderly_run_behind [OF assms(5) init_behind [OF assms(1)] init_inv [OF assms(1,3,4)]] by simp
  have "all_logged (live (sys_server s) k) (logged (sys_server s) k)" for k using behindD(2) [OF b, of k] assms(6) by simp
  then have "live (sys_server s) \<subseteq>\<^sub>m logged (sys_server s)" by (metis all_logged_def domIff map_le_def)
  then show ?thesis unfolding Let_def using flushed_boot_logged [OF behindD(1) [OF b]] by simp
qed

text \<open>Two clients set two keys; both writes are executed before either is recorded, and recorded in the other order.\<close>

lemma orderly_last: "orderly_run u e s s' \<Longrightarrow> orderly u e s'"
  by (induction rule: orderly_run.induct) auto

lemma orderly_line:
  assumes "orderly_run u e s0 s" and "sys_threads s (Conn fd) = Reading" and "safe_line line" and "parse line = Inr cmd"
    and "cmd_type cmd = SET" and "svr_role (sys_server s) = PRIMARY_ROLE"
    and "execute_on (sys_clock s) cmd (sys_server s) = (srv, r)"
    and "orderly u e (set_thread (Conn fd) (Executed cmd line r) (set_server srv s))"
  shows "orderly_run u e s0 (set_thread (Conn fd) (Executed cmd line r) (set_server srv s))"
proof -
  let ?s1 = "set_thread (Conn fd) (Admitted cmd line) s"
  have ne: "line \<noteq> []" using assms(4) by (auto simp: parse_Nil)
  then have b: "begin_line line (sys_server s) = Admitted cmd line" using assms(4-6) by (simp add: begin_line_def)
  have "thread_step s ?s1" using th_line [OF assms(2), of line] assms(3) b by (simp add: safe_line_def)
  moreover have "orderly u e ?s1" using orderly_last [OF assms(1)] by (auto simp: orderly_def sys_updates safe_pos_def pending_def)
  ultimately have 1: "orderly_run u e s0 ?s1" using or_step [OF assms(1) sy_thread] by blast
  have "thread_step ?s1 (set_thread (Conn fd) (Executed cmd line r) (set_server srv s))"
    using th_execute [of ?s1 "Conn fd" cmd line srv r] assms(5,7)
    by (simp add: saves_def set_server_thread) (simp add: set_thread_def)
  from or_step [OF 1 sy_thread [OF this] assms(8)] show ?thesis .
qed

lemma orderly_record:
  assumes "orderly_run u e s0 s" and "sys_threads s i = Executed cmd line r"
  shows "orderly_run u e s0 (set_thread i (Recorded cmd line r) (set_server (record_part cmd line r (sys_server s)) s))"
proof -
  have "orderly u e s" using orderly_last [OF assms(1)] .
  then have "orderly u e (set_thread i (Recorded cmd line r) (set_server (record_part cmd line r (sys_server s)) s))"
    unfolding orderly_def by (auto simp: sys_updates safe_pos_def pending_def)
  then show ?thesis by (intro or_step [OF assms(1) sy_thread [OF th_record [OF assms(2)]]])
qed

lemma role_after_set: "cmd_type cmd = SET \<Longrightarrow> execute_on now cmd s = (srv, r) \<Longrightarrow> svr_role srv = svr_role s"
  using exec_registry(1) [of now cmd "(svr_node s)\<lparr>totalCommands := totalCommands (svr_node s) + 1\<rparr>"]
  by (auto simp: svr_role_def execute_on_def execute_def Let_def split: prod.splits)

theorem disjoint_writers_survive_restart_witness:
  "\<exists>s r r'. orderly_run (\<lambda>cmd. True) False (init_system fresh_server 0) s \<and>
     sys_threads s (Conn 5) = Recorded (set_command ''a'' ''1'') ''SET a 1'' r \<and>
     sys_threads s (Conn 6) = Recorded (set_command ''b'' ''2'') ''SET b 2'' r' \<and>
     (let s' = sys_server s
      in contents (store (boot (\<lambda>i. 9) (\<lambda>i. 9) 0 (svr_config s') (node_disk (svr_node (background FlushTask s'))))) = live s')"
proof -
  let ?c1 = "set_command ''a'' ''1''" and ?c2 = "set_command ''b'' ''2''"
  have p: "parse ''SET a 1'' = Inr ?c1" "parse ''SET b 2'' = Inr ?c2" by code_simp+
  have sl: "safe_line ''SET a 1''" "safe_line ''SET b 2''" by (simp_all add: safe_line_def)
  have ct: "cmd_type ?c1 = SET" "cmd_type ?c2 = SET" "cmd_key ?c1 = ''a''" "cmd_key ?c2 = ''b''"
    by (simp_all add: cmd_key_def)
  let ?s0 = "init_system fresh_server 0"
  let ?s2 = "set_thread (Conn 6) Reading (set_thread (Conn 5) Reading ?s0)"
  obtain v1 r1 where e1: "execute_on 0 ?c1 fresh_server = (v1, r1)" by fastforce
  obtain v2 r2 where e2: "execute_on 0 ?c2 v1 = (v2, r2)" by fastforce
  let ?s3 = "set_thread (Conn 5) (Executed ?c1 ''SET a 1'' r1) (set_server v1 ?s2)"
  let ?s4 = "set_thread (Conn 6) (Executed ?c2 ''SET b 2'' r2) (set_server v2 ?s3)"
  let ?s5 = "set_thread (Conn 6) (Recorded ?c2 ''SET b 2'' r2) (set_server (record_part ?c2 ''SET b 2'' r2 (sys_server ?s4)) ?s4)"
  let ?s6 = "set_thread (Conn 5) (Recorded ?c1 ''SET a 1'' r1) (set_server (record_part ?c1 ''SET a 1'' r1 (sys_server ?s5)) ?s5)"
  note o = orderly_def sys_updates init_system_def safe_pos_def pending_def
  have role: "svr_role fresh_server = PRIMARY_ROLE" "svr_role v1 = PRIMARY_ROLE"
    using role_after_set [OF ct(1) e1] by (simp_all add: svr_role_def fresh_server_parts new_ReplicationManager_def)
  have "orderly (\<lambda>cmd. True) False ?s0" "orderly (\<lambda>cmd. True) False (set_thread (Conn 5) Reading ?s0)" "orderly (\<lambda>cmd. True) False ?s2" by (simp_all add: o)
  then have "orderly_run (\<lambda>cmd. True) False ?s0 ?s2"
    by (intro or_step [OF or_step [OF or_refl sy_thread [OF th_open]] sy_thread [OF th_open]]) (simp_all add: init_system_def)
  from orderly_line [OF this _ sl(1) p(1) ct(1), of 5 v1 r1] have "orderly_run (\<lambda>cmd. True) False ?s0 ?s3"
    using role e1 sl by (simp add: o)
  from orderly_line [OF this _ sl(2) p(2) ct(2), of 6 v2 r2] have r4: "orderly_run (\<lambda>cmd. True) False ?s0 ?s4"
    using role e2 sl ct by (simp add: o)
  from orderly_record [OF r4, of "Conn 6"] have r5: "orderly_run (\<lambda>cmd. True) False ?s0 ?s5" by simp
  from orderly_record [OF r5, of "Conn 5"] have r6: "orderly_run (\<lambda>cmd. True) False ?s0 ?s6" by simp
  have "\<forall>i. pending (sys_threads ?s6 i) = None" by (simp add: init_system_def set_thread_def set_server_def pending_def)
  moreover have "replication (svr_node fresh_server) \<noteq> None" "replicaFds (svr_registry fresh_server) = []"
    "live fresh_server = logged fresh_server"
    by (simp_all add: fresh_server_parts svr_registry_def new_ReplicationManager_def fresh_server_sound)
  ultimately have "let s' = sys_server ?s6
      in contents (store (boot (\<lambda>i. 9) (\<lambda>i. 9) 0 (svr_config s') (node_disk (svr_node (background FlushTask s'))))) = live s'"
    using disjoint_writers_survive_restart [OF fresh_server_sound(1) _ _ _ r6] by blast
  with r6 show ?thesis by (intro exI [of _ ?s6] exI [of _ r1] exI [of _ r2]) simp
qed

theorem expiring_writers_survive_restart_witness:
  "\<exists>s r. orderly_run no_counter True (init_system fresh_server 0) s \<and>
     sys_threads s (Conn 5) = Recorded (set_command ''a'' ''1'') ''SET a 1'' r \<and>
     (let s' = sys_server s
      in live s' \<subseteq>\<^sub>m contents (store (boot (\<lambda>i. 9) (\<lambda>i. 9) 0 (svr_config s') (node_disk (svr_node (background FlushTask s'))))))"
proof -
  let ?c = "set_command ''a'' ''1''" and ?s0 = "init_system fresh_server 0"
  have p: "parse ''SET a 1'' = Inr ?c" by code_simp
  have sl: "safe_line ''SET a 1''" by (simp add: safe_line_def)
  have ct: "cmd_type ?c = SET" by simp
  let ?s1 = "set_thread (Conn 5) Reading ?s0"
  obtain v r where e: "execute_on 0 ?c fresh_server = (v, r)" by fastforce
  let ?s2 = "set_thread (Conn 5) (Executed ?c ''SET a 1'' r) (set_server v ?s1)"
  let ?s3 = "set_thread (Conn 5) (Recorded ?c ''SET a 1'' r) (set_server (record_part ?c ''SET a 1'' r (sys_server ?s2)) ?s2)"
  note o = orderly_def sys_updates init_system_def safe_pos_def pending_def
  have role: "svr_role fresh_server = PRIMARY_ROLE" by (simp add: svr_role_def fresh_server_parts new_ReplicationManager_def)
  have "orderly no_counter True ?s0" "orderly no_counter True ?s1" by (simp_all add: o)
  then have "orderly_run no_counter True ?s0 ?s1"
    by (intro or_step [OF or_refl sy_thread [OF th_open]]) (simp_all add: init_system_def)
  from orderly_line [OF this _ sl p ct, of 5 v r] have r2: "orderly_run no_counter True ?s0 ?s2"
    using role e sl ct by (simp add: o no_counter_def)
  from orderly_record [OF r2, of "Conn 5"] have r3: "orderly_run no_counter True ?s0 ?s3" by simp
  have "\<forall>i. pending (sys_threads ?s3 i) = None" by (simp add: init_system_def set_thread_def set_server_def pending_def)
  moreover have "replication (svr_node fresh_server) \<noteq> None" "replicaFds (svr_registry fresh_server) = []"
    "live fresh_server \<subseteq>\<^sub>m logged fresh_server"
    by (simp_all add: fresh_server_parts svr_registry_def new_ReplicationManager_def fresh_server_sound)
  ultimately have "let s' = sys_server ?s3
      in live s' \<subseteq>\<^sub>m contents (store (boot (\<lambda>i. 9) (\<lambda>i. 9) 0 (svr_config s') (node_disk (svr_node (background FlushTask s')))))"
    using expiring_writers_survive_restart [OF fresh_server_sound(1) _ _ _ r3] by blast
  with r3 show ?thesis by (intro exI [of _ ?s3] exI [of _ r]) simp
qed

end
