(* ===== verification/Threads_Replica.thy ===== *)
theory Threads_Replica
  imports Threads_Durability
begin

text \<open>
  A replica under interleaving: which steps can change its data while it is a replica, and the gap
  between testing the role and executing a command.
\<close>

section \<open>Reading changes nothing\<close>

lemma get_keeps_contents: "store_inv s \<Longrightarrow> kv_get s k = (s', v) \<Longrightarrow> contents s' = contents s"
  using contents_get [of s k] by simp

lemma read_keeps_contents:
  assumes "store_inv (store n)" and "\<not> isWriteCommand (cmd_type cmd)"
  shows "contents (store (fst (execute now cmd n))) = contents (store n)"
  using assms
  by (cases "cmd_type cmd")
    (simp_all add: execute_def exec_defs Let_def get_keeps_contents split: list.split option.split prod.split sum.split)

section \<open>Runs of a replica\<close>

definition client_write_admitted :: "system \<Rightarrow> bool" where
  "client_write_admitted s \<longleftrightarrow> (\<exists>fd cmd line. sys_threads s (Conn fd) = Admitted cmd line \<and> isWriteCommand (cmd_type cmd))"

text \<open>The process stays a replica, its link applies nothing, and no expiry callback runs.\<close>

definition idle_replica :: "system \<Rightarrow> bool" where
  "idle_replica s \<longleftrightarrow> svr_role (sys_server s) = REPLICA_ROLE \<and> sys_threads s Link = Reading \<and> (\<forall>k. sys_sweeper s \<noteq> Firing k)"

inductive replica_run :: "system \<Rightarrow> system \<Rightarrow> bool" where
  rr_refl: "idle_replica s \<Longrightarrow> replica_run s s"
| rr_step: "replica_run s s' \<Longrightarrow> sys_step s' s'' \<Longrightarrow> idle_replica s'' \<Longrightarrow> replica_run s s''"

lemma begin_line_admits:
  "svr_role s = REPLICA_ROLE \<Longrightarrow> begin_line line s = Admitted cmd l \<Longrightarrow> \<not> isWriteCommand (cmd_type cmd)"
  by (auto simp: begin_line_def split: if_splits sum.splits ProtocolError.splits)

lemma live_same_store: "store (svr_node s') = store (svr_node s) \<Longrightarrow> live s' = live s"
  by (simp add: live_def)

lemma no_write_admitted:
  assumes "\<not> client_write_admitted s" and "\<And>cmd line. p = Admitted cmd line \<Longrightarrow> i \<noteq> Link \<Longrightarrow> \<not> isWriteCommand (cmd_type cmd)"
  shows "\<not> client_write_admitted (set_thread i p s)"
  using assms unfolding client_write_admitted_def by (metis fun_upd_apply sys_threads_set(1) thread_id.distinct(1))

lemma not_admitting:
  "\<not> client_write_admitted s \<Longrightarrow> \<forall>cmd line. p \<noteq> Admitted cmd line \<Longrightarrow> \<not> client_write_admitted (set_thread i p s)"
  by (rule no_write_admitted) simp_all

lemma no_write_server [simp]: "client_write_admitted (set_server srv s) = client_write_admitted s"
  by (simp add: client_write_admitted_def)

lemma replica_thread_step:
  assumes "thread_step s s'" and "sys_inv s" and "idle_replica s" and "\<not> client_write_admitted s"
  shows "live (sys_server s') = live (sys_server s) \<and> \<not> client_write_admitted s'"
  using assms
proof (induction rule: thread_step.induct)
  case (th_line s fd line)
  have "\<not> client_write_admitted (set_thread (Conn fd) (begin_line line (sys_server s)) s)"
    using th_line(5) begin_line_admits th_line(4) by (intro no_write_admitted) (auto simp: idle_replica_def)
  then show ?case by simp
next
  case (th_apply s line cmd)
  have "\<not> client_write_admitted (set_thread Link (Admitted cmd line) s)" using th_apply(7) by (rule no_write_admitted) simp
  then show ?case by simp
next
  case (th_execute s i cmd line srv response)
  have st: "store_inv (store (svr_node (sys_server s)))" using th_execute(5) by (simp add: sys_inv_def server_ok_def node_inv_def)
  have "i \<noteq> Link" using th_execute(1,6) by (auto simp: idle_replica_def)
  then have "\<not> isWriteCommand (cmd_type cmd)"
    using th_execute(1,7) by (cases i) (auto simp: client_write_admitted_def)
  from read_keeps_contents [OF st this, of "sys_clock s"] have "live srv = live (sys_server s)"
    using execute_on_node [OF th_execute(4)] by (simp add: live_def)
  with th_execute(7) show ?case by (simp add: not_admitting)
next
  case (th_record s i cmd line response)
  then show ?case by (simp add: not_admitting live_def)
next
  case (th_propagate s i cmd line response)
  then show ?case by (simp add: not_admitting live_def)
next
  case (th_reply s fd response srv nx)
  have "svr_node srv = svr_node (sys_server s)" using reply_with_node [of fd response "sys_server s"] th_reply(2) by simp
  with th_reply(5) show ?case by (simp add: not_admitting live_def)
next
  case (th_dump s fd srv ok)
  have "live srv = live (sys_server s)" using sync_sound(5) [of fd "sys_server s"] unfolding th_dump(2) by simp
  with th_dump(5) show ?case by (simp add: not_admitting)
qed (simp_all add: not_admitting)

lemma no_write_fields [simp]:
  "client_write_admitted (s\<lparr>sys_saver := v\<rparr>) = client_write_admitted s"
  "client_write_admitted (s\<lparr>sys_sweeper := w\<rparr>) = client_write_admitted s"
  "client_write_admitted (s\<lparr>sys_clock := t\<rparr>) = client_write_admitted s"
  by (simp_all add: client_write_admitted_def)

lemma replica_save_step:
  assumes "save_step s s'" and "\<not> client_write_admitted s"
  shows "live (sys_server s') = live (sys_server s) \<and> \<not> client_write_admitted s'"
  using assms
proof (induction rule: save_step.induct)
  case (sv_command s i cmd line)
  then show ?case by (simp add: not_admitting live_def)
next
  case (sv_reset s i cmd line)
  then show ?case by (simp add: not_admitting live_def)
qed (simp_all add: live_def)

lemma replica_other_step:
  assumes "other_step s s'" and "idle_replica s" and "\<not> client_write_admitted s"
  shows "live (sys_server s') = live (sys_server s) \<and> \<not> client_write_admitted s'"
  using assms
proof (induction rule: other_step.induct)
  case (ot_sweep s m w)
  from ot_sweep(4) show ?case by (simp add: live_def put_expiry_def)
next
  case (ot_expired s k)
  then show ?case by (simp add: idle_replica_def)
qed (simp_all add: live_def)

lemma replica_step:
  assumes "sys_step s s'" and "sys_inv s" and "idle_replica s" and "\<not> client_write_admitted s"
  shows "live (sys_server s') = live (sys_server s) \<and> \<not> client_write_admitted s'"
  using assms
  by (cases rule: sys_step.cases) (blast dest: replica_thread_step replica_save_step replica_other_step)+

section \<open>Properties\<close>

text \<open>
  C21: a replica is read-only for its clients. As long as a server is a replica, its link applies
  nothing and nothing expires, no interleaving of client requests, snapshots and streams to further
  replicas changes its data, provided no client write had been admitted before it became a replica;
  and none is admitted meanwhile.
\<close>

theorem replica_is_read_only:
  assumes "replica_run s s'" and "sys_inv s" and "\<not> client_write_admitted s"
  shows "live (sys_server s') = live (sys_server s) \<and> \<not> client_write_admitted s'"
proof -
  have "live (sys_server s') = live (sys_server s) \<and> \<not> client_write_admitted s' \<and> sys_inv s' \<and> idle_replica s'"
    using assms
  proof (induction rule: replica_run.induct)
    case (rr_step s s1 s2)
    then show ?case using replica_step [of s1 s2] sys_inv_step [of s1 s2] by auto
  qed simp
  then show ?thesis by blast
qed

text \<open>A server told to follow a primary at port 7000.\<close>

abbreviation follow_command :: Command where
  "follow_command \<equiv> \<lparr>cmd_type = REPLICAOF, cmd_name = ''REPLICAOF'', cmd_args = [''h'', ''7000'']\<rparr>"

lemma follow_role:
  assumes "replication (svr_node s) \<noteq> None" and "execute_on now follow_command s = (s1, r)"
  shows "svr_role s1 = REPLICA_ROLE" and "store (svr_node s1) = store (svr_node s)"
proof -
  have p: "stoi ''7000'' = Inr 7000" and h: "\<not> equalsIgnoreCase ''h'' ''NO''" by code_simp+
  from assms p h show "svr_role s1 = REPLICA_ROLE" and "store (svr_node s1) = store (svr_node s)"
    by (auto simp: execute_on_def execute_def exec_REPLICAOF_def svr_role_def replicaOf_def Let_def split: prod.splits option.splits)
qed

lemma reachable_admit:
  assumes "sys_reachable srv t s" and "sys_threads s (Conn fd) = NotOpen" and "LF \<notin> set line" and "parse line = Inr cmd"
    and "cmd_type cmd \<noteq> SYNC" and "svr_role (sys_server s) = PRIMARY_ROLE"
  shows "sys_reachable srv t (set_thread (Conn fd) (Admitted cmd line) s)"
proof -
  let ?s1 = "set_thread (Conn fd) Reading s"
  have "sys_reachable srv t ?s1" using sys_reachable.sr_step [OF assms(1) sy_thread [OF th_open [OF assms(2)]]] .
  moreover have "line \<noteq> []" using assms(4) by (auto simp: parse_Nil)
  then have "begin_line line (sys_server ?s1) = Admitted cmd line" using assms(4-6) by (simp add: begin_line_def)
  then have "thread_step ?s1 (set_thread (Conn fd) (Admitted cmd line) s)" using th_line [of ?s1 fd line] assms(3) by simp
  ultimately show ?thesis by (blast intro: sys_reachable.sr_step sy_thread)
qed

lemma fresh_primary: "svr_role fresh_server = PRIMARY_ROLE" "replication (svr_node fresh_server) \<noteq> None"
  by (simp_all add: svr_role_def fresh_server_parts new_ReplicationManager_def)

lemma fresh_server_ok: "server_ok fresh_server" "replicaFds (svr_registry fresh_server) = []"
proof -
  have "booted_ok (svr_node fresh_server)" by (simp add: fresh_server_def boot_booted_ok)
  then show "server_ok fresh_server" "replicaFds (svr_registry fresh_server) = []" by (rule booted_server_ok)+
qed

theorem replica_is_read_only_witness:
  "\<exists>s s'. replica_run s s' \<and> sys_threads s' (Conn 5) = ReplyDue Reply_readOnlyError \<and>
     live (sys_server s') = live (sys_server s) \<and> \<not> client_write_admitted s'"
proof -
  obtain v r where e: "execute_on 0 follow_command fresh_server = (v, r)" by fastforce
  note f = follow_role [OF fresh_primary(2) e]
  let ?s = "init_system v 0"
  let ?s1 = "set_thread (Conn 5) Reading ?s"
  let ?s2 = "set_thread (Conn 5) (ReplyDue Reply_readOnlyError) ?s"
  note i = idle_replica_def init_system_def set_thread_def
  have p: "parse ''SET a 1'' = Inr (set_command ''a'' ''1'')" by code_simp
  have "idle_replica ?s" "idle_replica ?s1" "idle_replica ?s2" using f(1) by (simp_all add: i)
  moreover have "sys_step ?s ?s1" by (rule sy_thread [OF th_open]) (simp add: init_system_def)
  moreover have "begin_line ''SET a 1'' (sys_server ?s1) = ReplyDue Reply_readOnlyError"
    using f(1) p by (simp add: begin_line_def init_system_def)
  then have "sys_step ?s1 ?s2" using th_line [of ?s1 5 "''SET a 1''"] by (simp add: sy_thread)
  ultimately have run: "replica_run ?s ?s2" by (blast intro: replica_run.intros)
  have "parse ''REPLICAOF h 7000'' = Inr follow_command" by code_simp
  from server_ok_execute(1,3) [OF fresh_server_ok(1) this e] have "sys_inv ?s"
    using fresh_server_ok(2) by (intro sys_reachable_inv [OF sys_reachable.sr_init]) simp_all
  moreover have "\<not> client_write_admitted ?s" by (simp add: client_write_admitted_def init_system_def)
  ultimately have "live (sys_server ?s2) = live (sys_server ?s) \<and> \<not> client_write_admitted ?s2"
    by (rule replica_is_read_only [OF run])
  with run show ?thesis by (intro exI [of _ ?s] exI [of _ ?s2]) simp
qed

text \<open>
  The role is tested before a command runs, not while it runs. A write that was admitted while the
  server was a primary is executed after the server has become a replica, and changes the replica's data.
\<close>

theorem admitted_write_changes_replica:
  "\<exists>s s'. sys_reachable fresh_server 0 s \<and> svr_role (sys_server s) = REPLICA_ROLE \<and> live (sys_server s) = Map.empty \<and>
     sys_threads s Link = Reading \<and> sys_step s s' \<and>
     svr_role (sys_server s') = REPLICA_ROLE \<and> live (sys_server s') = [''a'' \<mapsto> ''1'']"
proof -
  let ?c = "set_command ''a'' ''1''" and ?l = "''SET a 1''" and ?s0 = "init_system fresh_server 0"
  have p: "parse ?l = Inr ?c" "parse ''REPLICAOF h 7000'' = Inr follow_command" by code_simp+
  obtain v r where e: "execute_on 0 follow_command fresh_server = (v, r)" by fastforce
  obtain v' r' where e': "execute_on 0 ?c v = (v', r')" by fastforce
  note f = follow_role [OF fresh_primary(2) e]
  let ?s1 = "set_thread (Conn 5) (Admitted ?c ?l) ?s0"
  let ?s2 = "set_thread (Conn 6) (Admitted follow_command ''REPLICAOF h 7000'') ?s1"
  let ?s3 = "set_thread (Conn 6) (Executed follow_command ''REPLICAOF h 7000'' r) (set_server v ?s2)"
  let ?s4 = "set_thread (Conn 5) (Executed ?c ?l r') (set_server v' ?s3)"
  have "sys_reachable fresh_server 0 ?s1"
    using reachable_admit [OF sys_reachable.sr_init _ _ p(1), where fd = 5] fresh_primary by (simp add: init_system_def)
  then have "sys_reachable fresh_server 0 ?s2"
    using reachable_admit [OF _ _ _ p(2), of fresh_server 0 ?s1 6] fresh_primary by (simp add: init_system_def)
  moreover have "sys_step ?s2 ?s3"
    by (rule sy_thread [OF th_execute]) (use e in \<open>simp_all add: init_system_def saves_def set_thread_def\<close>)
  ultimately have "sys_reachable fresh_server 0 ?s3" by (rule sys_reachable.sr_step)
  moreover have "sys_step ?s3 ?s4"
    by (rule sy_thread [OF th_execute]) (use e' in \<open>simp_all add: init_system_def saves_def set_thread_def set_server_def\<close>)
  moreover have "live v = Map.empty" using f(2) fresh_server_sound(2) by (simp add: live_def)
  moreover have "svr_role v' = REPLICA_ROLE" using role_after_set [OF _ e'] f(1) by simp
  moreover have "live v' = [''a'' \<mapsto> ''1'']"
    using execute_on_set [of 0 "''a''" "''1''" v] e' f(2) by (auto simp: live_def fresh_server_parts kv_set_def contents_set_unbounded store_inv_new contents_new)
  ultimately show ?thesis using f(1) by (intro exI [of _ ?s3] exI [of _ ?s4]) (simp add: init_system_def)
qed

end
