(* ===== verification/Stream_Races.thy ===== *)
theory Stream_Races
  imports Replication_Theorems
begin

text \<open>
  Several threads writing one socket. \<^verbatim>\<open>writeRaw\<close> in \<^verbatim>\<open>src/net/line_protocol.cpp\<close> sends its bytes by as many
  calls of \<^verbatim>\<open>send\<close> as it takes, and between two of them another thread may send on the same
  descriptor: the dump of a replica stream holds no lock, while the registry already lists the
  descriptor for propagated writes. A step here is one call of \<^verbatim>\<open>send\<close>. The lemmas show that a thread
  that is alone on the socket does what the function \<open>writeRaw\<close> does, and what a split dump does to
  a replica.
\<close>

section \<open>Writers\<close>

record writer =
  wr_data :: string
  wr_total :: nat

definition new_writer :: "string \<Rightarrow> writer" where
  "new_writer data = \<lparr>wr_data = data, wr_total = 0\<rparr>"

definition wr_done :: "writer \<Rightarrow> bool" where
  "wr_done w \<longleftrightarrow> length (wr_data w) \<le> wr_total w"

text \<open>One turn of the loop, when \<^verbatim>\<open>send\<close> takes some bytes.\<close>

definition send_once :: "int \<Rightarrow> writer \<Rightarrow> sock \<Rightarrow> writer \<times> sock" where
  "send_once sent w k =
     (w\<lparr>wr_total := wr_total w + nat sent\<rparr>,
      k\<lparr>sk_tx := tl (sk_tx k), sk_out := sk_out k @ take (nat sent) (drop (wr_total w) (wr_data w))\<rparr>)"

inductive send_step :: "writer list \<times> sock \<Rightarrow> writer list \<times> sock \<Rightarrow> bool" where
  st_send: "i < length ws \<Longrightarrow> \<not> wr_done (ws ! i) \<Longrightarrow> sk_tx k = sent # ts \<Longrightarrow> 0 < sent \<Longrightarrow>
    send_once sent (ws ! i) k = (w', k') \<Longrightarrow> send_step (ws, k) (ws[i := w'], k')"

section \<open>A thread alone\<close>

lemma lone_writer_run:
  assumes "writeRaw_loop data n ts out = (True, ts', out')"
  shows "\<exists>m. length data \<le> m \<and>
    send_step\<^sup>*\<^sup>* ([\<lparr>wr_data = data, wr_total = n\<rparr>], \<lparr>sk_rx = rx, sk_tx = ts, sk_out = out\<rparr>)
      ([\<lparr>wr_data = data, wr_total = m\<rparr>], \<lparr>sk_rx = rx, sk_tx = ts', sk_out = out'\<rparr>)"
  using assms
proof (induction data n ts out rule: writeRaw_loop.induct)
  case (1 data n out)
  then show ?case by (intro exI [of _ n]) (auto split: if_splits)
next
  case (2 data n sent ts out)
  show ?case
  proof (cases "n < length data")
    case False
    with 2(2) show ?thesis by (intro exI [of _ n]) auto
  next
    case True
    let ?o = "out @ take (nat sent) (drop n data)"
    have s: "0 < sent" and r: "writeRaw_loop data (n + nat sent) ts ?o = (True, ts', out')"
      using True 2(2) by (auto split: if_splits)
    have step: "send_step ([\<lparr>wr_data = data, wr_total = n\<rparr>], \<lparr>sk_rx = rx, sk_tx = sent # ts, sk_out = out\<rparr>)
        ([\<lparr>wr_data = data, wr_total = n + nat sent\<rparr>], \<lparr>sk_rx = rx, sk_tx = ts, sk_out = ?o\<rparr>)"
      using st_send [of 0 "[\<lparr>wr_data = data, wr_total = n\<rparr>]" "\<lparr>sk_rx = rx, sk_tx = sent # ts, sk_out = out\<rparr>" sent ts] True s
      by (simp add: wr_done_def send_once_def)
    from 2(1) [OF True _ r] s obtain m where "length data \<le> m"
      "send_step\<^sup>*\<^sup>* ([\<lparr>wr_data = data, wr_total = n + nat sent\<rparr>], \<lparr>sk_rx = rx, sk_tx = ts, sk_out = ?o\<rparr>)
        ([\<lparr>wr_data = data, wr_total = m\<rparr>], \<lparr>sk_rx = rx, sk_tx = ts', sk_out = out'\<rparr>)" by fastforce
    with step show ?thesis by (meson converse_rtranclp_into_rtranclp)
  qed
qed

section \<open>A dump in two pieces\<close>

lemma split_dump_run:
  "\<exists>w w' k. send_step\<^sup>*\<^sup>* ([new_writer (''SET k v'' @ [LF]), new_writer (''DEL k'' @ [LF])], \<lparr>sk_rx = [], sk_tx = [5, 6, 3], sk_out = []\<rparr>)
     ([w, w'], k) \<and> wr_done w \<and> wr_done w' \<and> sk_out k = ''SET kDEL k'' @ [LF] @ '' v'' @ [LF]"
proof -
  let ?d = "''SET k v'' @ [LF]" and ?p = "''DEL k'' @ [LF]"
  let ?w = "\<lambda>d n. \<lparr>wr_data = d, wr_total = n\<rparr>" and ?k = "\<lambda>ts out. \<lparr>sk_rx = [], sk_tx = ts, sk_out = out\<rparr>"
  note s = wr_done_def send_once_def eval_nat_numeral
  have 1: "send_step ([?w ?d 0, ?w ?p 0], ?k [5, 6, 3] []) ([?w ?d 5, ?w ?p 0], ?k [6, 3] ''SET k'')"
    using st_send [of 0 "[?w ?d 0, ?w ?p 0]" "?k [5, 6, 3] []" 5 "[6, 3]"] by (simp add: s)
  have 2: "send_step ([?w ?d 5, ?w ?p 0], ?k [6, 3] ''SET k'') ([?w ?d 5, ?w ?p 6], ?k [3] (''SET kDEL k'' @ [LF]))"
    using st_send [of 1 "[?w ?d 5, ?w ?p 0]" "?k [6, 3] ''SET k''" 6 "[3]"] by (simp add: s)
  have 3: "send_step ([?w ?d 5, ?w ?p 6], ?k [3] (''SET kDEL k'' @ [LF]))
      ([?w ?d 8, ?w ?p 6], ?k [] (''SET kDEL k'' @ [LF] @ '' v'' @ [LF]))"
    using st_send [of 0 "[?w ?d 5, ?w ?p 6]" "?k [3] (''SET kDEL k'' @ [LF])" 3 "[]"] by (simp add: s)
  have "send_step\<^sup>*\<^sup>* ([?w ?d 0, ?w ?p 0], ?k [5, 6, 3] []) ([?w ?d 8, ?w ?p 6], ?k [] (''SET kDEL k'' @ [LF] @ '' v'' @ [LF]))"
    using 1 2 3 by (meson converse_rtranclp_into_rtranclp r_into_rtranclp)
  then show ?thesis
    by (intro exI [of _ "?w ?d 8"] exI [of _ "?w ?p 6"] exI [of _ "?k [] (''SET kDEL k'' @ [LF] @ '' v'' @ [LF])"])
      (simp add: new_writer_def wr_done_def)
qed

lemma dump_one_key: "SnapshotManager_save [] (kv_set (new_KVStore 0) ''k'' ''v'') = ''SET k v'' @ [LF]"
  by code_simp

lemma replica_of_split_dump:
  "live (fold (apply_line 0) (readLines [] [''SET kDEL k'' @ [LF] @ '' v'' @ [LF]]) fresh_server) = [''kDEL'' \<mapsto> ''k'']"
proof -
  have r: "readLines [] [''SET kDEL k'' @ [LF] @ '' v'' @ [LF]] = [''SET kDEL k'', '' v'']" by code_simp
  have p: "parse ''SET kDEL k'' = Inr \<lparr>cmd_type = SET, cmd_name = ''SET'', cmd_args = [''kDEL'', ''k'']\<rparr>"
    "parse '' v'' = Inr \<lparr>cmd_type = UNKNOWN, cmd_name = ''v'', cmd_args = []\<rparr>" by code_simp+
  have c: "live (apply_line 0 ''SET kDEL k'' fresh_server) = [''kDEL'' \<mapsto> ''k'']"
    by (simp add: apply_line_def p live_def execute_on_def execute_def exec_SET_def Let_def recordAndPropagateIfWrite_def
        fresh_server_parts kv_set_def contents_set_unbounded store_inv_new contents_new split: prod.split)
  have "live (apply_line 0 '' v'' s) = live s" for s
    by (simp add: apply_line_def p live_def execute_on_def execute_def Let_def recordAndPropagateIfWrite_def split: prod.split)
  with c r show ?thesis by simp
qed

section \<open>Properties\<close>

text \<open>
  The calls of \<^verbatim>\<open>send\<close> made by a thread that has the socket to itself put on it exactly what
  the function \<open>writeRaw\<close> computes, and all of its bytes.
\<close>

theorem lone_writer_is_writeRaw:
  assumes "writeRaw k data = (k', True)"
  shows "\<exists>w. wr_done w \<and> send_step\<^sup>*\<^sup>* ([new_writer data], k) ([w], k') \<and> sk_out k' = sk_out k @ data"
proof -
  obtain ts' out' where l: "writeRaw_loop data 0 (sk_tx k) (sk_out k) = (True, ts', out')" "k' = k\<lparr>sk_tx := ts', sk_out := out'\<rparr>"
    using assms by (auto simp: writeRaw_def split: prod.splits)
  from writeRaw_loop_result [of 0 data "sk_tx k" "sk_out k"] l(1) have "out' = sk_out k @ data" by auto
  moreover from lone_writer_run [OF l(1), of "sk_rx k"] obtain m where "length data \<le> m"
    "send_step\<^sup>*\<^sup>* ([new_writer data], k) ([\<lparr>wr_data = data, wr_total = m\<rparr>], k')" by (cases k) (auto simp: l(2) new_writer_def)
  ultimately show ?thesis
    using l(2) by (intro exI [of _ "\<lparr>wr_data = data, wr_total = m\<rparr>"]) (simp add: wr_done_def)
qed

theorem lone_writer_is_writeRaw_witness:
  "\<exists>w. wr_done w \<and> send_step\<^sup>*\<^sup>* ([new_writer ''+OK''], \<lparr>sk_rx = [], sk_tx = [1, 2, 7], sk_out = []\<rparr>)
     ([w], \<lparr>sk_rx = [], sk_tx = [7], sk_out = ''+OK''\<rparr>) \<and> ''+OK'' = [] @ ''+OK''"
  using lone_writer_is_writeRaw [of "\<lparr>sk_rx = [], sk_tx = [1, 2, 7], sk_out = []\<rparr>" "''+OK''"
      "\<lparr>sk_rx = [], sk_tx = [7], sk_out = ''+OK''\<rparr>"]
  by (simp add: writeRaw_def eval_nat_numeral)

text \<open>
  A propagated write may land in the middle of a line of a dump. The primary holds one key, deletes it
  while the dump for a new replica is being sent, and sends the deletion to the replica between two pieces
  of the dump: every call of \<^verbatim>\<open>send\<close> succeeds, and the replica ends up with a key that the primary never had.
\<close>

theorem split_dump_invents_key:
  "let dump = SnapshotManager_save [] (kv_set (new_KVStore 0) ''k'' ''v'');
       k0 = \<lparr>sk_rx = [], sk_tx = [5, 6, 3], sk_out = []\<rparr>
   in \<exists>w w' k. send_step\<^sup>*\<^sup>* ([new_writer dump, new_writer (''DEL k'' @ [LF])], k0) ([w, w'], k) \<and> wr_done w \<and> wr_done w' \<and>
        live (fold (apply_line 0) (readLines [] [sk_out k]) fresh_server) = [''kDEL'' \<mapsto> ''k'']"
  unfolding Let_def dump_one_key using split_dump_run replica_of_split_dump by metis

end
