(* ===== verification/Spec2Isabelle.thy ===== *)
theory Spec2Isabelle
  imports Programs Executor_Theorems Server_Connection Router_Connection Command_Threads Cluster_Life Link_Threads
    Sweeper_Wakeups Threads_Replica Stream_Races
begin

text \<open>
  TinyKV is a Redis-inspired key-value server with a sharding router. This development models its
  C++ sources (\<^verbatim>\<open>src/src\<close> and \<^verbatim>\<open>src/include/tinykv\<close>) as functions and step relations and proves what
  makes them correct. It is read from the bottom up; every theory opens with what it holds.

  \<^bold>\<open>The program.\<close> A server process has a listening socket (\<^verbatim>\<open>net/tcp_server.cpp\<close>) whose connection
  threads run \<^verbatim>\<open>handleConnection\<close> of \<^verbatim>\<open>server_main.cpp\<close>: read a line (\<^verbatim>\<open>net/line_protocol.cpp\<close>), parse
  it (\<^verbatim>\<open>protocol/\<close>), execute it (\<^verbatim>\<open>command_executor.cpp\<close>) on the shared store
  (\<^verbatim>\<open>storage/kv_store.cpp\<close>) and expiry manager (\<^verbatim>\<open>storage/expiry_manager.cpp\<close>), append successful
  writes to the log (\<^verbatim>\<open>persistence/\<close>), propagate them to replicas (\<^verbatim>\<open>replication/\<close>) and reply. A
  sweeper thread expires keys, a timer hands flushes and snapshots to a thread pool
  (\<^verbatim>\<open>concurrency/\<close>), and a replica's link thread applies the lines of its primary. A router process
  (\<^verbatim>\<open>sharding/\<close>) hashes keys to shards, forwards requests to the active node of the shard, and
  pings nodes to fail shards over.

  \<^bold>\<open>Layers.\<close>
  \<^item> \<^verbatim>\<open>Prelude\<close>: names, collections of rewrite rules, wrapping C++ integers, list and mapping facts.
    \<^verbatim>\<open>Cpp_Text\<close>: characters, \<^verbatim>\<open>std::getline\<close>, \<^verbatim>\<open>operator>>\<close>, \<^verbatim>\<open>std::to_string\<close>, \<^verbatim>\<open>std::stoi\<close> and
    \<^verbatim>\<open>std::stoll\<close> as the standard defines them.
  \<^item> \<^verbatim>\<open>Protocol\<close> (\<^verbatim>\<open>protocol/*\<close>): commands, tokenizer, parser, replies.
  \<^item> \<^verbatim>\<open>Kv_Interface\<close>, \<^verbatim>\<open>Kv_Store\<close> (\<^verbatim>\<open>storage/kv_store.*\<close>): the list of nodes with the index into it, each
    operation as the code performs it; locales for a cache and a map, interpreted on the store.
  \<^item> \<^verbatim>\<open>Expiry_Manager\<close> (\<^verbatim>\<open>storage/expiry_manager.*\<close>): the heap with lazy deletion, and the sweeper thread
    as a step relation interleaved with clients and clock. \<^verbatim>\<open>Sweeper_Wakeups\<close>: the same with the condition
    variable, its notifications and spurious wake-ups.
  \<^item> \<^verbatim>\<open>Durability\<close> (writing half of \<^verbatim>\<open>persistence/*\<close>): disk, log writer, snapshot writer, timer; the
    locale of an append-only log. \<^verbatim>\<open>Recovery\<close> (reading half): replay, snapshot loading, recovery.
  \<^item> \<^verbatim>\<open>Line_Protocol\<close> (\<^verbatim>\<open>net/line_protocol.*\<close>, \<^verbatim>\<open>net/tcp_client.*\<close>): framing over a socket given by the chunks
    and counts its system calls return. \<^verbatim>\<open>Frontends\<close>: \<^verbatim>\<open>net/tcp_server.*\<close> and \<^verbatim>\<open>cli_main.cpp\<close> as functions;
    \<^verbatim>\<open>Tcp_Run\<close>: \<^verbatim>\<open>TcpServer::run\<close> with its connection threads, \<^verbatim>\<open>stop\<close> and the bounded wait, as steps.
  \<^item> \<^verbatim>\<open>Replication\<close> (\<^verbatim>\<open>replication/*\<close>): registry, link session, role changes. \<^verbatim>\<open>Link_Threads\<close>: the thread
    of a replica's link and the thread that stops it, as steps.
  \<^item> \<^verbatim>\<open>Command_Executor\<close>, \<^verbatim>\<open>Executor_Theorems\<close> (\<^verbatim>\<open>command_executor.*\<close>): every command on the record
    \<^typ>\<open>node\<close> of everything a server process shares, and its specification on two partial maps.
    \<^verbatim>\<open>Command_Accesses\<close>, \<^verbatim>\<open>Command_Threads\<close>: a command as its accesses to the store and the expiry manager, each
    under a mutex of its own, and several commands and the sweeper with their accesses interleaved.
  \<^item> \<^verbatim>\<open>Server\<close>, \<^verbatim>\<open>Server_Connection\<close>, \<^verbatim>\<open>Server_Durability\<close>, \<^verbatim>\<open>Durability_Theorems\<close>,
    \<^verbatim>\<open>Replication_Theorems\<close> (\<^verbatim>\<open>server_main.cpp\<close>): the connection handler, the replica stream, the
    callbacks and start-up; then whole connections, restarts and crashes, and convergence of a replica.
    \<^verbatim>\<open>Log_Agreement\<close>: the locale of what lines written down know of the data, with and without expiry, on which
    durability, replication, threads and the life of a cluster rest.
  \<^item> \<^verbatim>\<open>Server_Threads\<close>, \<^verbatim>\<open>Threads_Durability\<close>, \<^verbatim>\<open>Threads_Replica\<close>: the threads of a server process (connections,
    replica link, sweeper, snapshots, flushes) as one step relation, each request cut where the code
    holds no lock; the invariant of its reachable states, durability and the read-only replica under
    every interleaving. \<^verbatim>\<open>Server_Races\<close>, \<^verbatim>\<open>Stream_Races\<close>: particular interleavings, the second one with a
    step for every call of \<^verbatim>\<open>send\<close>.
  \<^item> \<^verbatim>\<open>Thread_Pool\<close> (\<^verbatim>\<open>concurrency/*\<close>) and \<^verbatim>\<open>Persistence_Lifecycle\<close> (\<^verbatim>\<open>persistence_manager.cpp\<close>): the pool; and
    start, timer thread, submitted tasks, stop and destruction of the persistence manager on it.
  \<^item> \<^verbatim>\<open>Hash_Ring\<close>, \<^verbatim>\<open>Shard_Topology\<close>, \<^verbatim>\<open>Health_Checker\<close>, \<^verbatim>\<open>Health_Loop\<close>, \<^verbatim>\<open>Router\<close>, \<^verbatim>\<open>Router_Connection\<close>,
    \<^verbatim>\<open>Router_Threads\<close> (\<^verbatim>\<open>sharding/*\<close>): 64-bit hashing and the ring over an ordered map, the shard table, health checks
    with failover and the thread that runs them, forwarding, whole connections of the router, and
    several of them side by side;
    locales for the ordered map and for the failover table. \<^verbatim>\<open>Cluster\<close>: the router together with the nodes
    behind it; \<^verbatim>\<open>Failover\<close>: a shard that moves from a lost primary to its replica; \<^verbatim>\<open>Cluster_Life\<close>: requests, connecting
    replicas, restarts, health checks and failovers of a whole cluster in any order.
  \<^item> \<^verbatim>\<open>Config_File\<close> (\<^verbatim>\<open>config.*\<close> and the command lines), \<^verbatim>\<open>Logger\<close> (\<^verbatim>\<open>logger.*\<close>), \<^verbatim>\<open>Programs\<close> (\<^verbatim>\<open>main\<close> of server
    and router: start-up, signals, and what a server leaves on disk when it exits).

  \<^bold>\<open>What is shown.\<close> The store implements a recency list under every operation and keeps list and
  index consistent; the executor refines the map specification, and errors have no effect; no key
  expires early and no due deadline is forgotten; framing does not depend on chunks and a
  connection serves every line once, on the server and on the router; for a store without capacity,
  restarting after a flush or a normal exit restores the data exactly, with expiry nothing live is
  lost, and a crash keeps the written prefix of the log; a fresh replica converges to its primary, and one
  that is cut off holds a state the primary went through. Commands on different keys are atomic although
  they hold no common lock; no wake-up of the sweeper is lost; stopping a replica link ends, and nothing of
  the old primary is applied afterwards. Through requests, restarts and failovers in any order
  the nodes behind the router are one map to its clients, from which a failover takes back at most the last writes of
  its shard, and nothing if the replica had received all; with expiring keys and no counters no value that is still due to
  its clients is lost. A shard that can be reached answers as that map does.
  Whatever the threads of a server do, its shared state stays consistent; writers of different keys
  lose nothing, and while keys expire nothing that is still there; a replica does not change for its
  clients; a request that is not interleaved does what the handler's function does. Stopping the persistence manager ends and waits for every task; the
  pool's destructor drains it; \<^verbatim>\<open>run\<close> returns after a bounded wait. A key belongs to the nearest ring
  position clockwise, and adding and removing nodes moves only the keys it must; a shard fails over
  exactly under the stated conditions, in time, and once; the router forwards where \<^verbatim>\<open>ROUTE\<close> says, and
  its threads forward as if one line came after the other.
  The development also proves where the code falls short: writes logged out of order, two \<^verbatim>\<open>SET\<close>s of a key
  that lose a deadline between them, a link that cannot be stopped while its primary is silent, a dump
  torn apart by a propagated write, a write admitted before a change of role and executed after it, a request
  sent to a node that has just been given up,
  a torn log line that swallows the next write, a failed snapshot that discards the log, an expiry
  callback that deletes a new value, objects destroyed under threads that still use them, a signal
  lost at start-up, deadlines that outlive evicted keys or overflow, stale bytes after a reconnect,
  an overlong line let through, snapshots that reverse recency, dumps that keep stale keys.

  \<^bold>\<open>Conventions.\<close> State is passed explicitly; clocks, networks and system calls are arguments (a
  clock is a function of the number of the line executed). Failure is an option or a sum. Loops end:
  eviction, tokenizing, reading lines, both connection handlers, waiting and draining are total
  functions with proved measures; the loop of the health checker, which runs until another thread
  clears its flag, is a partial function that is proved to return when that happens. No fuel is used.
  Mutex-protected sections are atomic; where code releases
  a lock between two of them, the model has two steps (sweeper, record after execute, dump after
  register, reset after snapshot). Two simplifications of \<^verbatim>\<open>Server_Threads\<close>: the accesses of one
  command to the store and to the expiry manager are one step (\<^verbatim>\<open>Command_Threads\<close> takes them apart), and so is one
  reply, one propagated line or one dump written to a socket (\<^verbatim>\<open>Stream_Races\<close> looks inside). The condition
  variable of the pool's tasks does not wake spuriously; the code tests its predicate again, so this adds no
  behaviour but the test. In \<^verbatim>\<open>Cluster\<close> a reply arrives at the router whole, in any chunks, or not at all:
  the rest of a reply that breaks off would be prepended to the next (\<^verbatim>\<open>Line_Protocol\<close>); a request is handled by its node in
  one step, and the stream to a replica is written in whole lines. Whether closing a
  descriptor ends a blocked \<^verbatim>\<open>recv\<close> is an argument of \<^verbatim>\<open>Link_Threads\<close>.
  Counters of commands, hits and misses are 64-bit words; signed
  arithmetic wraps, and properties that need exactness say so; the milliseconds waited by the health
  checker are unbounded integers. The durability, replication
  and cluster theorems are about request lines of at most 8172 bytes, which leaves room for the 20 characters of
  the longest number \<^verbatim>\<open>INCR\<close> can store beside a key, so that a snapshot line fits the parser's limit.

  \<^bold>\<open>Not modelled.\<close> Tests, benchmarks and scripts; banners and the text of log messages; \<^verbatim>\<open>localtime_r\<close>,
  \<^verbatim>\<open>std::filesystem\<close> and the contents of \<^verbatim>\<open>errno\<close>. The socket layer is represented by what its calls return.
\<close>

section \<open>From the socket to the disk and back\<close>

lemma serve_lines_events:
  "\<exists>es. serve_lines clk i fd ls s = run_events es s \<and> (list_all safe_line ls \<longrightarrow> list_all safe_event es)"
proof (induction ls arbitrary: i s)
  case Nil
  show ?case by (intro exI [of _ "[]"]) (simp add: run_events_def)
next
  case (Cons l ls)
  obtain es where "serve_lines clk (Suc i) fd ls (fst (handle_line (clk i) fd l s)) =
      run_events es (fst (handle_line (clk i) fd l s))" "list_all safe_line ls \<longrightarrow> list_all safe_event es"
    using Cons by blast
  then show ?case by (intro exI [of _ "Request fd (clk i) l # es"]) (simp add: run_events_def)
qed

lemma set_rx_node [simp]: "svr_node (set_rx fd cs s) = svr_node s"
  by (simp add: set_rx_def)

lemma set_rx_sound [simp]: "sound (set_rx fd cs s) = sound s" "live (set_rx fd cs s) = live s"
  "logged (set_rx fd cs s) = logged s"
  by (simp_all add: sound_def live_def logged_def)

lemma safe_strip_cr: "LF \<notin> set l \<Longrightarrow> length l \<le> 8172 \<Longrightarrow> safe_line (strip_cr l)"
  by (auto simp: safe_line_def strip_cr_def dest: in_set_butlastD)

text \<open>
  C10: what a client has been told survives. A server whose log agrees with its data serves a
  connection, whatever the chunks in which the request lines arrive; once the log is flushed, the
  data recovered from the disk by a new process is exactly the data the connection left behind.
\<close>

theorem connection_survives_restart:
  assumes "sound s" and "live s = logged s"
    and "\<forall>c \<in> set (sk_rx (svr_socks s fd)). c \<noteq> []" and "concat (sk_rx (svr_socks s fd)) = unlines ls"
    and "\<forall>l \<in> set ls. LF \<notin> set l \<and> length l \<le> 8172" and "all_served clk 0 fd (map strip_cr ls) s"
  shows "let s1 = handleConnection clk 0 fd [] s; s2 = background FlushTask s1
         in contents (store (boot clk1 clk2 0 (svr_config s1) (node_disk (svr_node s2)))) = live s1"
proof -
  let ?s1 = "handleConnection clk 0 fd [] s"
  have lim: "\<forall>l \<in> set ls. LF \<notin> set l \<and> length l \<le> reader_limit" using assms(5) by (auto simp: reader_limit_def)
  have rx: "set_rx fd (sk_rx (svr_socks s fd)) s = s" by (simp add: set_rx_def)
  have s1: "?s1 = set_rx fd [] (serve_lines clk 0 fd (map strip_cr ls) s)"
    using connection_lines [of "sk_rx (svr_socks s fd)" "[]" ls clk 0 fd s] assms(3,4,6) lim by (simp add: rx)
  have safe: "list_all safe_line (map strip_cr ls)" using assms(5) safe_strip_cr by (simp add: list_all_iff)
  obtain es where "serve_lines clk 0 fd (map strip_cr ls) s = run_events es s" "list_all safe_event es"
    using serve_lines_events safe by blast
  with run_exact [OF assms(1,2)] have so: "sound ?s1" and lv: "live ?s1 = logged ?s1" by (simp_all add: s1)
  show ?thesis unfolding Let_def by (rule flushed_boot [OF so lv])
qed

theorem connection_survives_restart_witness:
  "let s = fresh_server\<lparr>svr_socks := \<lambda>fd. \<lparr>sk_rx = [''SET k'', [SP, CHR ''v'', LF]], sk_tx = [100], sk_out = []\<rparr>\<rparr>;
       s1 = handleConnection (\<lambda>i. 0) 0 5 [] s; s2 = background FlushTask s1
   in contents (store (boot (\<lambda>i. 9) (\<lambda>i. 9) 0 (svr_config s1) (node_disk (svr_node s2)))) = live s1"
proof -
  let ?s = "fresh_server\<lparr>svr_socks := \<lambda>fd. \<lparr>sk_rx = [''SET k'', [SP, CHR ''v'', LF]], sk_tx = [100], sk_out = []\<rparr>\<rparr>"
  have so: "sound ?s" "live ?s = logged ?s"
    using fresh_server_sound by (simp_all add: sound_def live_def logged_def)
  have p: "parse ''SET k v'' = Inr \<lparr>cmd_type = SET, cmd_name = ''SET'', cmd_args = [''k'', ''v'']\<rparr>" by code_simp
  have h: "snd (handle_line 0 5 ''SET k v'' ?s) = NextLine"
    by (simp add: handle_line_def p execute_on_set recordAndPropagateIfWrite_def registry_propagate_def
        svr_role_def svr_registry_def fresh_server_parts new_ReplicationManager_def
        reply_with_def write_reply_def writeLine_def writeRaw_def Reply_ok_def)
  have a: "all_served (\<lambda>i. 0) 0 5 (map strip_cr [''SET k v'']) ?s" by (simp add: h strip_cr_def)
  show ?thesis
    unfolding Let_def
    by (rule connection_survives_restart [OF so _ _ _ a, unfolded Let_def]) simp_all
qed

end
